(* ===== verification/Prelude.thy ===== *)
theory Prelude
  imports Main "HOL-Library.Word" "HOL-Library.AList"
begin

section \<open>Results of Go code, sequencing, and shared lemmas\<close>

text \<open>
  The broker is Go code. A statement of a goroutine either finishes, panics (which ends the
  whole process, since no goroutine of the broker recovers), or blocks on a channel or a
  receipt. A \<open>res\<close> value records which of the three happened together with the state in which
  it happened, so that the effects that came before a panic or a blocking send stay visible.
  \<open>seqG\<close> runs statements one after the other and \<open>forG\<close> is a \<open>for ... range\<close> loop.

  \<open>keeps I f\<close> says that the statement \<open>f\<close> keeps the invariant \<open>I\<close> however it ends; the
  collection \<open>keeps_intros\<close> holds the rules that compose such facts.
\<close>

named_theorems keeps_intros "composition rules for invariants of statements"
named_theorems go_defs "definitions of the Go runtime operations"

datatype panic =
    NilDeref
  | SendOnClosed
  | CloseOfClosed
  | IndexOutOfRange
  | NegativeMakeChan
  | Raised string

datatype 's res = Ret 's | Panic panic 's | Block 's

fun state_of :: "'s res \<Rightarrow> 's" where
  "state_of (Ret s) = s"
| "state_of (Panic p s) = s"
| "state_of (Block s) = s"

fun panics :: "'s res \<Rightarrow> bool" where
  "panics (Panic p s) = True"
| "panics _ = False"

fun returns :: "'s res \<Rightarrow> bool" where
  "returns (Ret s) = True"
| "returns _ = False"

fun bindG :: "'s res \<Rightarrow> ('s \<Rightarrow> 's res) \<Rightarrow> 's res" where
  "bindG (Ret s) f = f s"
| "bindG (Panic p s) f = Panic p s"
| "bindG (Block s) f = Block s"

fun seqG :: "('s \<Rightarrow> 's res) list \<Rightarrow> 's \<Rightarrow> 's res" where
  "seqG [] s = Ret s"
| "seqG (f # fs) s = bindG (f s) (seqG fs)"

definition forG :: "'a list \<Rightarrow> ('a \<Rightarrow> 's \<Rightarrow> 's res) \<Rightarrow> 's \<Rightarrow> 's res" where
  "forG xs f = seqG (map f xs)"

definition whenG :: "bool \<Rightarrow> ('s \<Rightarrow> 's res) \<Rightarrow> 's \<Rightarrow> 's res" where
  "whenG b f s = (if b then f s else Ret s)"

text \<open>A statement on one field of a larger state.\<close>

fun map_res :: "('c \<Rightarrow> 's) \<Rightarrow> 'c res \<Rightarrow> 's res" where
  "map_res g (Ret c) = Ret (g c)"
| "map_res g (Panic p c) = Panic p (g c)"
| "map_res g (Block c) = Block (g c)"

definition keeps :: "('s \<Rightarrow> bool) \<Rightarrow> ('s \<Rightarrow> 's res) \<Rightarrow> bool" where
  "keeps I f \<longleftrightarrow> (\<forall>s. I s \<longrightarrow> I (state_of (f s)))"

subsection \<open>Sequencing\<close>

lemma forG_Nil [simp]: "forG [] f s = Ret s"
  by (simp add: forG_def)

lemma forG_Cons [simp]: "forG (x # xs) f s = bindG (f x s) (forG xs f)"
  by (simp add: forG_def)

lemma whenG_simps [simp]: "whenG True f s = f s" "whenG False f s = Ret s"
  by (simp_all add: whenG_def)

lemma bindG_Ret [simp]: "bindG r Ret = r"
  by (cases r) simp_all

lemma bindG_assoc: "bindG (bindG r f) g = bindG r (\<lambda>s. bindG (f s) g)"
  by (cases r) simp_all

lemma seqG_append: "seqG (fs @ gs) s = bindG (seqG fs s) (seqG gs)"
proof (induction fs arbitrary: s)
  case (Cons f fs)
  then have "seqG (fs @ gs) = (\<lambda>s. bindG (seqG fs s) (seqG gs))" by auto
  then show ?case by (simp add: bindG_assoc)
qed simp

lemma forG_append: "forG (xs @ ys) f s = bindG (forG xs f s) (forG ys f)"
  unfolding forG_def by (simp add: seqG_append)

lemma state_of_map_res [simp]: "state_of (map_res g r) = g (state_of r)"
  by (cases r) simp_all

lemma map_res_Ret_iff [simp]: "map_res g r = Ret s \<longleftrightarrow> (\<exists>c. r = Ret c \<and> s = g c)"
  by (cases r) auto

lemma panics_iff: "panics r \<longleftrightarrow> (\<exists>p s. r = Panic p s)"
  by (cases r) simp_all

lemma returns_iff: "returns r \<longleftrightarrow> (\<exists>s. r = Ret s)"
  by (cases r) simp_all

lemma panics_map_res [simp]: "panics (map_res g r) = panics r"
  by (cases r) simp_all

lemma returns_map_res [simp]: "returns (map_res g r) = returns r"
  by (cases r) simp_all

lemma forG_Ret_fold:
  assumes "\<And>x s. x \<in> set xs \<Longrightarrow> f x s = Ret (g x s)"
  shows "forG xs f s = Ret (fold g xs s)"
  using assms by (induction xs arbitrary: s) auto

subsection \<open>Invariants of statements\<close>

lemma keepsI: "(\<And>s. I s \<Longrightarrow> I (state_of (f s))) \<Longrightarrow> keeps I f"
  by (simp add: keeps_def)

lemma keepsD: "keeps I f \<Longrightarrow> I s \<Longrightarrow> I (state_of (f s))"
  by (simp add: keeps_def)

lemma keeps_Ret: "keeps I f \<Longrightarrow> I s \<Longrightarrow> f s = Ret t \<Longrightarrow> I t"
  by (metis keepsD state_of.simps(1))

lemma keeps_bindG [keeps_intros]:
  assumes "keeps I f" and "keeps I g"
  shows "keeps I (\<lambda>s. bindG (f s) g)"
proof (rule keepsI)
  fix s assume "I s"
  with assms(1) have 1: "I (state_of (f s))" by (rule keepsD)
  show "I (state_of (bindG (f s) g))"
  proof (cases "f s")
    case (Ret t)
    with 1 have "I t" by simp
    with assms(2) Ret show ?thesis by (simp add: keepsD)
  qed (use 1 in simp_all)
qed

lemma keeps_return [keeps_intros]: "keeps I Ret"
  by (simp add: keeps_def)

lemma keeps_seqG [keeps_intros]: "(\<And>f. f \<in> set fs \<Longrightarrow> keeps I f) \<Longrightarrow> keeps I (seqG fs)"
proof (induction fs)
  case Nil
  show ?case by (simp add: keeps_def)
next
  case (Cons f fs)
  then have "keeps I (\<lambda>s. bindG (f s) (seqG fs))"
    by (intro keeps_bindG) auto
  then show ?case by (simp add: keeps_def)
qed

lemma keeps_forG [keeps_intros]: "(\<And>x. x \<in> set xs \<Longrightarrow> keeps I (f x)) \<Longrightarrow> keeps I (forG xs f)"
  unfolding forG_def by (rule keeps_seqG) auto

lemma keeps_whenG [keeps_intros]: "keeps I f \<Longrightarrow> keeps I (whenG b f)"
  by (cases b) (simp_all add: keeps_def)

lemma keeps_if [keeps_intros]:
  "keeps I f \<Longrightarrow> keeps I g \<Longrightarrow> keeps I (\<lambda>s. if b s then f s else g s)"
  by (simp add: keeps_def)

lemma keeps_at: "(\<And>v. keeps I (f v)) \<Longrightarrow> keeps I (\<lambda>s. f (g s) s)"
  by (simp add: keeps_def)

lemma keeps_case_option [keeps_intros]:
  "keeps I n \<Longrightarrow> (\<And>v. keeps I (f v)) \<Longrightarrow> keeps I (\<lambda>s. case g s of None \<Rightarrow> n s | Some v \<Rightarrow> f v s)"
  by (auto simp: keeps_def split: option.split)

lemma keeps_panic [keeps_intros]: "keeps I (Panic p)"
  by (simp add: keeps_def)

lemma keeps_conj:
  "keeps I f \<Longrightarrow> keeps J f \<Longrightarrow> keeps (\<lambda>s. I s \<and> J s) f"
  by (simp add: keeps_def)

subsection \<open>Lists and association lists\<close>

text \<open>Go maps that the code iterates over are association lists with distinct keys.\<close>

type_synonym ('k, 'v) gomap = "('k \<times> 'v) list"

lemma map_of_Some_set: "map_of m k = Some v \<Longrightarrow> (k, v) \<in> set m"
  by (rule map_of_SomeD)

lemma distinct_map_of_iff:
  "distinct (map fst m) \<Longrightarrow> map_of m k = Some v \<longleftrightarrow> (k, v) \<in> set m"
  by (simp add: map_of_eq_Some_iff)

lemma map_of_update [simp]: "map_of (AList.update k v m) = (map_of m)(k \<mapsto> v)"
  by (rule update_conv')

lemma map_of_delete [simp]: "map_of (AList.delete k m) = (map_of m)(k := None)"
  by (rule delete_conv')

lemma take_update_past [simp]: "n \<le> i \<Longrightarrow> take n (xs[i := x]) = take n xs"
  by simp

lemma take_Suc_update: "n < length xs \<Longrightarrow> take (Suc n) (xs[n := x]) = take n xs @ [x]"
  by (simp add: take_Suc_conv_app_nth)

lemma length_filter_eq: "length (filter P xs) = length xs \<longleftrightarrow> (\<forall>x \<in> set xs. P x)"
proof (induction xs)
  case (Cons x xs)
  moreover have "length (filter P xs) \<noteq> Suc (length xs)"
    using length_filter_le [of P xs] by linarith
  ultimately show ?case by simp
qed simp

lemma all_None_iff: "(\<forall>x \<in> A. x = None) \<longleftrightarrow> (\<forall>d. Some d \<notin> A)"
  by (metis not_None_eq)

end
