(* ===== verification/Go_Strings.thy ===== *)
theory Go_Strings
  imports Prelude
begin

section \<open>The string functions of the Go library that the broker uses\<close>

text \<open>
  A Go string is a sequence of bytes, here a \<open>string\<close> (a list of \<open>char\<close>). \<open>str_contains\<close>,
  \<open>str_split\<close>, \<open>has_suffix\<close> and \<open>trim_prefix\<close> are \<^verbatim>\<open>strings.Contains\<close>,
  \<^verbatim>\<open>strings.Split\<close> (for the one-character separator the broker passes),
  \<^verbatim>\<open>strings.HasSuffix\<close> and \<^verbatim>\<open>strings.TrimPrefix\<close>. \<open>itoa\<close> is what the verb \<^verbatim>\<open>%d\<close> prints for
  an unsigned number and \<open>atoi\<close> is \<^verbatim>\<open>strconv.Atoi\<close> on a 64-bit platform with its error
  dropped, the way \<^verbatim>\<open>key2mid\<close> calls it: 0 after a syntax error, the nearest int64 after a
  range error.
\<close>

fun has_prefix :: "string \<Rightarrow> string \<Rightarrow> bool" where
  "has_prefix s [] = True"
| "has_prefix [] (c # cs) = False"
| "has_prefix (d # ds) (c # cs) = (d = c \<and> has_prefix ds cs)"

fun str_contains :: "string \<Rightarrow> string \<Rightarrow> bool" where
  "str_contains [] sub = (sub = [])"
| "str_contains (c # cs) sub = (has_prefix (c # cs) sub \<or> str_contains cs sub)"

fun str_split :: "string \<Rightarrow> char \<Rightarrow> string list" where
  "str_split [] sep = [[]]"
| "str_split (c # cs) sep =
     (if c = sep then [] # str_split cs sep
      else case str_split cs sep of
             [] \<Rightarrow> [[c]]
           | p # ps \<Rightarrow> (c # p) # ps)"

definition has_suffix :: "string \<Rightarrow> string \<Rightarrow> bool" where
  "has_suffix s suf \<longleftrightarrow>
     length suf \<le> length s \<and> drop (length s - length suf) s = suf"

definition trim_prefix :: "string \<Rightarrow> string \<Rightarrow> string" where
  "trim_prefix s pre = (if has_prefix s pre then drop (length pre) s else s)"

definition digit_char :: "nat \<Rightarrow> char" where
  "digit_char d = (char_of (48 + d) :: char)"

definition digit_val :: "char \<Rightarrow> nat option" where
  "digit_val c = (let n = (of_char c :: nat) in if 48 \<le> n \<and> n \<le> 57 then Some (n - 48) else None)"

fun itoa :: "nat \<Rightarrow> string" where
  "itoa n = (if n < 10 then [digit_char n] else itoa (n div 10) @ [digit_char (n mod 10)])"

declare itoa.simps [simp del]

datatype parsed = Parsed nat | SyntaxErr | RangeErr

fun parse_uint :: "nat \<Rightarrow> string \<Rightarrow> parsed" where
  "parse_uint n [] = Parsed n"
| "parse_uint n (c # cs) =
     (case digit_val c of
        None \<Rightarrow> SyntaxErr
      | Some d \<Rightarrow>
          if 2 ^ 64 div 10 + 1 \<le> n then RangeErr
          else if 2 ^ 64 \<le> n * 10 + d then RangeErr
          else parse_uint (n * 10 + d) cs)"

definition atoi_digits :: "bool \<Rightarrow> string \<Rightarrow> int" where
  "atoi_digits neg s =
     (if s = [] then 0
      else case parse_uint 0 s of
             SyntaxErr \<Rightarrow> 0
           | RangeErr \<Rightarrow> (if neg then - (2 ^ 63) else 2 ^ 63 - 1)
           | Parsed n \<Rightarrow>
               if neg then (if 2 ^ 63 < n then - (2 ^ 63) else - int n)
               else (if 2 ^ 63 \<le> n then 2 ^ 63 - 1 else int n))"

fun atoi :: "string \<Rightarrow> int" where
  "atoi [] = 0"
| "atoi (c # cs) =
     (if c = CHR ''-'' then atoi_digits True cs
      else if c = CHR ''+'' then atoi_digits False cs
      else atoi_digits False (c # cs))"

subsection \<open>Containment, prefixes and suffixes\<close>

lemma has_prefix_iff: "has_prefix s p \<longleftrightarrow> (\<exists>t. s = p @ t)"
  by (induction s p rule: has_prefix.induct) auto

lemma str_contains_char [simp]: "str_contains s [c] \<longleftrightarrow> c \<in> set s"
  by (induction s) auto

lemma has_suffix_iff: "has_suffix s suf \<longleftrightarrow> (\<exists>t. s = t @ suf)"
proof
  assume "has_suffix s suf"
  then have "s = take (length s - length suf) s @ suf"
    by (metis append_take_drop_id has_suffix_def)
  then show "\<exists>t. s = t @ suf" by blast
qed (auto simp: has_suffix_def)

lemma trim_prefix_append [simp]: "trim_prefix (p @ s) p = s"
proof -
  have "has_prefix (p @ s) p" by (auto simp: has_prefix_iff)
  then show ?thesis by (simp add: trim_prefix_def)
qed

subsection \<open>Splitting\<close>

fun str_join :: "string list \<Rightarrow> char \<Rightarrow> string" where
  "str_join [] sep = []"
| "str_join [p] sep = p"
| "str_join (p # q # ps) sep = p @ sep # str_join (q # ps) sep"

lemma str_split_nonempty [simp]: "str_split s sep \<noteq> []"
  by (induction s) (auto split: list.splits)

lemma length_str_split_pos [simp]: "0 < length (str_split s sep)"
  by simp

lemma str_join_Cons: "ps \<noteq> [] \<Longrightarrow> str_join (p # ps) sep = p @ sep # str_join ps sep"
  by (cases ps) simp_all

lemma str_join_hd: "str_join ((c # p) # ps) sep = c # str_join (p # ps) sep"
  by (cases ps) simp_all

lemma str_join_split: "str_join (str_split s sep) sep = s"
proof (induction s)
  case (Cons c s)
  then show ?case
    by (cases "str_split s sep") (auto simp: str_join_Cons str_join_hd)
qed simp

lemma sep_notin_parts: "p \<in> set (str_split s sep) \<Longrightarrow> sep \<notin> set p"
  by (induction s arbitrary: p) (auto split: list.splits if_splits)

lemma str_split_part: "sep \<notin> set p \<Longrightarrow> str_split p sep = [p]"
  by (induction p) auto

lemma str_split_append:
  "sep \<notin> set p \<Longrightarrow> str_split (p @ sep # s) sep = p # str_split s sep"
  by (induction p) auto

lemma str_split_join:
  "ps \<noteq> [] \<Longrightarrow> (\<And>p. p \<in> set ps \<Longrightarrow> sep \<notin> set p) \<Longrightarrow> str_split (str_join ps sep) sep = ps"
  by (induction ps sep rule: str_join.induct) (auto simp: str_split_part str_split_append)

lemma str_split_inject: "str_split s sep = str_split t sep \<longleftrightarrow> s = t"
  by (metis str_join_split)

lemma set_str_split:
  "c \<noteq> sep \<Longrightarrow> c \<in> set s \<longleftrightarrow> (\<exists>p \<in> set (str_split s sep). c \<in> set p)"
proof (induction s)
  case (Cons d s)
  then show ?case
    by (cases "str_split s sep") auto
qed simp

subsection \<open>Decimal numbers\<close>

lemma digit_val_char [simp]: "d < 10 \<Longrightarrow> digit_val (digit_char d) = Some d"
  by (simp add: digit_val_def digit_char_def)

lemma itoa_nonempty [simp]: "itoa n \<noteq> []"
  by (subst itoa.simps) simp

lemma parse_uint_digit:
  assumes "d < 10" and "n * 10 + d < 10 ^ 19"
  shows "parse_uint n (digit_char d # cs) = parse_uint (n * 10 + d) cs"
  using assms by simp

lemma parse_uint_itoa:
  "n * 10 ^ length (itoa m) + m < 10 ^ 19 \<Longrightarrow>
   parse_uint n (itoa m @ cs) = parse_uint (n * 10 ^ length (itoa m) + m) cs"
proof (induction m arbitrary: n cs rule: itoa.induct)
  case (1 m)
  show ?case
  proof (cases "m < 10")
    case True
    with "1.prems" have "n * 10 + m < 10 ^ 19" by (simp add: itoa.simps [of m])
    with True show ?thesis by (simp add: itoa.simps [of m])
  next
    case False
    let ?k = "length (itoa (m div 10))" and ?q = "m div 10" and ?r = "m mod 10"
    have m: "m = ?q * 10 + ?r" by simp
    from False have len: "length (itoa m) = Suc ?k" and
      app: "itoa m @ cs = itoa ?q @ digit_char ?r # cs"
      by (simp_all add: itoa.simps [of m])
    have big: "(n * 10 ^ ?k + ?q) * 10 + ?r = n * 10 ^ length (itoa m) + m"
      using m by (simp add: len algebra_simps)
    with "1.prems" have lt: "(n * 10 ^ ?k + ?q) * 10 + ?r < 10 ^ 19" by (simp only:)
    then have "n * 10 ^ ?k + ?q < 10 ^ 19" by (rule le_less_trans [rotated]) simp
    with "1.IH" [OF False] have
      "parse_uint n (itoa m @ cs) = parse_uint (n * 10 ^ ?k + ?q) (digit_char ?r # cs)"
      unfolding app by blast
    also have "\<dots> = parse_uint ((n * 10 ^ ?k + ?q) * 10 + ?r) cs"
      by (rule parse_uint_digit [OF _ lt]) simp
    finally show ?thesis by (simp only: big)
  qed
qed

lemma hd_itoa_digit: "\<exists>d cs. itoa n = digit_char d # cs \<and> d < 10"
proof (induction n rule: itoa.induct)
  case (1 n)
  then show ?case
    by (cases "n < 10") (auto simp: itoa.simps [of n])
qed

lemma digit_char_not_sign: "d < 10 \<Longrightarrow> digit_char d \<noteq> CHR ''-'' \<and> digit_char d \<noteq> CHR ''+''"
  using digit_val_char [of d] by (auto simp: digit_val_def)

lemma atoi_itoa:
  assumes "n < 10 ^ 18"
  shows "atoi (itoa n) = int n"
proof -
  obtain d cs where d: "itoa n = digit_char d # cs" "d < 10" using hd_itoa_digit by blast
  have "parse_uint 0 (itoa n) = Parsed n"
    using parse_uint_itoa [of 0 n "[]"] assms by simp
  with d assms show ?thesis
    using digit_char_not_sign [of d] by (simp add: atoi_digits_def)
qed

lemma itoa_inject: "m < 10 ^ 18 \<Longrightarrow> n < 10 ^ 18 \<Longrightarrow> itoa m = itoa n \<longleftrightarrow> m = n"
  by (metis atoi_itoa of_nat_eq_iff)

end
