(* ===== verification/Go_Chan.thy ===== *)
theory Go_Chan
  imports Prelude
begin

section \<open>Go channels\<close>

text \<open>
  A buffered channel holds at most \<open>ccap\<close> values in arrival order and may be closed once.
  \<open>chan_send\<close> is the statement \<^verbatim>\<open>c <- x\<close>, \<open>chan_trysend\<close> a \<^verbatim>\<open>select\<close> with that send and an
  empty \<^verbatim>\<open>default\<close>, \<open>chan_recv\<close> a receive (\<open>None\<close> when it blocks, \<open>Some (None, c)\<close> when the
  channel is closed and drained), \<open>chan_close\<close> the builtin \<^verbatim>\<open>close\<close>. Sending on a closed
  channel and closing twice panic. A send to a channel without a buffer is taken to block: in
  the broker only the queue lengths of the configuration can make such a channel.

  The locale \<open>outbound_queue\<close> is the contract the two outbound queues of the broker share
  (\<^verbatim>\<open>incomingConn.submit\<close> and \<^verbatim>\<open>endpoint.submit\<close>): a dead owner ignores the message, the
  strategy \<^verbatim>\<open>discard\<close> drops what does not fit, every other strategy waits for room.
\<close>

record 'a chan =
  buf :: "'a list"
  ccap :: nat
  closed :: bool

definition make_chan :: "nat \<Rightarrow> 'a chan" where
  "make_chan n = \<lparr>buf = [], ccap = n, closed = False\<rparr>"

definition chan_send :: "'a \<Rightarrow> 'a chan \<Rightarrow> 'a chan res" where
  "chan_send x c =
     (if closed c then Panic SendOnClosed c
      else if length (buf c) < ccap c then Ret (c\<lparr>buf := buf c @ [x]\<rparr>)
      else Block c)"

definition chan_trysend :: "'a \<Rightarrow> 'a chan \<Rightarrow> 'a chan res" where
  "chan_trysend x c =
     (if closed c then Panic SendOnClosed c
      else if length (buf c) < ccap c then Ret (c\<lparr>buf := buf c @ [x]\<rparr>)
      else Ret c)"

definition chan_recv :: "'a chan \<Rightarrow> ('a option \<times> 'a chan) option" where
  "chan_recv c =
     (case buf c of
        x # xs \<Rightarrow> Some (Some x, c\<lparr>buf := xs\<rparr>)
      | [] \<Rightarrow> if closed c then Some (None, c) else None)"

definition chan_close :: "'a chan \<Rightarrow> 'a chan res" where
  "chan_close c = (if closed c then Panic CloseOfClosed c else Ret (c\<lparr>closed := True\<rparr>))"

definition chan_wf :: "'a chan \<Rightarrow> bool" where
  "chan_wf c \<longleftrightarrow> length (buf c) \<le> ccap c"

lemmas chan_defs [go_defs] = make_chan_def chan_send_def chan_trysend_def chan_close_def

lemma chan_wf_make [simp]: "chan_wf (make_chan n)"
  by (simp add: chan_wf_def make_chan_def)

lemma keeps_chan_wf [keeps_intros]:
  "keeps chan_wf (chan_send x)" "keeps chan_wf (chan_trysend x)" "keeps chan_wf chan_close"
  by (auto simp: keeps_def chan_wf_def chan_defs)

lemma chan_send_Ret:
  "chan_send x c = Ret c' \<longleftrightarrow>
     \<not> closed c \<and> length (buf c) < ccap c \<and> c' = c\<lparr>buf := buf c @ [x]\<rparr>"
  by (auto simp: chan_send_def)

lemma chan_send_recv:
  assumes "chan_send x c = Ret c'" and "buf c = []"
  shows "chan_recv c' = Some (Some x, c)"
  using assms by (auto simp: chan_send_Ret chan_recv_def)

lemma chan_closed_drains:
  "closed c \<Longrightarrow> buf c = [] \<Longrightarrow> chan_recv c = Some (None, c)"
  by (simp add: chan_recv_def)

text \<open>
  The contract of an outbound queue. \<open>submit\<close> is the operation, \<open>alive\<close>, \<open>blocking\<close> and
  \<open>shut\<close> read the owner's flags, \<open>pending\<close> the queued messages and \<open>room\<close> the capacity.
\<close>

locale outbound_queue =
  fixes submit :: "'m \<Rightarrow> 's \<Rightarrow> 's res"
    and alive :: "'s \<Rightarrow> bool"
    and blocking :: "'s \<Rightarrow> bool"
    and shut :: "'s \<Rightarrow> bool"
    and pending :: "'s \<Rightarrow> 'm list"
    and room :: "'s \<Rightarrow> nat"
  assumes submit_dead: "\<not> alive s \<Longrightarrow> submit m s = Ret s"
    and submit_shut: "alive s \<Longrightarrow> shut s \<Longrightarrow> panics (submit m s)"
    and submit_fits: "alive s \<Longrightarrow> \<not> shut s \<Longrightarrow> length (pending s) < room s \<Longrightarrow>
          \<exists>t. submit m s = Ret t \<and> pending t = pending s @ [m] \<and> room t = room s
            \<and> alive t = alive s \<and> blocking t = blocking s \<and> shut t = shut s"
    and submit_full_discard: "alive s \<Longrightarrow> \<not> shut s \<Longrightarrow> room s \<le> length (pending s) \<Longrightarrow>
          \<not> blocking s \<Longrightarrow> submit m s = Ret s"
    and submit_full_block: "alive s \<Longrightarrow> \<not> shut s \<Longrightarrow> room s \<le> length (pending s) \<Longrightarrow>
          blocking s \<Longrightarrow> submit m s = Block s"
begin

text \<open>Sending a batch under \<^verbatim>\<open>discard\<close>: nothing blocks, and exactly the messages that fit are
  queued, in order (the tail is dropped).\<close>

lemma discard_batch:
  assumes "alive s" "\<not> shut s" "\<not> blocking s" "length (pending s) \<le> room s"
  shows "\<exists>t. forG ms submit s = Ret t
           \<and> pending t = pending s @ take (room s - length (pending s)) ms"
  using assms
proof (induction ms arbitrary: s)
  case Nil
  then show ?case by simp
next
  case (Cons m ms)
  show ?case
  proof (cases "length (pending s) < room s")
    case True
    from submit_fits [OF Cons.prems(1,2) True] obtain u where
      u: "submit m s = Ret u" "pending u = pending s @ [m]" "room u = room s"
        "alive u = alive s" "blocking u = blocking s" "shut u = shut s"
      by blast
    from Cons.IH [of u] Cons.prems True u obtain t where
      "forG ms submit u = Ret t"
      "pending t = pending u @ take (room u - length (pending u)) ms"
      by auto
    moreover have "take (room s - length (pending s)) (m # ms)
        = m # take (room s - Suc (length (pending s))) ms"
      using True by (simp add: take_Cons' Suc_diff_Suc)
    ultimately show ?thesis using u by simp
  next
    case False
    then have "submit m s = Ret s"
      using Cons.prems by (intro submit_full_discard) auto
    with Cons.IH [of s] Cons.prems False show ?thesis by auto
  qed
qed

text \<open>Under a blocking strategy a batch that fits is queued whole; one that does not fit stops
  at the first message without room, with everything before it queued.\<close>

lemma block_batch:
  assumes "alive s" "\<not> shut s" "blocking s" "length (pending s) \<le> room s"
  shows "if length ms \<le> room s - length (pending s)
         then \<exists>t. forG ms submit s = Ret t \<and> pending t = pending s @ ms
         else \<exists>t. forG ms submit s = Block t
                \<and> pending t = pending s @ take (room s - length (pending s)) ms"
  using assms
proof (induction ms arbitrary: s)
  case Nil
  then show ?case by simp
next
  case (Cons m ms)
  show ?case
  proof (cases "length (pending s) < room s")
    case True
    from submit_fits [OF Cons.prems(1,2) True] obtain u where
      u: "submit m s = Ret u" "pending u = pending s @ [m]" "room u = room s"
        "alive u = alive s" "blocking u = blocking s" "shut u = shut s"
      by blast
    have "take (room s - length (pending s)) (m # ms)
        = m # take (room s - Suc (length (pending s))) ms"
      using True by (simp add: take_Cons' Suc_diff_Suc)
    with Cons.IH [of u] Cons.prems True u show ?thesis
      by (auto split: if_splits)
  next
    case False
    with submit_full_block [of s m] Cons.prems show ?thesis by simp
  qed
qed

lemma dead_batch: "\<not> alive s \<Longrightarrow> forG ms submit s = Ret s"
  by (induction ms) (simp_all add: submit_dead)

end

end
