(* ===== verification/Messages.thy ===== *)
theory Messages
  imports Go_Strings Go_Chan "HOL-Library.Multiset"
begin

section \<open>Messages, jobs and posts\<close>

text \<open>
  The MQTT messages are structs of the package \<^verbatim>\<open>mqttmsg\<close>, which is not part of the
  repository; here are the types and the fields the broker reads and writes, with the names it
  uses. \<^verbatim>\<open>proto.Message\<close> is the datatype \<open>message\<close>: one constructor per message type the code
  distinguishes, \<open>OtherMsg\<close> for the rest. A \<open>Publish\<close> is shared and mutated through pointers
  (a subscription worker clears its retain flag while queues and stores hold it), so it is
  kept in a heap: a message inside the broker is \<open>nat message\<close>, its \<open>Publish\<close> an address, and
  a message on the wire is \<open>publish message\<close>.

  \<open>env\<close> collects what the broker relies on outside the repository and outside the language
  definition: the size of a payload and of a message (\<^verbatim>\<open>mqttmsg\<close>), the capacity
  \<^verbatim>\<open>append\<close> chooses for a new array and the order in which \<^verbatim>\<open>range\<close> visits a map (the Go
  runtime). \<open>job\<close>, \<open>post\<close> and \<open>retain\<close> are the structs of \<^verbatim>\<open>broker/types.go\<close>.
\<close>

type_synonym ptr = nat
type_synonym payload = "8 word list"

datatype qos = QosAtMostOnce | QosAtLeastOnce | QosExactlyOnce

datatype ReturnCode =
    RetCodeAccepted
  | RetCodeUnacceptableProtocolVersion
  | RetCodeIdentifierRejected
  | RetCodeServerUnavailable
  | RetCodeBadUsernameOrPassword
  | RetCodeNotAuthorized

record header =
  DupFlag :: bool
  QosLevel :: qos
  Retain :: bool

definition zero_header :: header where
  "zero_header = \<lparr>DupFlag = False, QosLevel = QosAtMostOnce, Retain = False\<rparr>"

record publish =
  Header :: header
  TopicName :: string
  MessageId :: "16 word"
  Payload :: payload

record connect =
  ProtocolName :: string
  ProtocolVersion :: "8 word"
  ClientId :: string
  CleanSession :: bool
  KeepAliveTimer :: "16 word"
  WillFlag :: bool
  UsernameFlag :: bool
  PasswordFlag :: bool
  Username :: string
  Password :: string

record topicqos =
  Topic :: string
  Qos :: qos

datatype 'p message =
    Connect connect
  | ConnAck ReturnCode
  | Publish 'p
  | PubAck header "16 word"
  | Subscribe header "16 word" "topicqos list"
  | SubAck "16 word" "qos list"
  | Unsubscribe "16 word" "string list"
  | UnsubAck "16 word"
  | PingReq
  | PingResp
  | Disconnect
  | OtherMsg nat

record env =
  PayloadSize :: "payload \<Rightarrow> int"
  MsgBytes :: "publish message \<Rightarrow> int"
  growcap :: "nat \<Rightarrow> nat \<Rightarrow> nat"
  map_order :: "string list \<Rightarrow> string list"

text \<open>The keys in the order \<^verbatim>\<open>range\<close> visits them. The language promises every key once and
  no order: any choice \<open>map_order\<close> that is a permutation of the keys is taken as it is.\<close>

definition range_keys :: "env \<Rightarrow> string list \<Rightarrow> string list" where
  "range_keys e ks = (if mset (map_order e ks) = mset ks then map_order e ks else ks)"

lemma mset_range_keys [simp]: "mset (range_keys e ks) = mset ks"
  by (simp add: range_keys_def)

lemma set_range_keys [simp]: "set (range_keys e ks) = set ks"
  by (metis mset_range_keys set_mset_mset)

lemma distinct_range_keys [simp]: "distinct (range_keys e ks) = distinct ks"
  by (metis mset_range_keys mset_eq_imp_distinct_iff)

text \<open>A runtime for examples: capacities double, maps are visited in insertion order, payloads
  are measured by their length.\<close>

definition doubling_env :: env where
  "doubling_env = \<lparr>PayloadSize = (\<lambda>p. int (length p)), MsgBytes = (\<lambda>_. 2),
     growcap = (\<lambda>c n. max (2 * c) n), map_order = (\<lambda>ks. ks)\<rparr>"

subsection \<open>The heap of published messages\<close>

record pubheap =
  pobj :: "ptr \<Rightarrow> publish"
  pnext :: nat

definition empty_pubheap :: pubheap where
  "empty_pubheap = \<lparr>pobj = (\<lambda>_. \<lparr>Header = zero_header, TopicName = [], MessageId = 0, Payload = []\<rparr>),
     pnext = 0\<rparr>"

definition alloc_pub :: "publish \<Rightarrow> pubheap \<Rightarrow> ptr \<times> pubheap" where
  "alloc_pub m h = (pnext h, h\<lparr>pobj := (pobj h)(pnext h := m), pnext := Suc (pnext h)\<rparr>)"

definition set_retain :: "bool \<Rightarrow> publish \<Rightarrow> publish" where
  "set_retain b m = m\<lparr>Header := (Header m)\<lparr>Retain := b\<rparr>\<rparr>"

definition clear_retain :: "ptr \<Rightarrow> pubheap \<Rightarrow> pubheap" where
  "clear_retain p h = h\<lparr>pobj := (pobj h)(p := set_retain False (pobj h p))\<rparr>"

text \<open>What \<^verbatim>\<open>Encode\<close> puts on the wire: the message as it is at that moment.\<close>

definition snapshot :: "pubheap \<Rightarrow> ptr message \<Rightarrow> publish message" where
  "snapshot h m = map_message (pobj h) m"

text \<open>Decoding a message allocates it.\<close>

definition receive :: "publish message \<Rightarrow> pubheap \<Rightarrow> ptr message \<times> pubheap" where
  "receive m h =
     (case m of
        Publish pub \<Rightarrow> (case alloc_pub pub h of (p, h') \<Rightarrow> (Publish p, h'))
      | _ \<Rightarrow> (map_message (\<lambda>_. 0) m, h))"

record post =
  pm :: ptr

type_synonym receipt = nat

record job =
  jm :: "ptr message"
  jr :: "receipt option"

lemma snapshot_receive: "receive m h = (m', h') \<Longrightarrow> snapshot h' m' = m"
  by (cases m) (auto simp: alloc_pub_def receive_def snapshot_def)

lemma set_retain_simps [simp]:
  "Retain (Header (set_retain b m)) = b"
  "QosLevel (Header (set_retain b m)) = QosLevel (Header m)"
  "TopicName (set_retain b m) = TopicName m"
  "MessageId (set_retain b m) = MessageId m"
  "Payload (set_retain b m) = Payload m"
  "set_retain b (set_retain b' m) = set_retain b m"
  by (simp_all add: set_retain_def)

lemma set_retain_same: "Retain (Header m) = b \<Longrightarrow> set_retain b m = m"
  by (auto simp: set_retain_def)

end
