(* ===== verification/Store.thy ===== *)
theory Store
  imports Messages
begin

section \<open>Flying-message stores: \<^verbatim>\<open>broker/store.go\<close>, \<^verbatim>\<open>broker/memstore.go\<close>\<close>

text \<open>
  \<^verbatim>\<open>Store\<close> is a Go interface; here it is the record of its methods over a store state, so
  that \<open>persist_outbound\<close> and \<open>persist_inbound\<close> call through it as the source does. A nil
  interface value is \<open>None\<close>, and calling a method on it panics. \<open>MemoryStore\<close> is the one
  implementation the broker uses; \<open>memory_store\<close> is its method table. The locale \<open>store\<close>
  states what the callers of the interface rely on, and is interpreted on \<open>memory_store\<close>.

  \<open>client_stores\<close> is the package state \<^verbatim>\<open>clientStores\<close> with the store objects it points to:
  \<open>getClientStore\<close> hands the same object to every session of a client id.
\<close>

subsection \<open>Keys\<close>

definition IBOUND_PREFIX :: string where
  "IBOUND_PREFIX = ''i.''"

definition OBOUND_PREFIX :: string where
  "OBOUND_PREFIX = ''o.''"

text \<open>\<^verbatim>\<open>key[2:]\<close> panics on a key of fewer than two bytes: \<open>None\<close>.\<close>

definition key2mid :: "string \<Rightarrow> 16 word option" where
  "key2mid key = (if length key < 2 then None else Some (word_of_int (atoi (drop 2 key))))"

definition ibound_mid2key :: "16 word \<Rightarrow> string" where
  "ibound_mid2key mid = IBOUND_PREFIX @ itoa (unat mid)"

definition obound_mid2key :: "16 word \<Rightarrow> string" where
  "obound_mid2key mid = OBOUND_PREFIX @ itoa (unat mid)"

subsection \<open>The interface and the functions that use it\<close>

record 's Store =
  sOpen :: "'s \<Rightarrow> 's"
  sPut :: "string \<Rightarrow> ptr message \<Rightarrow> 's \<Rightarrow> 's"
  sGet :: "string \<Rightarrow> 's \<Rightarrow> ptr message option"
  sAll :: "'s \<Rightarrow> string list"
  sDel :: "string \<Rightarrow> 's \<Rightarrow> 's"
  sClose :: "'s \<Rightarrow> 's"
  sReset :: "'s \<Rightarrow> 's"

fun call_store :: "('s \<Rightarrow> 's) \<Rightarrow> 's option \<Rightarrow> 's option res" where
  "call_store f None = Panic NilDeref None"
| "call_store f (Some s) = Ret (Some (f s))"

fun persist_outbound ::
  "'s Store \<Rightarrow> (ptr \<Rightarrow> publish) \<Rightarrow> ptr message \<Rightarrow> 's option \<Rightarrow> 's option res" where
  "persist_outbound S heap (Publish p) s =
     (if QosLevel (Header (heap p)) = QosAtLeastOnce
      then call_store (sPut S (obound_mid2key (MessageId (heap p))) (Publish p)) s
      else Ret s)"
| "persist_outbound S heap (PubAck h mid) s = call_store (sDel S (ibound_mid2key mid)) s"
| "persist_outbound S heap _ s = Ret s"

fun persist_inbound ::
  "'s Store \<Rightarrow> (ptr \<Rightarrow> publish) \<Rightarrow> ptr message \<Rightarrow> 's option \<Rightarrow> 's option res" where
  "persist_inbound S heap (Publish p) s =
     (if QosLevel (Header (heap p)) = QosAtLeastOnce
      then call_store (sPut S (ibound_mid2key (MessageId (heap p))) (Publish p)) s
      else Ret s)"
| "persist_inbound S heap (PubAck h mid) s = call_store (sDel S (obound_mid2key mid)) s"
| "persist_inbound S heap _ s = Ret s"

subsection \<open>MemoryStore\<close>

record MemoryStore =
  messages :: "(string, ptr message) gomap"
  opened :: bool

definition NewMemoryStore :: MemoryStore where
  "NewMemoryStore = \<lparr>messages = [], opened = False\<rparr>"

definition MemOpen :: "MemoryStore \<Rightarrow> MemoryStore" where
  "MemOpen s = s\<lparr>opened := True\<rparr>"

definition MemPut :: "string \<Rightarrow> ptr message \<Rightarrow> MemoryStore \<Rightarrow> MemoryStore" where
  "MemPut key m s = s\<lparr>messages := AList.update key m (messages s)\<rparr>"

definition MemGet :: "string \<Rightarrow> MemoryStore \<Rightarrow> ptr message option" where
  "MemGet key s = map_of (messages s) key"

definition MemAll :: "env \<Rightarrow> MemoryStore \<Rightarrow> string list" where
  "MemAll e s = fold (\<lambda>k keys. keys @ [k]) (range_keys e (map fst (messages s))) []"

definition MemDel :: "string \<Rightarrow> MemoryStore \<Rightarrow> MemoryStore" where
  "MemDel key s = s\<lparr>messages := AList.delete key (messages s)\<rparr>"

definition MemClose :: "MemoryStore \<Rightarrow> MemoryStore" where
  "MemClose s = s\<lparr>opened := False\<rparr>"

definition MemReset :: "MemoryStore \<Rightarrow> MemoryStore" where
  "MemReset s = s\<lparr>messages := []\<rparr>"

definition memory_store :: "env \<Rightarrow> MemoryStore Store" where
  "memory_store e =
     \<lparr>sOpen = MemOpen, sPut = MemPut, sGet = MemGet, sAll = MemAll e,
      sDel = MemDel, sClose = MemClose, sReset = MemReset\<rparr>"

definition mem_wf :: "MemoryStore \<Rightarrow> bool" where
  "mem_wf s \<longleftrightarrow> distinct (map fst (messages s))"

subsection \<open>The stores of the clients\<close>

record client_stores =
  clientStores :: "string \<rightharpoonup> nat"
  sobj :: "nat \<Rightarrow> MemoryStore"
  snext :: nat

definition no_stores :: client_stores where
  "no_stores = \<lparr>clientStores = (\<lambda>_. None), sobj = (\<lambda>_. NewMemoryStore), snext = 0\<rparr>"

definition getClientStore :: "string \<Rightarrow> client_stores \<Rightarrow> nat \<times> client_stores" where
  "getClientStore clientId cs =
     (case clientStores cs clientId of
        Some store \<Rightarrow> (store, cs)
      | None \<Rightarrow>
          (snext cs,
           cs\<lparr>clientStores := (clientStores cs)(clientId \<mapsto> snext cs),
              sobj := (sobj cs)(snext cs := NewMemoryStore),
              snext := Suc (snext cs)\<rparr>))"

definition delClientStore :: "string \<Rightarrow> client_stores \<Rightarrow> client_stores" where
  "delClientStore clientId cs = cs\<lparr>clientStores := (clientStores cs)(clientId := None)\<rparr>"

text \<open>No two client ids share a store, and every store in use is well formed.\<close>

definition stores_wf :: "client_stores \<Rightarrow> bool" where
  "stores_wf cs \<longleftrightarrow>
     (\<forall>i a. clientStores cs i = Some a \<longrightarrow> a < snext cs) \<and>
     (\<forall>i j a. clientStores cs i = Some a \<longrightarrow> clientStores cs j = Some a \<longrightarrow> i = j) \<and>
     (\<forall>a. mem_wf (sobj cs a))"

subsection \<open>Keys: round trip, no collisions\<close>

lemma unat_mid_bound: "unat (mid :: 16 word) < 10 ^ 18"
proof -
  have "unat mid < 2 ^ LENGTH(16)" by (rule unsigned_less)
  then show ?thesis by simp
qed

lemma key2mid_prefixed:
  assumes "length pre = 2"
  shows "key2mid (pre @ itoa (unat mid)) = Some mid"
proof -
  have "word_of_int (atoi (itoa (unat mid))) = (of_nat (unat mid) :: 16 word)"
    by (subst atoi_itoa [OF unat_mid_bound]) simp
  with assms show ?thesis by (simp add: key2mid_def)
qed

lemma mid2key_inject:
  "ibound_mid2key m = ibound_mid2key n \<longleftrightarrow> m = n"
  "obound_mid2key m = obound_mid2key n \<longleftrightarrow> m = n"
  by (simp_all add: ibound_mid2key_def obound_mid2key_def unsigned_word_eqI
      itoa_inject [OF unat_mid_bound unat_mid_bound] word_unat_eq_iff)

lemma mid2key_disjoint [simp]:
  "ibound_mid2key m \<noteq> obound_mid2key n" "obound_mid2key n \<noteq> ibound_mid2key m"
  by (simp_all add: ibound_mid2key_def obound_mid2key_def IBOUND_PREFIX_def OBOUND_PREFIX_def)

lemma mid2key_nonempty [simp]: "ibound_mid2key mid \<noteq> []" "obound_mid2key mid \<noteq> []"
  by (simp_all add: ibound_mid2key_def obound_mid2key_def IBOUND_PREFIX_def OBOUND_PREFIX_def)

subsection \<open>What the users of the interface rely on\<close>

locale store =
  fixes S :: "'s Store"
    and invar :: "'s \<Rightarrow> bool"
  assumes get_put: "invar s \<Longrightarrow> sGet S k (sPut S k' m s) = (if k = k' then Some m else sGet S k s)"
    and get_del: "invar s \<Longrightarrow> sGet S k (sDel S k' s) = (if k = k' then None else sGet S k s)"
    and get_reset: "invar s \<Longrightarrow> sGet S k (sReset S s) = None"
    and get_open: "invar s \<Longrightarrow> sGet S k (sOpen S s) = sGet S k s"
    and get_close: "invar s \<Longrightarrow> sGet S k (sClose S s) = sGet S k s"
    and all_keys: "invar s \<Longrightarrow> distinct (sAll S s) \<and> set (sAll S s) = {k. sGet S k s \<noteq> None}"
    and invar_put: "invar s \<Longrightarrow> invar (sPut S k m s)"
    and invar_del: "invar s \<Longrightarrow> invar (sDel S k s)"
    and invar_reset: "invar s \<Longrightarrow> invar (sReset S s)"
    and invar_close: "invar s \<Longrightarrow> invar (sClose S s)"
begin

text \<open>A store that is present never panics, and the two directions do not touch each other.\<close>

lemma persist_total:
  "\<exists>t. persist_outbound S heap m (Some s) = Ret (Some t)"
  "\<exists>t. persist_inbound S heap m (Some s) = Ret (Some t)"
  by (cases m; auto)+

lemma persist_invar:
  "invar s \<Longrightarrow> persist_outbound S heap m (Some s) = Ret (Some t) \<Longrightarrow> invar t"
  "invar s \<Longrightarrow> persist_inbound S heap m (Some s) = Ret (Some t) \<Longrightarrow> invar t"
  by (cases m; auto simp: invar_put invar_del split: if_splits)+

lemma inbound_publish_get:
  assumes "invar s" "QosLevel (Header (heap p)) = QosAtLeastOnce"
    and "persist_inbound S heap (Publish p) (Some s) = Ret (Some t)"
  shows "sGet S k t = (if k = ibound_mid2key (MessageId (heap p)) then Some (Publish p) else sGet S k s)"
  using assms by (auto simp: get_put)

lemma outbound_publish_get:
  assumes "invar s" "QosLevel (Header (heap p)) = QosAtLeastOnce"
    and "persist_outbound S heap (Publish p) (Some s) = Ret (Some t)"
  shows "sGet S k t = (if k = obound_mid2key (MessageId (heap p)) then Some (Publish p) else sGet S k s)"
  using assms by (auto simp: get_put)

text \<open>The inbound cycle: a QoS 1 message is held from its arrival until its PUBACK is sent,
  then it is gone and nothing else has changed.\<close>

lemma inbound_cycle:
  assumes inv: "invar s" and q: "QosLevel (Header (heap p)) = QosAtLeastOnce"
    and in1: "persist_inbound S heap (Publish p) (Some s) = Ret (Some t)"
    and out: "persist_outbound S heap' (PubAck h (MessageId (heap p))) (Some t) = Ret (Some u)"
  shows "sGet S (ibound_mid2key (MessageId (heap p))) t = Some (Publish p)"
    and "sGet S k u = (if k = ibound_mid2key (MessageId (heap p)) then None else sGet S k s)"
proof -
  from persist_invar(2) [OF inv in1] have "invar t" .
  with out have "sGet S k u = (if k = ibound_mid2key (MessageId (heap p)) then None else sGet S k t)" for k
    by (auto simp: get_del)
  with inbound_publish_get [OF inv q in1]
  show "sGet S (ibound_mid2key (MessageId (heap p))) t = Some (Publish p)"
    and "sGet S k u = (if k = ibound_mid2key (MessageId (heap p)) then None else sGet S k s)"
    by auto
qed

text \<open>The outbound cycle the functions are made for: stored when sent, gone once the PUBACK
  has been passed to \<open>persist_inbound\<close>.\<close>

lemma outbound_cycle:
  assumes inv: "invar s" and q: "QosLevel (Header (heap p)) = QosAtLeastOnce"
    and out: "persist_outbound S heap (Publish p) (Some s) = Ret (Some t)"
    and in1: "persist_inbound S heap' (PubAck h (MessageId (heap p))) (Some t) = Ret (Some u)"
  shows "sGet S (obound_mid2key (MessageId (heap p))) t = Some (Publish p)"
    and "sGet S k u = (if k = obound_mid2key (MessageId (heap p)) then None else sGet S k s)"
proof -
  from persist_invar(1) [OF inv out] have "invar t" .
  with in1 have "sGet S k u = (if k = obound_mid2key (MessageId (heap p)) then None else sGet S k t)" for k
    by (auto simp: get_del)
  with outbound_publish_get [OF inv q out]
  show "sGet S (obound_mid2key (MessageId (heap p))) t = Some (Publish p)"
    and "sGet S k u = (if k = obound_mid2key (MessageId (heap p)) then None else sGet S k s)"
    by auto
qed

end

lemma fold_snoc: "fold (\<lambda>k keys. keys @ [k]) xs ys = ys @ xs"
  by (induction xs arbitrary: ys) simp_all

lemma MemAll_eq: "MemAll e s = range_keys e (map fst (messages s))"
  by (simp add: MemAll_def fold_snoc)

interpretation ms: store "memory_store e" mem_wf for e
  by unfold_locales
    (auto simp: memory_store_def mem_wf_def MemPut_def MemGet_def MemDel_def MemReset_def
      MemOpen_def MemClose_def MemAll_eq map_of_eq_None_iff distinct_update distinct_delete)

subsection \<open>Client stores\<close>

lemma stores_wf_empty [simp]: "stores_wf no_stores"
  by (simp add: stores_wf_def no_stores_def mem_wf_def NewMemoryStore_def)

lemma getClientStore_wf:
  assumes wf: "stores_wf cs" and g: "getClientStore i cs = (a, cs')"
  shows "stores_wf cs'"
proof (cases "clientStores cs i")
  case None
  from wf have old: "clientStores cs j = Some b \<Longrightarrow> b < snext cs" for j b
    by (simp add: stores_wf_def)
  from None g have "cs' = cs\<lparr>clientStores := (clientStores cs)(i \<mapsto> snext cs),
      sobj := (sobj cs)(snext cs := NewMemoryStore), snext := Suc (snext cs)\<rparr>"
    by (auto simp: getClientStore_def)
  with wf show ?thesis
    by (auto simp: stores_wf_def mem_wf_def NewMemoryStore_def dest: old intro: less_SucI)
next
  case (Some b)
  with wf g show ?thesis by (simp add: getClientStore_def)
qed

lemma getClientStore_Some: "getClientStore i cs = (a, cs') \<Longrightarrow> clientStores cs' i = Some a"
  by (auto simp: getClientStore_def split: option.splits)


text \<open>Opening the stores of a list of clients, one after the other.\<close>

definition open_stores :: "string list \<Rightarrow> client_stores \<Rightarrow> client_stores" where
  "open_stores is cs = fold (\<lambda>i cs. snd (getClientStore i cs)) is cs"

lemma open_stores_Cons [simp]: "open_stores (i # is) cs = open_stores is (snd (getClientStore i cs))"
  by (simp add: open_stores_def)

lemma open_stores_append: "open_stores (is @ js) cs = open_stores js (open_stores is cs)"
  by (simp add: open_stores_def)

lemma open_stores_wf: "stores_wf cs \<Longrightarrow> stores_wf (open_stores is cs)"
proof (induction "is" arbitrary: cs)
  case (Cons i "is")
  then show ?case by (simp add: getClientStore_wf [OF _ surjective_pairing])
qed (simp add: open_stores_def)

lemma getClientStore_keeps:
  "clientStores cs i = Some a \<Longrightarrow> clientStores (snd (getClientStore j cs)) i = Some a"
  by (auto simp: getClientStore_def split: option.split)

lemma open_stores_keeps:
  "clientStores cs i = Some a \<Longrightarrow> clientStores (open_stores js cs) i = Some a"
  by (induction js arbitrary: cs) (simp_all add: open_stores_def getClientStore_keeps)

lemma open_stores_has: "i \<in> set is \<Longrightarrow> \<exists>a. clientStores (open_stores is cs) i = Some a"
proof (induction "is" arbitrary: cs)
  case (Cons j "is")
  show ?case
  proof (cases "i = j")
    case True
    then show ?thesis
      using open_stores_keeps [OF getClientStore_Some [OF surjective_pairing]] by fastforce
  qed (use Cons in simp)
qed simp

lemma getClientStore_present: "clientStores cs i = Some a \<Longrightarrow> getClientStore i cs = (a, cs)"
  by (simp add: getClientStore_def)

subsection \<open>Properties\<close>

text \<open>C36: the keys under which messages are stored determine direction and message id:
  \<^verbatim>\<open>key2mid\<close> reads back the id of every key of either direction, for all 65536 ids, two keys of
  one direction are equal only for equal ids, and no inbound key is an outbound key.\<close>

theorem store_keys_round_trip:
  "key2mid (ibound_mid2key m) = Some m \<and> key2mid (obound_mid2key m) = Some m
   \<and> (ibound_mid2key m = ibound_mid2key n \<longleftrightarrow> m = n) \<and> (obound_mid2key m = obound_mid2key n \<longleftrightarrow> m = n)
   \<and> ibound_mid2key m \<noteq> obound_mid2key n"
  using key2mid_prefixed [of IBOUND_PREFIX m] key2mid_prefixed [of OBOUND_PREFIX m]
  by (simp add: mid2key_inject ibound_mid2key_def [symmetric] obound_mid2key_def [symmetric])
    (simp add: IBOUND_PREFIX_def OBOUND_PREFIX_def)

text \<open>C33: a QoS 1 message from a client is in the store from its arrival until the PUBACK for it
  is written: after \<^verbatim>\<open>persist_inbound\<close> of the PUBLISH its key holds the message, and after
  \<^verbatim>\<open>persist_outbound\<close> of the PUBACK with its id the key is free again and every other key,
  inbound or outbound, is as it was before.\<close>

theorem inbound_qos1_held_until_puback:
  assumes "mem_wf s" and "QosLevel (Header (heap p)) = QosAtLeastOnce"
  shows "\<exists>t u. persist_inbound (memory_store e) heap (Publish p) (Some s) = Ret (Some t)
    \<and> MemGet (ibound_mid2key (MessageId (heap p))) t = Some (Publish p)
    \<and> persist_outbound (memory_store e) heap' (PubAck h (MessageId (heap p))) (Some t) = Ret (Some u)
    \<and> MemGet k u = (if k = ibound_mid2key (MessageId (heap p)) then None else MemGet k s)"
proof -
  obtain t where t: "persist_inbound (memory_store e) heap (Publish p) (Some s) = Ret (Some t)"
    using ms.persist_total(2) by blast
  obtain u where u: "persist_outbound (memory_store e) heap' (PubAck h (MessageId (heap p))) (Some t)
      = Ret (Some u)"
    using ms.persist_total(1) by blast
  from ms.inbound_cycle(1) [OF assms t u] ms.inbound_cycle(2) [OF assms t u, where k = k] t u show ?thesis
    by (simp add: memory_store_def)
qed

definition qos1_message :: "16 word \<Rightarrow> publish" where
  "qos1_message mid = \<lparr>Header = zero_header\<lparr>QosLevel := QosAtLeastOnce\<rparr>, TopicName = ''a'',
     MessageId = mid, Payload = [1]\<rparr>"

theorem inbound_qos1_held_until_puback_witness:
  "\<exists>t u. persist_inbound (memory_store doubling_env) (\<lambda>_. qos1_message 7) (Publish 0) (Some NewMemoryStore) = Ret (Some t)
    \<and> MemGet (ibound_mid2key (MessageId (qos1_message 7))) t = Some (Publish 0)
    \<and> persist_outbound (memory_store doubling_env) (\<lambda>_. qos1_message 7) (PubAck zero_header (MessageId (qos1_message 7)))
        (Some t) = Ret (Some u)
    \<and> MemGet ''i.7'' u = (if ''i.7'' = ibound_mid2key (MessageId (qos1_message 7)) then None
        else MemGet ''i.7'' NewMemoryStore)"
  using inbound_qos1_held_until_puback [of NewMemoryStore "\<lambda>_. qos1_message 7" 0]
  by (simp add: mem_wf_def NewMemoryStore_def qos1_message_def)

text \<open>C34: the functions for the other direction do the same: an outgoing QoS 1 message is held
  under its outbound key until \<^verbatim>\<open>persist_inbound\<close> sees a PUBACK with its id, which frees exactly
  that key.\<close>

theorem outbound_qos1_held_until_puback:
  assumes "mem_wf s" and "QosLevel (Header (heap p)) = QosAtLeastOnce"
  shows "\<exists>t u. persist_outbound (memory_store e) heap (Publish p) (Some s) = Ret (Some t)
    \<and> MemGet (obound_mid2key (MessageId (heap p))) t = Some (Publish p)
    \<and> persist_inbound (memory_store e) heap' (PubAck h (MessageId (heap p))) (Some t) = Ret (Some u)
    \<and> MemGet k u = (if k = obound_mid2key (MessageId (heap p)) then None else MemGet k s)"
proof -
  obtain t where t: "persist_outbound (memory_store e) heap (Publish p) (Some s) = Ret (Some t)"
    using ms.persist_total(1) by blast
  obtain u where u: "persist_inbound (memory_store e) heap' (PubAck h (MessageId (heap p))) (Some t)
      = Ret (Some u)"
    using ms.persist_total(2) by blast
  from ms.outbound_cycle(1) [OF assms t u] ms.outbound_cycle(2) [OF assms t u, where k = k] t u show ?thesis
    by (simp add: memory_store_def)
qed

theorem outbound_qos1_held_until_puback_witness:
  "\<exists>t u. persist_outbound (memory_store doubling_env) (\<lambda>_. qos1_message 7) (Publish 0) (Some NewMemoryStore) = Ret (Some t)
    \<and> MemGet (obound_mid2key (MessageId (qos1_message 7))) t = Some (Publish 0)
    \<and> persist_inbound (memory_store doubling_env) (\<lambda>_. qos1_message 7) (PubAck zero_header (MessageId (qos1_message 7)))
        (Some t) = Ret (Some u)
    \<and> MemGet ''o.7'' u = (if ''o.7'' = obound_mid2key (MessageId (qos1_message 7)) then None
        else MemGet ''o.7'' NewMemoryStore)"
  using outbound_qos1_held_until_puback [of NewMemoryStore "\<lambda>_. qos1_message 7" 0]
  by (simp add: mem_wf_def NewMemoryStore_def qos1_message_def)

text \<open>C35: \<^verbatim>\<open>getClientStore\<close> gives every client id one store for the life of the broker: whatever
  clients ask for theirs in between, a client that has a store gets the same one again, and two
  different clients never share one.\<close>

theorem client_stores_are_stable_and_separate:
  assumes "i \<in> set is" and "j \<in> set is"
  shows "fst (getClientStore i (open_stores (is @ js) no_stores)) = fst (getClientStore i (open_stores is no_stores))
    \<and> (fst (getClientStore i (open_stores is no_stores)) = fst (getClientStore j (open_stores is no_stores))
        \<longleftrightarrow> i = j)"
proof -
  let ?cs = "open_stores is no_stores"
  obtain a b where a: "clientStores ?cs i = Some a" and b: "clientStores ?cs j = Some b"
    using open_stores_has assms by metis
  have "stores_wf ?cs" by (simp add: open_stores_wf)
  with a b have "a = b \<longleftrightarrow> i = j" by (auto simp: stores_wf_def)
  with a b open_stores_keeps [OF a, of js] show ?thesis
    by (simp add: getClientStore_present open_stores_append)
qed

theorem client_stores_are_stable_and_separate_witness:
  "fst (getClientStore ''x'' (open_stores ([''x'', ''y''] @ [''z'']) no_stores))
     = fst (getClientStore ''x'' (open_stores [''x'', ''y''] no_stores))
   \<and> (fst (getClientStore ''x'' (open_stores [''x'', ''y''] no_stores))
       = fst (getClientStore ''y'' (open_stores [''x'', ''y''] no_stores)) \<longleftrightarrow> ''x'' = ''y'')"
  by (rule client_stores_are_stable_and_separate) simp_all

end
