(* ===== verification/Wild.thy ===== *)
theory Wild
  imports Go_Strings
begin

section \<open>Topic filters: \<^verbatim>\<open>broker/wild.go\<close>\<close>

text \<open>
  A topic is cut at its slashes; a filter part may be \<^verbatim>\<open>+\<close> (one level) or, in last place,
  \<^verbatim>\<open>#\<close> (all levels that follow, none included). \<open>valid\<close> and \<open>matches\<close> follow the loops of
  the source with their index; \<open>filter_spec\<close> is the meaning of a filter stated without them.
\<close>

type_synonym cptr = "nat option"

record wild =
  wparts :: "string list"
  wconn :: cptr

definition SLASH :: char where
  "SLASH = CHR ''/''"

definition newWild :: "string \<Rightarrow> cptr \<Rightarrow> wild" where
  "newWild topic c = \<lparr>wparts = str_split topic SLASH, wconn = c\<rparr>"

definition isWildcard :: "string \<Rightarrow> bool" where
  "isWildcard topic =
     (if str_contains topic ''#'' \<or> str_contains topic ''+'' then True else False)"

fun valid_loop :: "nat \<Rightarrow> nat \<Rightarrow> string list \<Rightarrow> bool" where
  "valid_loop n i [] = True"
| "valid_loop n i (part # parts) =
     (if isWildcard part \<and> length part \<noteq> 1 then False
      else if part = ''#'' \<and> int i \<noteq> int n - 1 then False
      else valid_loop n (Suc i) parts)"

definition valid :: "wild \<Rightarrow> bool" where
  "valid w = valid_loop (length (wparts w)) 0 (wparts w)"

function matches_loop :: "string list \<Rightarrow> string list \<Rightarrow> nat \<Rightarrow> bool" where
  "matches_loop w parts i =
     (if i < length parts then
        if length w \<le> i then False
        else if w ! i = ''#'' then True
        else if parts ! i \<noteq> w ! i \<and> w ! i \<noteq> ''+'' then False
        else matches_loop w parts (Suc i)
      else if int i = int (length w) - 1 \<and> w ! (length w - 1) = ''#'' then True
      else if i = length w then True
      else False)"
  by pat_completeness auto
termination
  by (relation "measure (\<lambda>(w, parts, i). length parts - i)") auto

declare matches_loop.simps [simp del]

definition matches :: "wild \<Rightarrow> string list \<Rightarrow> bool" where
  "matches w parts = matches_loop (wparts w) parts 0"

subsection \<open>The meaning of a filter\<close>

fun filter_spec :: "string list \<Rightarrow> string list \<Rightarrow> bool" where
  "filter_spec [] ts = (ts = [])"
| "filter_spec (f # fs) ts =
     (if f = ''#'' then True
      else case ts of
             [] \<Rightarrow> False
           | t # ts' \<Rightarrow> (f = ''+'' \<or> f = t) \<and> filter_spec fs ts')"

text \<open>A filter part is well formed when it has no wildcard character or is one itself; the
  filter is when every part is and \<^verbatim>\<open>#\<close> only ends it.\<close>

definition part_ok :: "string \<Rightarrow> bool" where
  "part_ok p \<longleftrightarrow> p = ''#'' \<or> p = ''+'' \<or> \<not> isWildcard p"

definition filter_ok :: "string list \<Rightarrow> bool" where
  "filter_ok fs \<longleftrightarrow> (\<forall>p \<in> set fs. part_ok p) \<and> ''#'' \<notin> set (butlast fs)"

lemma isWildcard_iff: "isWildcard s \<longleftrightarrow> CHR ''#'' \<in> set s \<or> CHR ''+'' \<in> set s"
  by (simp add: isWildcard_def)

lemma isWildcard_hash [simp]: "isWildcard ''#''" and isWildcard_plus [simp]: "isWildcard ''+''"
  by (simp_all add: isWildcard_iff)

lemma wildcard_one_char:
  "isWildcard p \<and> length p = 1 \<longleftrightarrow> p = ''#'' \<or> p = ''+''"
  by (auto simp: isWildcard_iff length_Suc_conv)

lemma part_ok_iff: "part_ok p \<longleftrightarrow> \<not> (isWildcard p \<and> length p \<noteq> 1)"
  using wildcard_one_char [of p] by (auto simp: part_ok_def)

lemma isWildcard_split:
  "isWildcard s \<longleftrightarrow> (\<exists>p \<in> set (str_split s SLASH). isWildcard p)"
  using set_str_split [of "CHR ''#''" SLASH s] set_str_split [of "CHR ''+''" SLASH s]
  unfolding isWildcard_iff by (auto simp: SLASH_def)

lemma valid_loop_iff:
  "n = i + length parts \<Longrightarrow> valid_loop n i parts \<longleftrightarrow> filter_ok parts"
proof (induction n i parts rule: valid_loop.induct)
  case (2 n i part parts)
  have last: "int i \<noteq> int n - 1 \<longleftrightarrow> parts \<noteq> []" using "2.prems" by auto
  show ?case
  proof (cases "part_ok part \<and> \<not> (part = ''#'' \<and> parts \<noteq> [])")
    case True
    with 2 last have "valid_loop n i (part # parts) = filter_ok parts"
      by (auto simp: part_ok_iff)
    also have "\<dots> = filter_ok (part # parts)"
      using True by (cases parts) (auto simp: filter_ok_def)
    finally show ?thesis .
  next
    case False
    with last show ?thesis by (auto simp: part_ok_iff filter_ok_def)
  qed
qed (simp add: filter_ok_def)

lemma valid_iff: "valid w \<longleftrightarrow> filter_ok (wparts w)"
  by (simp add: valid_def valid_loop_iff)

subsection \<open>The loop computes the meaning\<close>

lemma filter_spec_Nil: "filter_spec fs [] \<longleftrightarrow> fs = [] \<or> hd fs = ''#''"
  by (cases fs) auto

lemma filter_ok_hash_last:
  assumes "filter_ok w" "i < length w" "w ! i = ''#''"
  shows "Suc i = length w"
proof (rule ccontr)
  assume "Suc i \<noteq> length w"
  with assms(2) have "i < length (butlast w)" by simp
  then have "w ! i \<in> set (butlast w)" by (metis nth_butlast nth_mem)
  with assms(1,3) show False by (simp add: filter_ok_def)
qed

lemma matches_loop_spec:
  assumes "filter_ok w" and "i \<le> length w" and "''#'' \<notin> set (take i w)"
    and "i \<le> length parts"
  shows "matches_loop w parts i = filter_spec (drop i w) (drop i parts)"
  using assms
proof (induction w parts i rule: matches_loop.induct)
  case (1 w parts i)
  note unf = matches_loop.simps [of w parts i]
  show ?case
  proof (cases "i < length parts")
    case True
    note parts = Cons_nth_drop_Suc [OF True, symmetric]
    show ?thesis
    proof (cases "i < length w")
      case iw: True
      note w = Cons_nth_drop_Suc [OF iw, symmetric]
      consider "w ! i = ''#''" | "w ! i \<noteq> ''#''" "parts ! i \<noteq> w ! i" "w ! i \<noteq> ''+''"
        | "w ! i \<noteq> ''#''" "parts ! i = w ! i \<or> w ! i = ''+''" by blast
      then show ?thesis
      proof cases
        case 1
        with iw True show ?thesis by (simp add: unf w)
      next
        case 2
        with iw True show ?thesis by (simp add: unf w parts eq_commute)
      next
        case 3
        have "''#'' \<notin> set (take (Suc i) w)"
          using "1.prems"(3) 3 iw by (auto simp: take_Suc_conv_app_nth)
        moreover have "\<not> length w \<le> i" "\<not> (parts ! i \<noteq> w ! i \<and> w ! i \<noteq> ''+'')"
          "Suc i \<le> length w" "Suc i \<le> length parts"
          using 3 iw True by auto
        ultimately have
          "matches_loop w parts (Suc i) = filter_spec (drop (Suc i) w) (drop (Suc i) parts)"
          using "1.IH" [OF True _ 3(1)] "1.prems"(1) by blast
        with 3 iw True show ?thesis by (auto simp: unf w parts)
      qed
    next
      case False
      with True show ?thesis by (subst unf) simp
    qed
  next
    case False
    with "1.prems"(4) have i: "i = length parts" by simp
    show ?thesis
    proof (cases "i < length w")
      case True
      have "(int i = int (length w) - 1 \<and> w ! (length w - 1) = ''#'') = (w ! i = ''#'')"
      proof
        assume h: "int i = int (length w) - 1 \<and> w ! (length w - 1) = ''#''"
        then have "i = length w - 1" by linarith
        with h show "w ! i = ''#''" by simp
      next
        assume "w ! i = ''#''"
        with "1.prems"(1) True have "Suc i = length w" by (rule filter_ok_hash_last)
        with \<open>w ! i = ''#''\<close> show "int i = int (length w) - 1 \<and> w ! (length w - 1) = ''#''"
          by (auto dest: sym)
      qed
      with True False i show ?thesis
        by (subst unf) (simp add: filter_spec_Nil hd_drop_conv_nth)
    next
      case False
      with "1.prems"(2) have "i = length w" by simp
      with i show ?thesis by (subst unf) simp
    qed
  qed
qed

lemma matches_spec: "valid w \<Longrightarrow> matches w parts = filter_spec (wparts w) parts"
  unfolding matches_def by (subst matches_loop_spec) (auto simp: valid_iff)


subsection \<open>Properties\<close>

text \<open>C14: \<^verbatim>\<open>matches\<close>, with its index arithmetic and its three exits, decides exactly the meaning
  of a filter: on every filter that \<^verbatim>\<open>valid\<close> accepts and every topic it returns whether the levels
  of the topic fit the levels of the filter, \<^verbatim>\<open>+\<close> standing for one level and a final \<^verbatim>\<open>#\<close> for all
  that are left, none included.\<close>

theorem matches_is_filter_spec:
  assumes "valid (newWild f c)"
  shows "matches (newWild f c) (str_split t SLASH)
       = filter_spec (str_split f SLASH) (str_split t SLASH)"
  using matches_spec [OF assms] by (simp add: newWild_def)

theorem matches_is_filter_spec_witness:
  "valid (newWild ''a/+/#'' (Some 1)) \<and> matches (newWild ''a/+/#'' (Some 1)) (str_split ''a/b'' SLASH)
   \<and> matches (newWild ''a/+/#'' (Some 1)) (str_split ''a/b'' SLASH)
       = filter_spec (str_split ''a/+/#'' SLASH) (str_split ''a/b'' SLASH)"
proof -
  have v: "valid (newWild ''a/+/#'' (Some 1))" by code_simp
  have m: "matches (newWild ''a/+/#'' (Some 1)) (str_split ''a/b'' SLASH)" by code_simp
  from v m matches_is_filter_spec [OF v, of "''a/b''"] show ?thesis by simp
qed

text \<open>C37: the loop of \<^verbatim>\<open>valid\<close> accepts exactly the well-formed filters: a level that contains a
  wildcard character is that character alone, and \<^verbatim>\<open>#\<close> occurs in no level but the last.\<close>

theorem valid_is_filter_ok:
  "valid (newWild f c) \<longleftrightarrow>
     (\<forall>p \<in> set (str_split f SLASH). p = ''#'' \<or> p = ''+'' \<or> \<not> isWildcard p)
     \<and> ''#'' \<notin> set (butlast (str_split f SLASH))"
  by (auto simp: valid_iff filter_ok_def part_ok_def newWild_def)

theorem valid_is_filter_ok_witness:
  "valid (newWild ''+/b/#'' None) \<and> \<not> valid (newWild ''a/#/b'' None) \<and> ''#'' \<in> set (butlast (str_split ''a/#/b'' SLASH))"
proof -
  have "''#'' \<in> set (butlast (str_split ''a/#/b'' SLASH))" by code_simp
  moreover have "valid (newWild ''+/b/#'' None)" by code_simp
  ultimately show ?thesis using valid_is_filter_ok [of "''a/#/b''" None] by blast
qed

end
