(* ===== verification/Go_Slice.thy ===== *)
theory Go_Slice
  imports Prelude
begin

section \<open>Go slices over a heap of backing arrays\<close>

text \<open>
  A slice is a window on a backing array: here the address of the array and a length, since
  every slice the broker keeps starts at index 0. The capacity is the length of the array.
  \<open>slice_append\<close> is the builtin \<^verbatim>\<open>append\<close> for one element: it writes into the spare capacity
  of the array the slice points to, visible through every other slice of that array, and
  copies to a new array only when there is none. How much a new array is larger than needed
  is not part of the language (\<open>grow\<close> is that choice of the runtime, an argument of the
  model); that it is large enough is.
\<close>

record 'a sheap =
  mem :: "nat \<Rightarrow> 'a list"
  brk :: nat

record slice =
  arr :: nat
  slen :: nat

definition empty_sheap :: "'a sheap" where
  "empty_sheap = \<lparr>mem = (\<lambda>_. []), brk = 1\<rparr>"

text \<open>The nil slice points to address 0, which never holds an array.\<close>

definition nil_slice :: slice where
  "nil_slice = \<lparr>arr = 0, slen = 0\<rparr>"

definition slice_list :: "'a sheap \<Rightarrow> slice \<Rightarrow> 'a list" where
  "slice_list h s = take (slen s) (mem h (arr s))"

definition slice_cap :: "'a sheap \<Rightarrow> slice \<Rightarrow> nat" where
  "slice_cap h s = length (mem h (arr s))"

definition slice_set :: "slice \<Rightarrow> nat \<Rightarrow> 'a \<Rightarrow> 'a sheap \<Rightarrow> 'a sheap" where
  "slice_set s i x h = h\<lparr>mem := (mem h)(arr s := (mem h (arr s))[i := x])\<rparr>"

definition slice_append ::
  "(nat \<Rightarrow> nat \<Rightarrow> nat) \<Rightarrow> 'a \<Rightarrow> 'a \<Rightarrow> slice \<Rightarrow> 'a sheap \<Rightarrow> slice \<times> 'a sheap" where
  "slice_append grow zero x s h =
     (if slen s < slice_cap h s
      then (s\<lparr>slen := Suc (slen s)\<rparr>, slice_set s (slen s) x h)
      else let n = max (Suc (slen s)) (grow (slice_cap h s) (Suc (slen s)));
               a = slice_list h s @ x # replicate (n - Suc (slen s)) zero
           in (\<lparr>arr = brk h, slen = Suc (slen s)\<rparr>,
               h\<lparr>mem := (mem h)(brk h := a), brk := Suc (brk h)\<rparr>))"

fun slice_append_all ::
  "(nat \<Rightarrow> nat \<Rightarrow> nat) \<Rightarrow> 'a \<Rightarrow> 'a list \<Rightarrow> slice \<Rightarrow> 'a sheap \<Rightarrow> slice \<times> 'a sheap" where
  "slice_append_all grow zero [] s h = (s, h)"
| "slice_append_all grow zero (x # xs) s h =
     (case slice_append grow zero x s h of (s', h') \<Rightarrow> slice_append_all grow zero xs s' h')"

text \<open>Well-formed heaps and slices: array 0 is empty, a slice lies in an allocated array.\<close>

definition sheap_wf :: "'a sheap \<Rightarrow> bool" where
  "sheap_wf h \<longleftrightarrow> 0 < brk h \<and> mem h 0 = []"

definition slice_wf :: "'a sheap \<Rightarrow> slice \<Rightarrow> bool" where
  "slice_wf h s \<longleftrightarrow> arr s < brk h \<and> slen s \<le> slice_cap h s"

text \<open>What an append leaves alone: every slice of another array, and every slice of the same
  array no longer than the one appended to.\<close>

definition undisturbed :: "slice \<Rightarrow> slice \<Rightarrow> bool" where
  "undisturbed s t \<longleftrightarrow> arr t = arr s \<longrightarrow> slen t \<le> slen s"

lemma sheap_wf_empty [simp]: "sheap_wf empty_sheap"
  by (simp add: sheap_wf_def empty_sheap_def)

lemma slice_wf_nil [simp]: "sheap_wf h \<Longrightarrow> slice_wf h nil_slice"
  by (simp add: sheap_wf_def slice_wf_def nil_slice_def)

lemma slice_list_nil [simp]: "slice_list h nil_slice = []"
  by (simp add: slice_list_def nil_slice_def)

lemma length_slice_list [simp]: "slice_wf h s \<Longrightarrow> length (slice_list h s) = slen s"
  by (simp add: slice_list_def slice_wf_def slice_cap_def)

lemma slice_append_list:
  assumes "slice_wf h s" and "slice_append grow zero x s h = (s', h')"
  shows "slice_list h' s' = slice_list h s @ [x]"
  using assms
  by (auto simp: slice_append_def slice_set_def slice_list_def slice_wf_def slice_cap_def
      Let_def take_Suc_update min_absorb2 split: if_splits)

lemma slice_append_wf:
  assumes "sheap_wf h" "slice_wf h s" and "slice_append grow zero x s h = (s', h')"
  shows "sheap_wf h'" "slice_wf h' s'" "brk h \<le> brk h'"
  using assms
  by (auto simp: slice_append_def slice_set_def slice_list_def slice_wf_def slice_cap_def
      sheap_wf_def Let_def split: if_splits)

lemma slice_append_other:
  assumes "slice_append grow zero x s h = (s', h')" and "slice_wf h t" and "undisturbed s t"
  shows "slice_list h' t = slice_list h t" "slice_wf h' t"
  using assms
  by (auto simp: slice_append_def slice_set_def slice_list_def slice_wf_def slice_cap_def
      undisturbed_def Let_def split: if_splits)

lemma slice_append_arr:
  assumes "slice_append grow zero x s h = (s', h')"
  shows "arr s' = arr s \<or> arr s' = brk h" "slen s' = Suc (slen s)"
  using assms by (auto simp: slice_append_def Let_def split: if_splits)

lemma slice_append_all_spec:
  assumes "sheap_wf h" "slice_wf h s" and "slice_append_all grow zero xs s h = (s', h')"
  shows "slice_list h' s' = slice_list h s @ xs \<and> sheap_wf h' \<and> slice_wf h' s'
       \<and> brk h \<le> brk h'
       \<and> (\<forall>t. slice_wf h t \<longrightarrow> undisturbed s t \<longrightarrow> slice_list h' t = slice_list h t \<and> slice_wf h' t)"
  using assms
proof (induction xs arbitrary: s h)
  case Nil
  then show ?case by simp
next
  case (Cons x xs)
  obtain s1 h1 where 1: "slice_append grow zero x s h = (s1, h1)" by fastforce
  from Cons.prems 1 have rest: "slice_append_all grow zero xs s1 h1 = (s', h')" by simp
  note wf = slice_append_wf [OF Cons.prems(1,2) 1]
  note IH = Cons.IH [OF wf(1,2) rest]
  have "slice_list h' t = slice_list h t \<and> slice_wf h' t"
    if "slice_wf h t" "undisturbed s t" for t
  proof -
    from that slice_append_arr [OF 1] have "undisturbed s1 t"
      by (auto simp: undisturbed_def slice_wf_def)
    with IH slice_append_other [OF 1 that] show ?thesis by auto
  qed
  with IH wf(3) slice_append_list [OF Cons.prems(2) 1] show ?case by auto
qed

lemma slice_set_list:
  "slice_list (slice_set s i x h) t
   = (if arr t = arr s then take (slen t) ((mem h (arr s))[i := x]) else slice_list h t)"
  by (simp add: slice_list_def slice_set_def)

lemma slice_set_wf [simp]:
  "slice_wf (slice_set s i x h) t = slice_wf h t" "sheap_wf (slice_set s i x h) = sheap_wf h"
  by (auto simp: slice_wf_def slice_set_def slice_cap_def sheap_wf_def)

end
