(* ===== verification/Subs.thy ===== *)
theory Subs
  imports Wild Messages Go_Slice
begin

section \<open>The subscription table: \<^verbatim>\<open>broker/subs.go\<close>\<close>

text \<open>
  \<open>subscriptions\<close> is the struct of the same name: the queue of posts, the lists of exact
  subscribers per topic, the retained messages and the wildcard filters. The lists are Go
  slices over the heap \<open>sarrs\<close> of backing arrays whose cells are connection pointers (\<open>None\<close> is
  nil). Each operation here runs under the mutex \<^verbatim>\<open>mu\<close>, so it is one step.

  \<^verbatim>\<open>subscribers\<close> appends the wildcard subscribers to the slice it found in the map, so it may
  write into the spare capacity of the array the map still points to; the invariant
  \<open>subs_wf\<close> (no two topics share an array) is what makes that harmless for later lookups.

  \<open>exact s t\<close> and \<open>filters s\<close> are the abstract table: who subscribed to topic \<open>t\<close> by name, and
  the filters with their owners. The locale \<open>subscription_table\<close> states the contract over
  these two views, and its \<open>runs\<close> lemmas are about any sequence of operations.
\<close>

record retain =
  rm :: publish
  rwild :: wild

record subscriptions =
  posts :: "post chan"
  subs :: "(string, slice) gomap"
  sarrs :: "cptr sheap"
  retained :: "string \<rightharpoonup> retain"
  wildcards :: "wild list"

definition newSubscriptions :: "nat \<Rightarrow> subscriptions" where
  "newSubscriptions queueLen =
     \<lparr>posts = make_chan queueLen, subs = [], sarrs = empty_sheap, retained = (\<lambda>_. None),
      wildcards = []\<rparr>"

definition submit_post :: "ptr \<Rightarrow> subscriptions \<Rightarrow> subscriptions res" where
  "submit_post m s = map_res (\<lambda>ch. s\<lparr>posts := ch\<rparr>) (chan_send \<lparr>pm = m\<rparr> (posts s))"

text \<open>\<^verbatim>\<open>this.subs[topic]\<close>: the zero value nil when the topic is absent.\<close>

definition subs_at :: "subscriptions \<Rightarrow> string \<Rightarrow> slice" where
  "subs_at s topic = (case map_of (subs s) topic of None \<Rightarrow> nil_slice | Some v \<Rightarrow> v)"

definition add_sub :: "env \<Rightarrow> string \<Rightarrow> nat \<Rightarrow> subscriptions \<Rightarrow> subscriptions" where
  "add_sub e topic c s =
     (if isWildcard topic then
        let w = newWild topic (Some c) in
        if valid w then s\<lparr>wildcards := wildcards s @ [w]\<rparr> else s
      else
        case slice_append (growcap e) None (Some c) (subs_at s topic) (sarrs s) of
          (v, h) \<Rightarrow> s\<lparr>subs := AList.update topic v (subs s), sarrs := h\<rparr>)"

text \<open>The loop over \<^verbatim>\<open>this.wildcards\<close>, with the result slice and the heap threaded through.\<close>

fun add_matching ::
  "env \<Rightarrow> string list \<Rightarrow> wild list \<Rightarrow> slice \<Rightarrow> cptr sheap \<Rightarrow> slice \<times> cptr sheap" where
  "add_matching e parts [] res h = (res, h)"
| "add_matching e parts (w # ws) res h =
     (if matches w parts
      then case slice_append (growcap e) None (wconn w) res h of
             (res', h') \<Rightarrow> add_matching e parts ws res' h'
      else add_matching e parts ws res h)"

definition subscribers :: "env \<Rightarrow> string \<Rightarrow> subscriptions \<Rightarrow> slice \<times> subscriptions" where
  "subscribers e topic s =
     (case add_matching e (str_split topic SLASH) (wildcards s) (subs_at s topic) (sarrs s) of
        (res, h) \<Rightarrow> (res, s\<lparr>sarrs := h\<rparr>))"

text \<open>\<^verbatim>\<open>for i := range v { if v[i] == c { v[i] = nil } }\<close>\<close>

fun nil_out :: "slice \<Rightarrow> nat \<Rightarrow> nat \<Rightarrow> cptr sheap \<Rightarrow> cptr sheap" where
  "nil_out v c 0 h = h"
| "nil_out v c (Suc n) h =
     (let h' = nil_out v c n h in
      if mem h' (arr v) ! n = Some c then slice_set v n None h' else h')"

definition unsubAll :: "env \<Rightarrow> nat \<Rightarrow> subscriptions \<Rightarrow> subscriptions" where
  "unsubAll e c s =
     s\<lparr>sarrs := fold (\<lambda>t h. nil_out (subs_at s t) c (slen (subs_at s t)) h)
                  (range_keys e (map fst (subs s))) (sarrs s),
       wildcards := filter (\<lambda>w. wconn w \<noteq> Some c) (wildcards s)\<rparr>"

text \<open>The loop of \<^verbatim>\<open>unsub\<close> counts the nils while it clears the entries of \<open>c\<close>.\<close>

fun unsub_loop :: "slice \<Rightarrow> nat \<Rightarrow> nat \<Rightarrow> cptr sheap \<Rightarrow> nat \<times> cptr sheap" where
  "unsub_loop v c 0 h = (0, h)"
| "unsub_loop v c (Suc n) h =
     (case unsub_loop v c n h of (nils, h1) \<Rightarrow>
        let h2 = (if mem h1 (arr v) ! n = Some c then slice_set v n None h1 else h1);
            nils' = (if mem h2 (arr v) ! n = None then Suc nils else nils)
        in (nils', h2))"

definition unsub :: "string \<Rightarrow> nat \<Rightarrow> subscriptions \<Rightarrow> subscriptions" where
  "unsub topic c s =
     (case map_of (subs s) topic of
        None \<Rightarrow> s
      | Some v \<Rightarrow>
          (case unsub_loop v c (slen v) (sarrs s) of (nils, h) \<Rightarrow>
             if nils = slen v
             then s\<lparr>subs := AList.delete topic (subs s), sarrs := h\<rparr>
             else s\<lparr>sarrs := h\<rparr>))"

text \<open>The retained messages \<^verbatim>\<open>sendRetain\<close> picks for a topic: none for a wildcard filter.\<close>

definition retain_topics :: "string \<Rightarrow> string list" where
  "retain_topics topic = (if isWildcard topic then [] else [topic])"

subsection \<open>Views and invariant\<close>

definition entries :: "subscriptions \<Rightarrow> string \<Rightarrow> cptr list" where
  "entries s topic = slice_list (sarrs s) (subs_at s topic)"

definition exact :: "subscriptions \<Rightarrow> string \<Rightarrow> nat set" where
  "exact s topic = {c. Some c \<in> set (entries s topic)}"

definition filters :: "subscriptions \<Rightarrow> (string list \<times> cptr) set" where
  "filters s = (\<lambda>w. (wparts w, wconn w)) ` set (wildcards s)"

definition subs_wf :: "subscriptions \<Rightarrow> bool" where
  "subs_wf s \<longleftrightarrow>
     sheap_wf (sarrs s) \<and>
     distinct (map fst (subs s)) \<and>
     (\<forall>t v. map_of (subs s) t = Some v \<longrightarrow> slice_wf (sarrs s) v \<and> \<not> isWildcard t) \<and>
     (\<forall>t u v v'. map_of (subs s) t = Some v \<longrightarrow> map_of (subs s) u = Some v' \<longrightarrow>
        arr v = arr v' \<longrightarrow> t = u) \<and>
     (\<forall>w \<in> set (wildcards s). valid w \<and> wconn w \<noteq> None \<and>
        (\<exists>t. isWildcard t \<and> wparts w = str_split t SLASH))"


definition clr :: "nat \<Rightarrow> cptr \<Rightarrow> cptr" where
  "clr c x = (if x = Some c then None else x)"

lemma Some_clr [simp]: "Some d \<in> clr c ` A \<longleftrightarrow> Some d \<in> A \<and> d \<noteq> c"
  by (auto simp: clr_def image_iff)

lemma subs_at_frame [simp]:
  "subs_at (s\<lparr>sarrs := h\<rparr>) t = subs_at s t"
  "subs_at (s\<lparr>wildcards := ws\<rparr>) t = subs_at s t"
  "subs_at (s\<lparr>retained := r\<rparr>) t = subs_at s t"
  "subs_at (s\<lparr>posts := ch\<rparr>) t = subs_at s t"
  by (simp_all add: subs_at_def)

subsection \<open>The loops over a slice\<close>

lemma mem_nil_out:
  "n \<le> length (mem h (arr v)) \<Longrightarrow>
   mem (nil_out v c n h) = (mem h)(arr v := map (clr c) (take n (mem h (arr v))) @ drop n (mem h (arr v)))"
proof (induction n)
  case (Suc n)
  let ?xs = "mem h (arr v)"
  from Suc have n: "n < length ?xs" by simp
  have IH: "mem (nil_out v c n h) (arr v) = map (clr c) (take n ?xs) @ ?xs ! n # drop (Suc n) ?xs"
    using Suc by (simp add: Cons_nth_drop_Suc)
  from n have len: "length (map (clr c) (take n ?xs)) = n" by simp
  have cell: "mem (nil_out v c n h) (arr v) ! n = ?xs ! n"
    using len by (simp add: IH nth_append)
  have upd: "(mem (nil_out v c n h) (arr v))[n := None]
      = map (clr c) (take n ?xs) @ None # drop (Suc n) ?xs"
    using len by (simp add: IH list_update_append)
  show ?case
  proof (cases "?xs ! n = Some c")
    case True
    with Suc n cell upd show ?thesis
      by (simp add: Let_def slice_set_def take_Suc_conv_app_nth clr_def fun_eq_iff)
  next
    case False
    with Suc n cell IH show ?thesis
      by (simp add: Let_def take_Suc_conv_app_nth clr_def fun_eq_iff Cons_nth_drop_Suc)
  qed
qed simp

lemma brk_nil_out [simp]: "brk (nil_out v c n h) = brk h"
  by (induction n) (simp_all add: Let_def slice_set_def)

lemma nil_out_wf [simp]:
  "slice_wf (nil_out v c n h) t = slice_wf h t" "sheap_wf (nil_out v c n h) = sheap_wf h"
  by (induction n) (simp_all add: Let_def)

lemma slice_list_nil_out:
  assumes "slice_wf h v"
  shows "slice_list (nil_out v c (slen v) h) u
         = (if arr u = arr v then take (slen u) (map (clr c) (slice_list h v) @ drop (slen v) (mem h (arr v)))
            else slice_list h u)"
  using assms by (simp add: slice_list_def mem_nil_out slice_wf_def slice_cap_def)

lemma unsub_loop_nil_out: "snd (unsub_loop v c n h) = nil_out v c n h"
  by (induction n) (simp_all add: Let_def split_beta)

lemma unsub_loop_count:
  "n \<le> length (mem h (arr v)) \<Longrightarrow>
   fst (unsub_loop v c n h) = length (filter (\<lambda>x. x = None) (map (clr c) (take n (mem h (arr v)))))"
proof (induction n)
  case (Suc n)
  have m: "mem (nil_out v c (Suc n) h) (arr v) ! n = clr c (mem h (arr v) ! n)"
    using Suc.prems by (simp add: mem_nil_out nth_append take_Suc_conv_app_nth del: nil_out.simps)
  have "snd (unsub_loop v c (Suc n) h) = nil_out v c (Suc n) h" by (rule unsub_loop_nil_out)
  then have step: "fst (unsub_loop v c (Suc n) h)
      = (if mem (nil_out v c (Suc n) h) (arr v) ! n = None then Suc (fst (unsub_loop v c n h))
         else fst (unsub_loop v c n h))"
    by (simp add: Let_def split_beta)
  show ?case
    using Suc.prems Suc.IH by (simp add: step m take_Suc_conv_app_nth del: unsub_loop.simps nil_out.simps)
qed simp

subsection \<open>Every operation keeps the table well formed and does to the views what it says\<close>

lemma subs_wf_new [simp]: "subs_wf (newSubscriptions n)"
  by (simp add: subs_wf_def newSubscriptions_def)

lemma subs_at_wf: "subs_wf s \<Longrightarrow> slice_wf (sarrs s) (subs_at s t)"
  by (auto simp: subs_wf_def subs_at_def split: option.splits)

lemma subs_wf_submit [keeps_intros]: "keeps subs_wf (submit_post m)"
  by (auto simp: keeps_def submit_post_def subs_wf_def)

lemma subs_at_arr_inject:
  assumes "subs_wf s" and "map_of (subs s) t = Some v" and "arr (subs_at s u) = arr v" and "t \<noteq> u"
  shows "slen (subs_at s u) = 0"
  using assms by (auto simp: subs_wf_def subs_at_def nil_slice_def split: option.splits)

lemma undisturbed_other:
  assumes "subs_wf s" "t \<noteq> u"
  shows "undisturbed (subs_at s t) (subs_at s u)"
proof (cases "map_of (subs s) t")
  case None
  then have "arr (subs_at s t) = 0" by (simp add: subs_at_def nil_slice_def)
  moreover have "mem (sarrs s) 0 = []" using assms(1) by (simp add: subs_wf_def sheap_wf_def)
  ultimately show ?thesis using subs_at_wf [OF assms(1), of u]
    by (auto simp: undisturbed_def slice_wf_def slice_cap_def)
next
  case (Some v)
  with assms subs_at_arr_inject [OF assms(1) Some, of u] show ?thesis
    by (auto simp: undisturbed_def subs_at_def)
qed

lemma undisturbed_self [simp]: "undisturbed v v"
  by (simp add: undisturbed_def)


text \<open>Changing one topic's slice and the heap: what is needed for the table to stay well
  formed.\<close>

lemma subs_wf_update:
  assumes wf: "subs_wf s" and nw: "\<not> isWildcard topic"
    and h: "sheap_wf h" "slice_wf h v"
    and others: "\<And>t. t \<noteq> topic \<Longrightarrow> slice_wf h (subs_at s t)"
    and fresh: "arr v = arr (subs_at s topic) \<and> map_of (subs s) topic \<noteq> None \<or> arr v = brk (sarrs s)"
  shows "subs_wf (s\<lparr>subs := AList.update topic v (subs s), sarrs := h\<rparr>)"
proof -
  have sep: "arr v \<noteq> arr u" if "map_of (subs s) t = Some u" "t \<noteq> topic" for t u
    using fresh
  proof
    assume "arr v = arr (subs_at s topic) \<and> map_of (subs s) topic \<noteq> None"
    with wf that show ?thesis by (fastforce simp: subs_wf_def subs_at_def)
  next
    assume "arr v = brk (sarrs s)"
    moreover from wf that have "arr u < brk (sarrs s)"
      by (fastforce simp: subs_wf_def slice_wf_def)
    ultimately show ?thesis by simp
  qed
  have "slice_wf h u" if "map_of (subs s) t = Some u" "t \<noteq> topic" for t u
    using others [OF that(2)] that by (simp add: subs_at_def)
  with wf nw h sep show ?thesis
    unfolding subs_wf_def by (simp add: distinct_update split: if_splits) metis
qed

lemma add_sub_spec:
  assumes wf: "subs_wf s"
  shows "subs_wf (add_sub e topic c s)"
    and "entries (add_sub e topic c s) t
           = (if t = topic \<and> \<not> isWildcard topic then entries s t @ [Some c] else entries s t)"
    and "wildcards (add_sub e topic c s)
           = (if isWildcard topic \<and> filter_ok (str_split topic SLASH)
              then wildcards s @ [newWild topic (Some c)] else wildcards s)"
    and "retained (add_sub e topic c s) = retained s"
    and "posts (add_sub e topic c s) = posts s"
proof -
  obtain v h where ap: "slice_append (growcap e) None (Some c) (subs_at s topic) (sarrs s) = (v, h)"
    by fastforce
  note sw = subs_at_wf [OF wf, of topic]
  have hw: "sheap_wf (sarrs s)" using wf by (simp add: subs_wf_def)
  note awf = slice_append_wf [OF hw sw ap]
  have other: "slice_list h (subs_at s u) = slice_list (sarrs s) (subs_at s u)"
    "slice_wf h (subs_at s u)" if "u \<noteq> topic" for u
    using slice_append_other [OF ap subs_at_wf [OF wf] undisturbed_other [OF wf]] that by auto
  have arr: "arr v = arr (subs_at s topic) \<and> map_of (subs s) topic \<noteq> None \<or> arr v = brk (sarrs s)"
    using ap hw by (auto simp: slice_append_def subs_at_def nil_slice_def slice_cap_def sheap_wf_def
        Let_def split: if_splits option.splits)
  show "subs_wf (add_sub e topic c s)"
  proof (cases "isWildcard topic")
    case True
    with wf show ?thesis unfolding subs_wf_def add_sub_def Let_def
      by (auto simp: newWild_def)
  next
    case False
    from subs_wf_update [OF wf False awf(1,2) other(2) arr] False ap show ?thesis
      by (simp add: add_sub_def)
  qed
  show "entries (add_sub e topic c s) t
        = (if t = topic \<and> \<not> isWildcard topic then entries s t @ [Some c] else entries s t)"
    using ap other(1) [of t] slice_append_list [OF sw ap]
    by (auto simp: add_sub_def entries_def subs_at_def Let_def)
  show "wildcards (add_sub e topic c s)
        = (if isWildcard topic \<and> filter_ok (str_split topic SLASH)
           then wildcards s @ [newWild topic (Some c)] else wildcards s)"
    by (simp add: add_sub_def Let_def valid_iff newWild_def split: prod.split)
  show "retained (add_sub e topic c s) = retained s" "posts (add_sub e topic c s) = posts s"
    by (simp_all add: add_sub_def Let_def split: prod.split)
qed

lemma add_matching_eq:
  "add_matching e parts ws res h
   = slice_append_all (growcap e) None (map wconn (filter (\<lambda>w. matches w parts) ws)) res h"
  by (induction ws arbitrary: res h) (simp_all split: prod.split)

lemma subscribers_spec:
  assumes wf: "subs_wf s" and r: "subscribers e topic s = (res, s')"
  shows "slice_list (sarrs s') res
           = entries s topic @ map wconn (filter (\<lambda>w. matches w (str_split topic SLASH)) (wildcards s))"
    and "subs_wf s'" and "entries s' t = entries s t" and "slice_wf (sarrs s') res"
    and "subs s' = subs s" and "wildcards s' = wildcards s" and "retained s' = retained s"
    and "posts s' = posts s"
proof -
  let ?cs = "map wconn (filter (\<lambda>w. matches w (str_split topic SLASH)) (wildcards s))"
  from r obtain h where
    ap: "slice_append_all (growcap e) None ?cs (subs_at s topic) (sarrs s) = (res, h)"
    and s': "s' = s\<lparr>sarrs := h\<rparr>"
    by (auto simp: subscribers_def add_matching_eq split: prod.splits)
  have hw: "sheap_wf (sarrs s)" using wf by (simp add: subs_wf_def)
  note sp = slice_append_all_spec [OF hw subs_at_wf [OF wf, of topic] ap]
  have at: "subs_at s' u = subs_at s u" for u by (simp add: subs_at_def s')
  have same: "slice_list h (subs_at s u) = slice_list (sarrs s) (subs_at s u)"
    "slice_wf h (subs_at s u)" for u
    using sp subs_at_wf [OF wf, of u] undisturbed_other [OF wf, of topic u]
    by (cases "u = topic"; auto)+
  show "slice_list (sarrs s') res = entries s topic @ ?cs" "slice_wf (sarrs s') res"
    "entries s' t = entries s t"
    using sp same by (simp_all add: s' entries_def at subs_at_def)
  have "slice_wf h v" if "map_of (subs s) u = Some v" for u v
    using same(2) [of u] that by (simp add: subs_at_def)
  with wf sp show "subs_wf s'" by (simp add: s' subs_wf_def)
qed (use r in \<open>auto simp: subscribers_def split: prod.splits\<close>)


lemma fold_nil_out:
  assumes wf: "subs_wf s" and ks: "distinct ks" "set ks \<subseteq> dom (map_of (subs s))"
    and h: "\<And>t. t \<in> set ks \<Longrightarrow> slice_wf h (subs_at s t)"
  shows "slice_list (fold (\<lambda>t h. nil_out (subs_at s t) c (slen (subs_at s t)) h) ks h) (subs_at s u)
         = (if u \<in> set ks then map (clr c) (slice_list h (subs_at s u)) else slice_list h (subs_at s u))"
  using ks h
proof (induction ks arbitrary: h)
  case (Cons t ks)
  let ?h = "nil_out (subs_at s t) c (slen (subs_at s t)) h"
  have t: "slice_wf h (subs_at s t)" using Cons.prems(3) by simp
  have own: "slice_list ?h (subs_at s t) = map (clr c) (slice_list h (subs_at s t))"
    using t by (simp add: slice_list_nil_out)
  have other: "slice_list ?h (subs_at s u) = slice_list h (subs_at s u)" if "u \<noteq> t" for u
  proof (cases "arr (subs_at s u) = arr (subs_at s t)")
    case True
    from Cons.prems(2) obtain v where "map_of (subs s) t = Some v" by auto
    with subs_at_arr_inject [OF wf, of t v u] that True have "slen (subs_at s u) = 0"
      by (simp add: subs_at_def)
    then show ?thesis by (simp add: slice_list_def)
  qed (use t in \<open>simp add: slice_list_nil_out\<close>)
  have "slice_list (fold (\<lambda>t h. nil_out (subs_at s t) c (slen (subs_at s t)) h) ks ?h) (subs_at s u)
      = (if u \<in> set ks then map (clr c) (slice_list ?h (subs_at s u)) else slice_list ?h (subs_at s u))"
    by (rule Cons.IH) (use Cons.prems in auto)
  with own other [of u] Cons.prems(1) show ?case
    by (cases "u = t") simp_all
qed simp

lemma fold_nil_out_wf:
  "slice_wf (fold (\<lambda>t h. nil_out (v t) c (n t) h) ks h) u = slice_wf h u"
  "sheap_wf (fold (\<lambda>t h. nil_out (v t) c (n t) h) ks h) = sheap_wf h"
  by (induction ks arbitrary: h) simp_all

lemma unsubAll_spec:
  assumes wf: "subs_wf s"
  shows "subs_wf (unsubAll e c s)"
    and "entries (unsubAll e c s) t = map (clr c) (entries s t)"
    and "wildcards (unsubAll e c s) = filter (\<lambda>w. wconn w \<noteq> Some c) (wildcards s)"
    and "retained (unsubAll e c s) = retained s" and "posts (unsubAll e c s) = posts s"
    and "subs (unsubAll e c s) = subs s"
proof -
  let ?ks = "range_keys e (map fst (subs s))"
  have ks: "distinct ?ks" "set ?ks = dom (map_of (subs s))"
    using wf by (simp_all add: subs_wf_def dom_map_of_conv_image_fst)
  from wf show "subs_wf (unsubAll e c s)"
    by (simp add: subs_wf_def unsubAll_def fold_nil_out_wf)
  have at: "subs_at (unsubAll e c s) t = subs_at s t" by (simp add: subs_at_def unsubAll_def)
  have "entries s t = []" if "t \<notin> set ?ks"
  proof -
    from that have "map_of (subs s) t = None" unfolding ks(2) by (simp only: domIff not_not)
    then show ?thesis by (simp add: entries_def subs_at_def)
  qed
  with fold_nil_out [OF wf ks(1) _ subs_at_wf [OF wf], of c t] ks
  show "entries (unsubAll e c s) t = map (clr c) (entries s t)"
    by (auto simp: entries_def at unsubAll_def)
qed (simp_all add: unsubAll_def)

text \<open>\<open>unsub\<close> on a topic of the map: the entries of \<open>c\<close> are cleared, and the topic goes when
  no subscriber is left.\<close>

lemma unsub_eq:
  assumes wf: "subs_wf s" and v: "map_of (subs s) topic = Some v"
  shows "unsub topic c s =
    (let s' = s\<lparr>sarrs := nil_out v c (slen v) (sarrs s)\<rparr> in
     if exact s topic \<subseteq> {c} then s'\<lparr>subs := AList.delete topic (subs s)\<rparr> else s')"
proof -
  have at: "subs_at s topic = v" using v by (simp add: subs_at_def)
  have vwf: "slice_wf (sarrs s) v" using subs_at_wf [OF wf, of topic] by (simp add: at)
  then have "fst (unsub_loop v c (slen v) (sarrs s)) = slen v
      \<longleftrightarrow> (\<forall>x \<in> set (map (clr c) (slice_list (sarrs s) v)). x = None)"
    using length_filter_eq [of "\<lambda>x. x = None" "map (clr c) (slice_list (sarrs s) v)"]
    by (simp add: unsub_loop_count slice_list_def slice_wf_def slice_cap_def)
  also have "\<dots> \<longleftrightarrow> (\<forall>d. Some d \<notin> set (map (clr c) (slice_list (sarrs s) v)))"
    by (rule all_None_iff)
  also have "\<dots> \<longleftrightarrow> exact s topic \<subseteq> {c}"
    by (auto simp: exact_def entries_def at)
  finally show ?thesis
    using v unsub_loop_nil_out [of v c "slen v" "sarrs s"]
    by (auto simp: unsub_def Let_def split: prod.split)
qed

lemma nil_out_entries:
  assumes wf: "subs_wf s" and v: "map_of (subs s) topic = Some v"
  shows "slice_list (nil_out v c (slen v) (sarrs s)) (subs_at s t)
         = (if t = topic then map (clr c) (entries s t) else entries s t)"
proof -
  have "topic \<in> dom (map_of (subs s))" using v by (rule domI)
  with fold_nil_out [OF wf, of "[topic]" "sarrs s" c t] v subs_at_wf [OF wf, of topic]
  show ?thesis by (auto simp: subs_at_def entries_def)
qed

lemma unsub_spec:
  assumes wf: "subs_wf s"
  shows "subs_wf (unsub topic c s)"
    and "exact (unsub topic c s) t = (if t = topic then exact s t - {c} else exact s t)"
    and "wildcards (unsub topic c s) = wildcards s"
    and "retained (unsub topic c s) = retained s" and "posts (unsub topic c s) = posts s"
proof -
  have "subs_wf (unsub topic c s) \<and>
    exact (unsub topic c s) t = (if t = topic then exact s t - {c} else exact s t)"
  proof (cases "map_of (subs s) topic")
    case None
    then show ?thesis
      using wf by (auto simp: unsub_def exact_def entries_def subs_at_def)
  next
    case (Some v)
    let ?s = "s\<lparr>sarrs := nil_out v c (slen v) (sarrs s)\<rparr>"
    let ?d = "?s\<lparr>subs := AList.delete topic (subs s)\<rparr>"
    have wfs: "subs_wf ?s" "subs_wf ?d"
      using wf by (auto simp: subs_wf_def distinct_delete)
    have ex: "exact ?s u = (if u = topic then exact s u - {c} else exact s u)" for u
      using nil_out_entries [OF wf Some, of c u] by (auto simp: exact_def entries_def)
    have "exact ?d u = (if u = topic then {} else exact ?s u)" for u
      by (auto simp: exact_def entries_def subs_at_def)
    with ex wfs show ?thesis by (auto simp: unsub_eq [OF wf Some] Let_def)
  qed
  then show "subs_wf (unsub topic c s)"
    and "exact (unsub topic c s) t = (if t = topic then exact s t - {c} else exact s t)" by auto
qed (auto simp: unsub_def split: option.split prod.split)


subsection \<open>The contract of the table\<close>

text \<open>A filter is the string a client subscribed to. What the table promises: the abstract
  table is a set of pairs of a filter and a connection, and a topic goes to the connections
  with a filter that matches it.\<close>

definition topic_matches :: "string \<Rightarrow> string \<Rightarrow> bool" where
  "topic_matches f t =
     (if isWildcard f then filter_spec (str_split f SLASH) (str_split t SLASH) else f = t)"

definition filter_accepted :: "string \<Rightarrow> bool" where
  "filter_accepted f \<longleftrightarrow> isWildcard f \<longrightarrow> filter_ok (str_split f SLASH)"

datatype subop = Sub string nat | Unsub string nat | UnsubAll nat | Look string

fun spec_op :: "subop \<Rightarrow> (string \<times> nat) set \<Rightarrow> (string \<times> nat) set" where
  "spec_op (Sub f c) T = (if filter_accepted f then insert (f, c) T else T)"
| "spec_op (Unsub f c) T = (if isWildcard f then T else T - {(f, c)})"
| "spec_op (UnsubAll c) T = {(f, d) \<in> T. d \<noteq> c}"
| "spec_op (Look t) T = T"

definition receivers :: "(string \<times> nat) set \<Rightarrow> string \<Rightarrow> nat set" where
  "receivers T t = {c. \<exists>f. (f, c) \<in> T \<and> topic_matches f t}"

locale subscription_table =
  fixes op :: "subop \<Rightarrow> 's \<Rightarrow> 's"
    and lookup :: "string \<Rightarrow> 's \<Rightarrow> nat set"
    and inv :: "'s \<Rightarrow> bool"
    and table :: "'s \<Rightarrow> (string \<times> nat) set"
  assumes inv_op: "inv s \<Longrightarrow> inv (op a s)"
    and table_op: "inv s \<Longrightarrow> table (op a s) = spec_op a (table s)"
    and lookup_receivers: "inv s \<Longrightarrow> lookup t s = receivers (table s) t"
begin

lemma runs_inv: "inv s \<Longrightarrow> inv (fold op as s)"
  by (induction as arbitrary: s) (simp_all add: inv_op)

lemma runs_table: "inv s \<Longrightarrow> table (fold op as s) = fold spec_op as (table s)"
  by (induction as arbitrary: s) (simp_all add: inv_op table_op)

lemma runs_lookup: "inv s \<Longrightarrow> lookup t (fold op as s) = receivers (fold spec_op as (table s)) t"
  by (simp add: runs_inv runs_table lookup_receivers)

text \<open>A connection that has been removed stays out until it subscribes again.\<close>

lemma gone_stays_gone:
  assumes "inv s" and "\<And>f. Sub f c \<notin> set as"
  shows "c \<notin> lookup t (fold op (UnsubAll c # as) s)"
proof -
  have "\<forall>f. (f, c) \<notin> fold spec_op as T" if "\<forall>f. (f, c) \<notin> T" for T
    using assms(2) that
  proof (induction as arbitrary: T)
    case (Cons a as)
    then have "\<forall>f. (f, c) \<notin> spec_op a T" by (cases a) auto
    with Cons show ?case by simp
  qed simp
  from this [of "spec_op (UnsubAll c) (table s)"] have
    "\<forall>f. (f, c) \<notin> fold spec_op as (spec_op (UnsubAll c) (table s))" by simp
  then show ?thesis
    using runs_lookup [OF assms(1), of t "UnsubAll c # as"] by (simp add: receivers_def)
qed

text \<open>A subscription is served from the moment it is made until its owner takes it back.\<close>

lemma subscribed_is_served:
  assumes "inv s" and "filter_accepted f" and "topic_matches f t"
    and "UnsubAll c \<notin> set as" and "isWildcard f \<or> Unsub f c \<notin> set as"
  shows "c \<in> lookup t (fold op (Sub f c # as) s)"
proof -
  have "(f, c) \<in> fold spec_op as T" if "(f, c) \<in> T" for T
    using assms(4,5) that
  proof (induction as arbitrary: T)
    case (Cons a as)
    then have "(f, c) \<in> spec_op a T" by (cases a) auto
    moreover from Cons.prems have "UnsubAll c \<notin> set as" "isWildcard f \<or> Unsub f c \<notin> set as" by auto
    ultimately have "(f, c) \<in> fold spec_op as (spec_op a T)" by (intro Cons.IH)
    then show ?case by simp
  qed simp
  then have "(f, c) \<in> table (fold op (Sub f c # as) s)"
    using assms(1,2) by (simp only: runs_table) simp
  with assms(1,3) show ?thesis
    by (simp only: lookup_receivers runs_inv) (auto simp: receivers_def)
qed

end

subsection \<open>The broker's table meets the contract\<close>

definition table_of :: "subscriptions \<Rightarrow> (string \<times> nat) set" where
  "table_of s = {(t, c). c \<in> exact s t} \<union>
     {(t, c). isWildcard t \<and> (\<exists>w \<in> set (wildcards s). wparts w = str_split t SLASH \<and> wconn w = Some c)}"

fun table_op :: "env \<Rightarrow> subop \<Rightarrow> subscriptions \<Rightarrow> subscriptions" where
  "table_op e (Sub f c) s = add_sub e f c s"
| "table_op e (Unsub f c) s = unsub f c s"
| "table_op e (UnsubAll c) s = unsubAll e c s"
| "table_op e (Look t) s = snd (subscribers e t s)"

text \<open>The connections a worker finds when it ranges over the slice \<^verbatim>\<open>subscribers\<close> returned.\<close>

definition lookup_conns :: "env \<Rightarrow> string \<Rightarrow> subscriptions \<Rightarrow> nat set" where
  "lookup_conns e t s =
     (case subscribers e t s of (res, s') \<Rightarrow> {c. Some c \<in> set (slice_list (sarrs s') res)})"

lemma exact_not_wild: "subs_wf s \<Longrightarrow> c \<in> exact s t \<Longrightarrow> \<not> isWildcard t"
  by (fastforce simp: exact_def entries_def subs_at_def subs_wf_def split: option.splits)

lemma table_op_wf: "subs_wf s \<Longrightarrow> subs_wf (table_op e a s)"
  by (cases a)
    (auto simp: add_sub_spec unsub_spec unsubAll_spec subscribers_spec(2) [OF _ surjective_pairing])

lemma exact_add: "subs_wf s \<Longrightarrow> exact (add_sub e f c s) t
    = (if t = f \<and> \<not> isWildcard f then insert c (exact s t) else exact s t)"
  by (auto simp: exact_def add_sub_spec(2))

lemma exact_unsubAll: "subs_wf s \<Longrightarrow> exact (unsubAll e c s) t = exact s t - {c}"
  by (auto simp: exact_def unsubAll_spec(2))

lemma exact_look: "subs_wf s \<Longrightarrow> exact (snd (subscribers e u s)) t = exact s t"
  by (simp add: exact_def subscribers_spec(3) [OF _ surjective_pairing])

lemma table_of_op:
  assumes wf: "subs_wf s"
  shows "table_of (table_op e a s) = spec_op a (table_of s)"
proof (cases a)
  case (Sub f c)
  with wf show ?thesis
    by (cases "isWildcard f")
      (auto simp: table_of_def exact_add add_sub_spec(3) filter_accepted_def newWild_def
        str_split_inject split: if_splits)
next
  case (Unsub f c)
  with wf show ?thesis
    by (auto simp: table_of_def unsub_spec dest: exact_not_wild split: if_splits)
next
  case (UnsubAll c)
  with wf show ?thesis
    by (auto simp: table_of_def exact_unsubAll unsubAll_spec(3))
next
  case (Look t)
  with wf show ?thesis
    by (simp add: table_of_def exact_look subscribers_spec(6) [OF _ surjective_pairing])
qed

lemma lookup_conns_receivers:
  assumes wf: "subs_wf s"
  shows "lookup_conns e t s = receivers (table_of s) t"
proof -
  obtain res s' where r: "subscribers e t s = (res, s')" by fastforce
  have w: "valid w \<and> (\<exists>u. isWildcard u \<and> wparts w = str_split u SLASH)" if "w \<in> set (wildcards s)" for w
    using wf that by (simp add: subs_wf_def)
  have "lookup_conns e t s = exact s t \<union>
      {c. \<exists>w \<in> set (wildcards s). filter_spec (wparts w) (str_split t SLASH) \<and> wconn w = Some c}"
    using w by (auto simp: lookup_conns_def r subscribers_spec(1) [OF wf r] exact_def image_iff
        matches_spec)
  also have "\<dots> = receivers (table_of s) t"
    using wf by (auto simp: receivers_def table_of_def topic_matches_def dest: exact_not_wild) (metis w)
  finally show ?thesis .
qed

interpretation tab: subscription_table "table_op e" "lookup_conns e" subs_wf table_of for e
  by unfold_locales (simp_all add: table_op_wf table_of_op lookup_conns_receivers)

lemma table_of_new [simp]: "table_of (newSubscriptions n) = {}"
  by (simp add: table_of_def newSubscriptions_def exact_def entries_def subs_at_def)


subsection \<open>Properties\<close>

text \<open>C5: the table implements its specification. Take any sequence of subscribing, unsubscribing,
  removing a connection and looking a topic up, on a new table, with any growth of the backing
  arrays and any order of the map iterations: the connections \<^verbatim>\<open>subscribers\<close> then returns for a
  topic are exactly those with an accepted filter that matches it in the set the same sequence
  builds. In particular no earlier lookup, although it appends to slices the map still holds,
  changes what a later lookup returns.\<close>

theorem subscriptions_refine_spec:
  "lookup_conns e t (fold (table_op e) as (newSubscriptions n)) = receivers (fold spec_op as {}) t"
  by (simp add: tab.runs_lookup)

text \<open>Once \<^verbatim>\<open>unsubAll\<close> has run for a connection, no sequence of operations by which it does
  not subscribe again brings it back: no topic is delivered to it.\<close>

theorem removed_connection_is_gone:
  assumes "\<And>f. Sub f c \<notin> set as"
  shows "c \<notin> lookup_conns e t (fold (table_op e) (bs @ UnsubAll c # as) (newSubscriptions n))"
  using tab.gone_stays_gone [where s = "fold (table_op e) bs (newSubscriptions n)", OF _ assms]
  by (simp add: tab.runs_inv)

theorem removed_connection_is_gone_witness:
  "7 \<notin> lookup_conns doubling_env ''a/b''
     (fold (table_op doubling_env)
        ([Sub ''a/b'' 7, Sub ''a/+'' 7] @ UnsubAll 7 # [Sub ''a/b'' 8, Look ''a/b'']) (newSubscriptions 4))"
  by (rule removed_connection_is_gone) simp

text \<open>A subscription is served: from the moment a connection adds an accepted filter, every
  later lookup of a matching topic returns the connection, as long as it is not removed as a
  whole and does not unsubscribe from that filter by name.\<close>

theorem subscription_is_served:
  assumes "filter_accepted f" and "topic_matches f t"
    and "UnsubAll c \<notin> set as" and "Unsub f c \<notin> set as"
  shows "c \<in> lookup_conns e t (fold (table_op e) (bs @ Sub f c # as) (newSubscriptions n))"
  using tab.subscribed_is_served [where s = "fold (table_op e) bs (newSubscriptions n)" and as = as] assms
  by (simp add: tab.runs_inv)

theorem subscription_is_served_witness:
  "7 \<in> lookup_conns doubling_env ''a/b''
     (fold (table_op doubling_env)
        ([Sub ''a/b'' 8] @ Sub ''a/+'' 7 # [Unsub ''a/b'' 8, Look ''a/b'']) (newSubscriptions 4))"
proof (rule subscription_is_served)
  show "filter_accepted ''a/+''" by code_simp
  show "topic_matches ''a/+'' ''a/b''" by code_simp
qed simp_all

text \<open>\<^verbatim>\<open>unsub\<close> has no effect on a wildcard subscription: a client that subscribed to a valid
  wildcard filter and unsubscribes from the same filter still receives every topic that
  matches it.\<close>

theorem wildcard_unsub_has_no_effect:
  assumes "isWildcard f" and "filter_accepted f" and "topic_matches f t"
  shows "c \<in> lookup_conns e t (table_op e (Unsub f c) (table_op e (Sub f c) (newSubscriptions n)))"
  using tab.subscribed_is_served [where s = "newSubscriptions n" and as = "[Unsub f c]"] assms by simp

theorem wildcard_unsub_has_no_effect_witness:
  "isWildcard ''a/#'' \<and> 7 \<in> lookup_conns doubling_env ''a/b'' (table_op doubling_env (Unsub ''a/#'' 7)
     (table_op doubling_env (Sub ''a/#'' 7) (newSubscriptions 4)))"
proof -
  have w: "isWildcard ''a/#''" by code_simp
  have "filter_accepted ''a/#''" "topic_matches ''a/#'' ''a/b''" by code_simp+
  from w wildcard_unsub_has_no_effect [OF w this] show ?thesis by blast
qed

text \<open>The slice \<^verbatim>\<open>subscribers\<close> returns is not the caller's own. With three subscribers of a topic
  in an array of four cells and one matching wildcard subscriber, the lookup puts the wildcard
  subscriber into the spare cell; a subscription to the topic that is added while the worker is
  still ranging over the slice overwrites it. The worker then delivers to the new subscriber, who
  subscribed after the lookup, and not to the wildcard subscriber, who should have been served.\<close>

theorem subscribers_slice_is_shared:
  "let s = fold (table_op doubling_env) [Sub ''a'' 1, Sub ''a'' 2, Sub ''a'' 3, Sub ''+'' 9] (newSubscriptions 4);
       (res, s') = subscribers doubling_env ''a'' s;
       s'' = add_sub doubling_env ''a'' 4 s'
   in slice_list (sarrs s') res = [Some 1, Some 2, Some 3, Some 9]
      \<and> slice_list (sarrs s'') res = [Some 1, Some 2, Some 3, Some 4]"
  by code_simp

end
