(* ===== verification/Config.thy ===== *)
theory Config
  imports Prelude
begin

section \<open>Configuration: \<^verbatim>\<open>config/*.go\<close>\<close>

text \<open>
  The configuration file is read by the package \<^verbatim>\<open>jsconf\<close>, which is not part of the
  repository: a section is the record \<open>conf\<close> of its typed lookups with a default, and
  \<open>LoadConfig\<close> takes the function that finds a section. Durations are nanoseconds. A section
  that is missing leaves the zero value.
\<close>

record conf =
  cfString :: "string \<Rightarrow> string \<Rightarrow> string"
  cfBool :: "string \<Rightarrow> bool \<Rightarrow> bool"
  cfInt :: "string \<Rightarrow> int \<Rightarrow> int"
  cfDuration :: "string \<Rightarrow> int \<Rightarrow> int"

definition Millisecond :: int where "Millisecond = 1000000"
definition Second :: int where "Second = 1000 * Millisecond"
definition Minute :: int where "Minute = 60 * Second"

definition BufferOverflowBlock :: string where
  "BufferOverflowBlock = ''block''"

definition BufferOverflowDiscard :: string where
  "BufferOverflowDiscard = ''discard''"

record BrokerConfig =
  ListenAddr :: string
  TlsListenAddr :: string
  TlsServerCert :: string
  TlsServerKey :: string
  EnablePresence :: bool
  StatsInterval :: int
  MaxConnections :: int
  IOTimeout :: int
  Echo :: bool
  BuffOverflowStrategy :: string
  StatsHttpListenAddr :: string
  ProfHttpListenAddr :: string
  AllowAnonymousConnect :: bool
  ClientOutboundQueueLen :: int
  ClientSlowThreshold :: int
  SubscriptionsWorkers :: int
  SubscriptionsQueueLen :: int
  ClientMaxSubscriptions :: int
  ClientMaxPublishPerMinute :: int

definition zero_broker :: BrokerConfig where
  "zero_broker = \<lparr>ListenAddr = '''', TlsListenAddr = '''', TlsServerCert = '''',
     TlsServerKey = '''', EnablePresence = False, StatsInterval = 0, MaxConnections = 0,
     IOTimeout = 0, Echo = False, BuffOverflowStrategy = '''', StatsHttpListenAddr = '''',
     ProfHttpListenAddr = '''', AllowAnonymousConnect = False, ClientOutboundQueueLen = 0,
     ClientSlowThreshold = 0, SubscriptionsWorkers = 0, SubscriptionsQueueLen = 0,
     ClientMaxSubscriptions = 0, ClientMaxPublishPerMinute = 0\<rparr>"

definition loadBroker :: "conf \<Rightarrow> BrokerConfig \<Rightarrow> BrokerConfig res" where
  "loadBroker cf this =
     (let tls = cfString cf ''tls_listen_addr'' '''';
          b = this\<lparr>
            ListenAddr := cfString cf ''listen_addr'' '''',
            TlsListenAddr := tls,
            TlsServerCert := (if tls \<noteq> '''' then cfString cf ''tls_server_cert'' ''server.crt''
                              else TlsServerCert this),
            TlsServerKey := (if tls \<noteq> '''' then cfString cf ''tls_server_key'' ''server.key''
                             else TlsServerKey this),
            EnablePresence := cfBool cf ''enable_presence'' False,
            StatsHttpListenAddr := cfString cf ''stats_http_listen_addr'' '''',
            StatsInterval := cfDuration cf ''stats_interval'' (10 * Minute),
            ProfHttpListenAddr := cfString cf ''prof_http_listen_addr'' '''',
            Echo := cfBool cf ''echo'' False,
            SubscriptionsWorkers := cfInt cf ''subscriptions_workers'' 10,
            SubscriptionsQueueLen := cfInt cf ''subscriptions_queue_len'' 500,
            AllowAnonymousConnect := cfBool cf ''allow_anonymous'' False,
            MaxConnections := cfInt cf ''max_connections'' 50000,
            IOTimeout := cfDuration cf ''io_timeout'' (Second * 5),
            ClientOutboundQueueLen := cfInt cf ''client_outbound_queue_len'' 100,
            ClientSlowThreshold := cfDuration cf ''client_slow_threshold'' (Millisecond * 100),
            BuffOverflowStrategy := cfString cf ''buffer_overflow_strategy'' BufferOverflowBlock,
            ClientMaxSubscriptions := cfInt cf ''client_max_subscriptions'' 20,
            ClientMaxPublishPerMinute := cfInt cf ''client_max_publish_per_minute'' 60\<rparr>
      in if ListenAddr b = '''' \<and> TlsListenAddr b = ''''
         then Panic (Raised ''Empty listen address and tls listen address'') b
         else Ret b)"

record PeersConfig =
  SelfId :: "16 word"
  PListenAddr :: string
  TcpNoDelay :: bool
  Keepalive :: bool
  IoTimeout :: int
  PEcho :: bool
  QueueLen :: int
  PBuffOverflowStrategy :: string

definition zero_peers :: PeersConfig where
  "zero_peers = \<lparr>SelfId = 0, PListenAddr = '''', TcpNoDelay = False, Keepalive = False,
     IoTimeout = 0, PEcho = False, QueueLen = 0, PBuffOverflowStrategy = ''''\<rparr>"

definition loadPeers :: "conf \<Rightarrow> PeersConfig \<Rightarrow> PeersConfig" where
  "loadPeers cf this = this\<lparr>
     SelfId := word_of_int (cfInt cf ''self_id'' 1),
     PListenAddr := cfString cf ''listen_addr'' '':9090'',
     Keepalive := cfBool cf ''keepalive'' True,
     TcpNoDelay := cfBool cf ''tcp_nodelay'' True,
     IoTimeout := cfDuration cf ''io_timeout'' (Second * 10),
     PEcho := cfBool cf ''echo'' False,
     QueueLen := cfInt cf ''queue_len'' 1000,
     PBuffOverflowStrategy := cfString cf ''buffer_overflow_strategy'' BufferOverflowBlock\<rparr>"

record RedisConfig =
  RServer :: string
  MaxIdle :: int
  IdleTimeout :: int

definition zero_redis :: RedisConfig where
  "zero_redis = \<lparr>RServer = '''', MaxIdle = 0, IdleTimeout = 0\<rparr>"

definition loadRedis :: "conf \<Rightarrow> RedisConfig \<Rightarrow> RedisConfig" where
  "loadRedis cf this = this\<lparr>
     RServer := cfString cf ''server'' '''',
     MaxIdle := cfInt cf ''max_idle'' 5,
     IdleTimeout := cfDuration cf ''idle_timeout'' (Second * 360)\<rparr>"

record Config =
  Broker :: BrokerConfig
  Peers :: PeersConfig
  Redis :: RedisConfig

definition zero_config :: Config where
  "zero_config = \<lparr>Broker = zero_broker, Peers = zero_peers, Redis = zero_redis\<rparr>"

definition LoadConfig :: "(string \<Rightarrow> conf option) \<Rightarrow> Config res" where
  "LoadConfig section =
     seqG
      [\<lambda>this. (case section ''broker'' of
                 Some cf \<Rightarrow> map_res (\<lambda>b. this\<lparr>Broker := b\<rparr>) (loadBroker cf zero_broker)
               | None \<Rightarrow> Ret this),
       \<lambda>this. (case section ''peers'' of
                 Some cf \<Rightarrow> Ret (this\<lparr>Peers := loadPeers cf zero_peers\<rparr>)
               | None \<Rightarrow> Ret this),
       \<lambda>this. (case section ''redis'' of
                 Some cf \<Rightarrow> Ret (this\<lparr>Redis := loadRedis cf zero_redis\<rparr>)
               | None \<Rightarrow> Ret this)]
      zero_config"

text \<open>A section that sets nothing: every lookup returns its default.\<close>

definition empty_section :: conf where
  "empty_section = \<lparr>cfString = (\<lambda>_ d. d), cfBool = (\<lambda>_ d. d), cfInt = (\<lambda>_ d. d),
     cfDuration = (\<lambda>_ d. d)\<rparr>"

lemma loadBroker_panics:
  "panics (loadBroker cf b) \<longleftrightarrow>
     cfString cf ''listen_addr'' '''' = '''' \<and> cfString cf ''tls_listen_addr'' '''' = ''''"
  by (auto simp: loadBroker_def Let_def)

lemma loadBroker_listens: "loadBroker cf b = Ret c \<Longrightarrow> ListenAddr c \<noteq> '''' \<or> TlsListenAddr c \<noteq> ''''"
  by (auto simp: loadBroker_def Let_def split: if_splits)


text \<open>Loading the configuration fails exactly when the file has a broker section in which
  neither listen address is set; otherwise the loaded broker section has an address to listen on.
  The other two sections never fail.\<close>

theorem LoadConfig_outcome:
  "(case section ''broker'' of
      Some cf \<Rightarrow>
        if cfString cf ''listen_addr'' '''' = '''' \<and> cfString cf ''tls_listen_addr'' '''' = ''''
        then panics (LoadConfig section)
        else (case LoadConfig section of
                Ret c \<Rightarrow> \<not> (ListenAddr (Broker c) = '''' \<and> TlsListenAddr (Broker c) = '''')
              | _ \<Rightarrow> False)
    | None \<Rightarrow> returns (LoadConfig section))"
  by (auto simp: LoadConfig_def loadBroker_def Let_def split: option.split)

end
