(* ===== verification/Presence.thy ===== *)
theory Presence
  imports Messages Config
begin

section \<open>Redis and presence: \<^verbatim>\<open>broker/redistore.go\<close>, \<^verbatim>\<open>broker/presence.go\<close>\<close>

text \<open>
  The redis client and \<^verbatim>\<open>msgpack\<close> are other packages: what the broker does to redis is the list
  of commands it issues, in order, and \<open>marshal\<close> (the bytes, and whether it failed) is an
  argument. Every method runs under the mutex of the store, so it is one step; errors are only
  logged and the command is issued all the same.
\<close>

type_synonym bytes = "8 word list"

datatype redis_cmd =
    SET string bytes
  | GET string
  | DEL string
  | EXPIRE string nat

text \<open>The pool of connections: how many it keeps idle, for how long, and the server it dials; \<open>dial\<close> and \<open>ping\<close>
  are what the client package and the server answer.\<close>

record RedisStore =
  poolMaxIdle :: int
  poolIdleTimeout :: int
  poolServer :: string

definition NewRedisStore :: "RedisConfig \<Rightarrow> RedisStore" where
  "NewRedisStore c = \<lparr>poolMaxIdle = MaxIdle c, poolIdleTimeout = IdleTimeout c, poolServer = RServer c\<rparr>"

definition pool_Dial :: "(string \<Rightarrow> string \<Rightarrow> 'e + 'c) \<Rightarrow> RedisStore \<Rightarrow> 'e + 'c" where
  "pool_Dial dial st =
     (case dial ''tcp'' (poolServer st) of
        Inl err \<Rightarrow> Inl err
      | Inr c \<Rightarrow> Inr c)"

definition pool_TestOnBorrow :: "('c \<Rightarrow> string \<Rightarrow> 'e option) \<Rightarrow> 'c \<Rightarrow> 'e option" where
  "pool_TestOnBorrow do_cmd c = do_cmd c ''PING''"

definition NewPresence :: "RedisConfig \<Rightarrow> RedisStore" where
  "NewPresence c = NewRedisStore c"

definition RStore :: "('v \<Rightarrow> bytes \<times> bool) \<Rightarrow> string \<Rightarrow> 'v \<Rightarrow> redis_cmd list \<Rightarrow> redis_cmd list" where
  "RStore marshal key val log = (case marshal val of (m, err) \<Rightarrow> log @ [SET key m])"

definition RGet :: "string \<Rightarrow> redis_cmd list \<Rightarrow> redis_cmd list" where
  "RGet key log = log @ [GET key]"

definition RDel :: "string \<Rightarrow> redis_cmd list \<Rightarrow> redis_cmd list" where
  "RDel key log = log @ [DEL key]"

definition RExpire :: "string \<Rightarrow> nat \<Rightarrow> redis_cmd list \<Rightarrow> redis_cmd list" where
  "RExpire key sec log = log @ [EXPIRE key sec]"

definition PRESENCE_KEY_PREFIX :: string where
  "PRESENCE_KEY_PREFIX = ''_pre:''"

definition CheckIn :: "(bool \<Rightarrow> bytes \<times> bool) \<Rightarrow> string \<Rightarrow> redis_cmd list \<Rightarrow> redis_cmd list" where
  "CheckIn marshal username log = RStore marshal (PRESENCE_KEY_PREFIX @ username) True log"

definition CheckOut :: "string \<Rightarrow> redis_cmd list \<Rightarrow> redis_cmd list" where
  "CheckOut username log = RDel (PRESENCE_KEY_PREFIX @ username) log"

text \<open>What redis holds after a list of commands: the documented effect of SET and DEL on the
  key space.\<close>

fun redis_exec :: "redis_cmd \<Rightarrow> (string \<rightharpoonup> bytes) \<Rightarrow> (string \<rightharpoonup> bytes)" where
  "redis_exec (SET k v) db = db(k \<mapsto> v)"
| "redis_exec (DEL k) db = db(k := None)"
| "redis_exec _ db = db"

definition online :: "redis_cmd list \<Rightarrow> string \<Rightarrow> bool" where
  "online log u \<longleftrightarrow> fold redis_exec log (\<lambda>_. None) (PRESENCE_KEY_PREFIX @ u) \<noteq> None"

lemma online_CheckIn: "online (CheckIn ms u log) v \<longleftrightarrow> v = u \<or> online log v"
  by (auto simp: online_def CheckIn_def RStore_def split: prod.split)

lemma online_CheckOut: "online (CheckOut u log) v \<longleftrightarrow> v \<noteq> u \<and> online log v"
  by (auto simp: online_def CheckOut_def RDel_def)


subsection \<open>Properties\<close>

text \<open>The redis commands of a sequence of sessions opening (\<open>True\<close>) and closing (\<open>False\<close>).\<close>

definition presence_log :: "(bool \<Rightarrow> bytes \<times> bool) \<Rightarrow> (string \<times> bool) list \<Rightarrow> redis_cmd list" where
  "presence_log marshal evs =
     fold (\<lambda>(u, up) log. if up then CheckIn marshal u log else CheckOut u log) evs []"

lemma presence_log_snoc:
  "presence_log ms (evs @ [(u, up)])
   = (if up then CheckIn ms u (presence_log ms evs) else CheckOut u (presence_log ms evs))"
  by (simp add: presence_log_def)


end
