(* ===== verification/Stats.thy ===== *)
theory Stats
  imports Messages
begin

section \<open>Counters: \<^verbatim>\<open>broker/stats.go\<close>\<close>

text \<open>
  The counters are int64 values changed with \<^verbatim>\<open>atomic.AddInt64\<close>, which wraps around; they are
  \<open>64 word\<close> here and \<^verbatim>\<open>Clients\<close> reads one as a signed number. Each method is one atomic step
  (\<^verbatim>\<open>clientConnect\<close> is two additions; no other code reads the two counters together).
  \<open>stats_tick\<close> is the arithmetic of one round of the reporting loop: its two divisions panic
  when the interval is below one second and when no garbage collection has run yet.
\<close>

type_synonym int64 = "64 word"

record stats =
  interval :: int
  statsListenAddr :: string
  profListenAddr :: string
  topicsN :: int64
  replBytes :: int64
  inBytes :: int64
  outBytes :: int64
  replN :: int64
  recvN :: int64
  sentN :: int64
  sessionsN :: int64
  abortsN :: int64
  clientsN :: int64
  peersN :: int64

definition new_stats :: "int \<Rightarrow> string \<Rightarrow> string \<Rightarrow> stats" where
  "new_stats i s p = \<lparr>interval = i, statsListenAddr = s, profListenAddr = p, topicsN = 0,
     replBytes = 0, inBytes = 0, outBytes = 0, replN = 0, recvN = 0, sentN = 0, sessionsN = 0,
     abortsN = 0, clientsN = 0, peersN = 0\<rparr>"

definition addIn :: "env \<Rightarrow> publish message \<Rightarrow> stats \<Rightarrow> stats" where
  "addIn e m st = st\<lparr>inBytes := inBytes st + word_of_int (MsgBytes e m)\<rparr>"

definition addOut :: "env \<Rightarrow> publish message \<Rightarrow> stats \<Rightarrow> stats" where
  "addOut e m st = st\<lparr>outBytes := outBytes st + word_of_int (MsgBytes e m)\<rparr>"

definition addRepl :: "env \<Rightarrow> publish message \<Rightarrow> stats \<Rightarrow> stats" where
  "addRepl e m st = st\<lparr>replBytes := replBytes st + word_of_int (MsgBytes e m)\<rparr>"

definition aborted :: "stats \<Rightarrow> stats" where
  "aborted st = st\<lparr>abortsN := abortsN st + 1\<rparr>"

definition replicated :: "stats \<Rightarrow> stats" where
  "replicated st = st\<lparr>replN := replN st + 1\<rparr>"

definition messageRecv :: "stats \<Rightarrow> stats" where
  "messageRecv st = st\<lparr>recvN := recvN st + 1\<rparr>"

definition messageSend :: "stats \<Rightarrow> stats" where
  "messageSend st = st\<lparr>sentN := sentN st + 1\<rparr>"

definition clientConnect :: "stats \<Rightarrow> stats" where
  "clientConnect st = st\<lparr>clientsN := clientsN st + 1, sessionsN := sessionsN st + 1\<rparr>"

definition clientDisconnect :: "stats \<Rightarrow> stats" where
  "clientDisconnect st = st\<lparr>clientsN := clientsN st + -1\<rparr>"

definition peerConnect :: "stats \<Rightarrow> stats" where
  "peerConnect st = st\<lparr>peersN := peersN st + 1\<rparr>"

definition peerDisconnect :: "stats \<Rightarrow> stats" where
  "peerDisconnect st = st\<lparr>peersN := peersN st + -1\<rparr>"

definition Clients :: "stats \<Rightarrow> int" where
  "Clients st = sint (clientsN st)"

lemmas stats_defs = addIn_def addOut_def addRepl_def aborted_def replicated_def messageRecv_def
  messageSend_def clientConnect_def clientDisconnect_def peerConnect_def peerDisconnect_def

text \<open>\<^verbatim>\<open>String\<close>: \<^verbatim>\<open>%d\<close> of an int64.\<close>

definition itoa64 :: "int64 \<Rightarrow> string" where
  "itoa64 w = (if sint w < 0 then CHR ''-'' # itoa (nat (- sint w)) else itoa (nat (sint w)))"

definition stats_String :: "stats \<Rightarrow> string" where
  "stats_String st =
     ''{recv:'' @ itoa64 (recvN st) @ '', repl:'' @ itoa64 (replN st) @ ''/'' @ itoa64 (peersN st)
     @ '', sent:'' @ itoa64 (sentN st) @ ''/'' @ itoa64 (clientsN st)
     @ '', sess:'' @ itoa64 (sessionsN st) @ '', abort:'' @ itoa64 (abortsN st) @ ''}''"

text \<open>One round of the loop of \<^verbatim>\<open>start\<close>. \<open>numGC\<close> and \<open>pauseNs\<close> are what the runtime reports. The
  interval is truncated to seconds; Go's integer division truncates towards zero and panics on
  a zero divisor (\<open>None\<close>). The results are the throughput, the mean pause and the new value of
  \<^verbatim>\<open>lastPackets\<close>.\<close>

definition trunc_div :: "int \<Rightarrow> int \<Rightarrow> int" where
  "trunc_div a b = sgn a * sgn b * (\<bar>a\<bar> div \<bar>b\<bar>)"

definition interval_seconds :: "stats \<Rightarrow> int" where
  "interval_seconds st = trunc_div (interval st) 1000000000"

definition stats_tick ::
  "nat \<Rightarrow> nat \<Rightarrow> int64 \<Rightarrow> stats \<Rightarrow> (int64 \<times> nat \<times> int64) option" where
  "stats_tick pauseNs numGC lastPackets st =
     (let totalPackets = recvN st + sentN st in
      if interval_seconds st = 0 then None
      else let throughput = word_of_int (trunc_div (sint (totalPackets - lastPackets))
                              (interval_seconds st));
               den = (1000 * 1000 * numGC) mod 2 ^ 64
           in if den = 0 then None
              else Some (throughput, pauseNs div den + 1, totalPackets))"

lemma sint64_of_int: "- (2 ^ 63) \<le> n \<Longrightarrow> n < 2 ^ 63 \<Longrightarrow> sint (word_of_int n :: 64 word) = n"
  by (simp add: signed_of_int signed_take_bit_int_eq_self)

lemma clients_count:
  "clientsN (fold (\<lambda>up st. if up then clientConnect st else clientDisconnect st) ups st)
   = clientsN st + word_of_int (int (length (filter id ups)) - int (length (filter (\<lambda>u. \<not> u) ups)))"
  by (induction ups arbitrary: st) (auto simp: clientConnect_def clientDisconnect_def)


subsection \<open>Properties\<close>

text \<open>C40: \<^verbatim>\<open>Clients\<close>, which the limit on connections reads, is the number of connections opened
  minus the number closed, for any interleaving of fewer than \<open>2 ^ 63\<close> of them.\<close>

theorem Clients_is_the_balance:
  assumes "length ups < 2 ^ 63"
  shows "Clients (fold (\<lambda>up st. if up then clientConnect st else clientDisconnect st) ups (new_stats i s p))
       = int (length (filter id ups)) - int (length (filter (\<lambda>u. \<not> u) ups))"
proof -
  let ?n = "int (length (filter id ups)) - int (length (filter (\<lambda>u. \<not> u) ups))"
  have "int (length (filter id ups)) \<le> int (length ups)"
    "int (length (filter (\<lambda>u. \<not> u) ups)) \<le> int (length ups)" by simp_all
  moreover have "int (length ups) < 2 ^ 63" using assms by simp
  ultimately have "- (2 ^ 63) \<le> ?n" "?n < 2 ^ 63" by linarith+
  then have "sint (word_of_int ?n :: 64 word) = ?n" by (rule sint64_of_int)
  then show ?thesis unfolding Clients_def clients_count by (simp add: new_stats_def)
qed

theorem Clients_is_the_balance_witness:
  "Clients (fold (\<lambda>up st. if up then clientConnect st else clientDisconnect st) [True, True, False]
     (new_stats 0 '''' '''')) = int (length (filter id [True, True, False]))
       - int (length (filter (\<lambda>u. \<not> u) [True, True, False]))"
  by (rule Clients_is_the_balance) simp

text \<open>A round of the reporting loop panics (division by zero) exactly when the configured
  interval is shorter than a second or no garbage collection has happened since the start;
  the number of collections is a 32 bit counter.\<close>

theorem stats_tick_panics_iff:
  assumes "numGC < 2 ^ 32"
  shows "stats_tick pauseNs numGC lastPackets st = None \<longleftrightarrow> \<bar>interval st\<bar> < 1000000000 \<or> numGC = 0"
proof -
  have "interval_seconds st = 0 \<longleftrightarrow> \<bar>interval st\<bar> div 1000000000 = 0"
    by (auto simp: interval_seconds_def trunc_div_def sgn_if)
  also have "\<dots> \<longleftrightarrow> \<bar>interval st\<bar> < 1000000000"
    by (auto simp: pos_imp_zdiv_nonneg_iff zdiv_eq_0_iff)
  finally have 1: "interval_seconds st = 0 \<longleftrightarrow> \<bar>interval st\<bar> < 1000000000" .
  have "1000 * 1000 * numGC < 2 ^ 64" using assms by simp
  then have "(1000 * 1000 * numGC) mod 2 ^ 64 = 1000 * 1000 * numGC" by (rule mod_less)
  with 1 show ?thesis by (simp add: stats_tick_def Let_def)
qed

theorem stats_tick_panics_iff_witness:
  "(stats_tick 5 0 0 (new_stats 60000000000 '''' '''') = None
     \<longleftrightarrow> \<bar>interval (new_stats 60000000000 '''' '''')\<bar> < 1000000000 \<or> (0::nat) = 0)
   \<and> stats_tick 5 0 0 (new_stats 60000000000 '''' '''') = None"
  using stats_tick_panics_iff [of 0 5 0 "new_stats 60000000000 '''' ''''"] by simp

end
