(* ===== verification/Endpoint.thy ===== *)
theory Endpoint
  imports Messages Config Stats
begin

section \<open>The outbound side of a peer: \<^verbatim>\<open>broker/endpoint.go\<close>\<close>

text \<open>
  An endpoint queues the messages for one other broker and a goroutine runs \<^verbatim>\<open>start\<close>: sessions,
  one after the other, each of which dials, then ranges over the queue. \<open>epc\<close> is the place of
  that goroutine. \<open>ep_step\<close> is one step of it; its argument is what the network does (whether
  the dial or the write succeeds).
\<close>

datatype epc = Dialing | Ranging | Stopped

record endpoint =
  ehost :: string
  ecf :: PeersConfig
  ejobs :: "job chan"
  ealive :: bool
  running :: bool
  epos :: epc

definition newEndpoint :: "string \<Rightarrow> PeersConfig \<Rightarrow> panic + endpoint" where
  "newEndpoint host cf =
     (if QueueLen cf < 0 then Inl NegativeMakeChan
      else Inr \<lparr>ehost = host, ecf = cf, ejobs = make_chan (nat (QueueLen cf)), ealive = True,
                running = True, epos = Dialing\<rparr>)"

definition ep_stop :: "endpoint \<Rightarrow> endpoint" where
  "ep_stop this = this\<lparr>running := False\<rparr>"

definition ep_submit :: "ptr message \<Rightarrow> endpoint \<Rightarrow> endpoint res" where
  "ep_submit m this =
     (if \<not> ealive this then Ret this
      else if PBuffOverflowStrategy (ecf this) = BufferOverflowBlock
      then map_res (\<lambda>ch. this\<lparr>ejobs := ch\<rparr>) (chan_send \<lparr>jm = m, jr = None\<rparr> (ejobs this))
      else map_res (\<lambda>ch. this\<lparr>ejobs := ch\<rparr>) (chan_trysend \<lparr>jm = m, jr = None\<rparr> (ejobs this)))"

text \<open>The deferred function of \<^verbatim>\<open>runSession\<close>; the loop of \<^verbatim>\<open>start\<close> goes on from there.\<close>

definition session_exit :: "endpoint \<Rightarrow> endpoint res" where
  "session_exit this =
     map_res (\<lambda>ch. this\<lparr>ealive := False, ejobs := ch, epos := Dialing\<rparr>) (chan_close (ejobs this))"

record ep_state =
  ep :: endpoint
  estats :: stats
  ewire :: "publish message list"

definition ep_step :: "env \<Rightarrow> pubheap \<Rightarrow> bool \<Rightarrow> ep_state \<Rightarrow> ep_state res" where
  "ep_step e h ok s =
     (let this = ep s in
      case epos this of
        Stopped \<Rightarrow> Ret s
      | Dialing \<Rightarrow>
          if \<not> running this then Ret (s\<lparr>ep := this\<lparr>epos := Stopped\<rparr>\<rparr>)
          else if \<not> ok then map_res (\<lambda>p. s\<lparr>ep := p\<rparr>) (session_exit this)
          else Ret (s\<lparr>ep := this\<lparr>ealive := True, epos := Ranging\<rparr>\<rparr>)
      | Ranging \<Rightarrow>
          (case chan_recv (ejobs this) of
             None \<Rightarrow> Block s
           | Some (None, ch) \<Rightarrow> map_res (\<lambda>p. s\<lparr>ep := p\<rparr>) (session_exit this)
           | Some (Some j, ch) \<Rightarrow>
               let m = snapshot h (jm j); this' = this\<lparr>ejobs := ch\<rparr> in
               if \<not> ok then map_res (\<lambda>p. s\<lparr>ep := p\<rparr>) (session_exit this')
               else Ret (s\<lparr>ep := this', estats := addRepl e m (replicated (estats s)),
                          ewire := ewire s @ [m]\<rparr>)))"

fun ep_run :: "env \<Rightarrow> pubheap \<Rightarrow> bool list \<Rightarrow> ep_state \<Rightarrow> ep_state res" where
  "ep_run e h [] s = Ret s"
| "ep_run e h (ok # oks) s = bindG (ep_step e h ok s) (ep_run e h oks)"

subsection \<open>The queue of an endpoint\<close>

definition ep_blocking :: "endpoint \<Rightarrow> bool" where
  "ep_blocking p \<longleftrightarrow> PBuffOverflowStrategy (ecf p) = BufferOverflowBlock"

interpretation epq: outbound_queue ep_submit ealive ep_blocking "\<lambda>p. closed (ejobs p)"
    "\<lambda>p. map jm (buf (ejobs p))" "\<lambda>p. ccap (ejobs p)"
  by unfold_locales (auto simp: ep_submit_def ep_blocking_def chan_send_def chan_trysend_def)

subsection \<open>Sessions\<close>

lemma session_exit_closed: "closed (ejobs p) \<Longrightarrow> panics (session_exit p)"
  by (simp add: session_exit_def chan_close_def)

lemma ep_step_stays_closed:
  "closed (ejobs (ep s)) \<Longrightarrow> ep_step e h ok s = Ret t \<Longrightarrow> closed (ejobs (ep t))"
  by (auto simp: ep_step_def Let_def chan_recv_def session_exit_def chan_close_def
      split: epc.splits if_splits list.splits)

text \<open>The first session ends normally and leaves the queue closed.\<close>

lemma first_session_ends:
  "\<not> closed (ejobs p) \<Longrightarrow> \<exists>q. session_exit p = Ret q \<and> closed (ejobs q) \<and> \<not> ealive q \<and> epos q = Dialing"
  by (simp add: session_exit_def chan_close_def)

text \<open>From then on the goroutine runs into a panic: the number of steps to it.\<close>

definition steps_left :: "endpoint \<Rightarrow> nat" where
  "steps_left p = length (buf (ejobs p)) + (if epos p = Dialing then 2 else 1)"

lemma ep_step_closed:
  assumes "closed (ejobs (ep s))" "running (ep s)" "epos (ep s) \<noteq> Stopped"
  shows "panics (ep_step e h ok s) \<or>
    (\<exists>t. ep_step e h ok s = Ret t \<and> closed (ejobs (ep t)) \<and> running (ep t) \<and> epos (ep t) \<noteq> Stopped
       \<and> Suc (steps_left (ep t)) = steps_left (ep s))"
  using assms
  by (auto simp: ep_step_def Let_def chan_recv_def session_exit_closed steps_left_def
      split: epc.splits list.splits)

lemma ep_run_panics:
  assumes "closed (ejobs (ep s))" "running (ep s)" "epos (ep s) \<noteq> Stopped"
    and "steps_left (ep s) \<le> length oks"
  shows "panics (ep_run e h oks s)"
  using assms
proof (induction oks arbitrary: s)
  case Nil
  then show ?case by (simp add: steps_left_def split: if_splits)
next
  case (Cons ok oks)
  from ep_step_closed [OF Cons.prems(1-3), of e h ok] show ?case
  proof
    assume "panics (ep_step e h ok s)"
    then show ?thesis by (auto simp: panics_iff)
  next
    assume "\<exists>t. ep_step e h ok s = Ret t \<and> closed (ejobs (ep t)) \<and> running (ep t)
      \<and> epos (ep t) \<noteq> Stopped \<and> Suc (steps_left (ep t)) = steps_left (ep s)"
    then obtain t where t: "ep_step e h ok s = Ret t" "closed (ejobs (ep t))" "running (ep t)"
      "epos (ep t) \<noteq> Stopped" "Suc (steps_left (ep t)) = steps_left (ep s)" by blast
    from t Cons.prems(4) have "panics (ep_run e h oks t)" by (intro Cons.IH) simp_all
    with t(1) show ?thesis by simp
  qed
qed


text \<open>While the peer takes everything, a session writes what is queued in order.\<close>

lemma ep_run_forwards:
  assumes "epos (ep s) = Ranging" and "buf (ejobs (ep s)) = js"
  shows "\<exists>t. ep_run e h (map (\<lambda>_. True) js) s = Ret t \<and> epos (ep t) = Ranging \<and> buf (ejobs (ep t)) = []
    \<and> ewire t = ewire s @ map (\<lambda>j. snapshot h (jm j)) js
    \<and> replN (estats t) = replN (estats s) + of_nat (length js)"
  using assms
proof (induction js arbitrary: s)
  case (Cons j js)
  let ?s = "s\<lparr>ep := (ep s)\<lparr>ejobs := (ejobs (ep s))\<lparr>buf := js\<rparr>\<rparr>,
    estats := addRepl e (snapshot h (jm j)) (replicated (estats s)),
    ewire := ewire s @ [snapshot h (jm j)]\<rparr>"
  have "ep_step e h True s = Ret ?s"
    using Cons.prems by (simp add: ep_step_def Let_def chan_recv_def)
  moreover obtain t where "ep_run e h (map (\<lambda>_. True) js) ?s = Ret t" "epos (ep t) = Ranging"
    "buf (ejobs (ep t)) = []" "ewire t = ewire ?s @ map (\<lambda>j. snapshot h (jm j)) js"
    "replN (estats t) = replN (estats ?s) + of_nat (length js)"
    using Cons.IH [of ?s] Cons.prems by auto
  ultimately show ?case
    by (auto simp: addRepl_def replicated_def)
qed simp

subsection \<open>Properties\<close>

text \<open>A connected endpoint forwards what is queued for its peer in order and loses nothing:
  as long as the writes succeed, after one round per queued message the queue is empty, exactly
  the queued messages have been written, oldest first, and the counter of replicated messages has
  grown by their number.\<close>

theorem endpoint_forwards_in_order:
  assumes "epos (ep s) = Ranging"
  shows "\<exists>t. ep_run e h (map (\<lambda>_. True) (buf (ejobs (ep s)))) s = Ret t \<and> buf (ejobs (ep t)) = []
    \<and> ewire t = ewire s @ map (\<lambda>j. snapshot h (jm j)) (buf (ejobs (ep s)))
    \<and> replN (estats t) = replN (estats s) + of_nat (length (buf (ejobs (ep s))))"
  using ep_run_forwards [OF assms refl, of e h] by blast

definition example_endpoint :: "epc \<Rightarrow> bool \<Rightarrow> job list \<Rightarrow> ep_state" where
  "example_endpoint pos shut js =
     \<lparr>ep = \<lparr>ehost = ''peer:9090'', ecf = loadPeers empty_section zero_peers,
             ejobs = \<lparr>buf = js, ccap = 1000, closed = shut\<rparr>, ealive = \<not> shut, running = True, epos = pos\<rparr>,
      estats = new_stats 0 '''' '''', ewire = []\<rparr>"

theorem endpoint_forwards_in_order_witness:
  "\<exists>t. ep_run doubling_env empty_pubheap (map (\<lambda>_. True) (buf (ejobs (ep (example_endpoint Ranging False
         [\<lparr>jm = PingReq, jr = None\<rparr>, \<lparr>jm = PingResp, jr = None\<rparr>])))))
       (example_endpoint Ranging False [\<lparr>jm = PingReq, jr = None\<rparr>, \<lparr>jm = PingResp, jr = None\<rparr>]) = Ret t
    \<and> ewire t = [PingReq, PingResp]"
  using endpoint_forwards_in_order
    [of "example_endpoint Ranging False [\<lparr>jm = PingReq, jr = None\<rparr>, \<lparr>jm = PingResp, jr = None\<rparr>]" doubling_env empty_pubheap]
  by (auto simp: example_endpoint_def snapshot_def)

text \<open>C38: an endpoint does not survive the end of a session. The end of the first session, be it
  a refused dial or a failed write, closes the queue, and the next session closes it again: whatever
  the network does, after at most as many further rounds as there are queued messages, plus two, the
  broker has panicked.\<close>

theorem endpoint_second_session_panics:
  assumes "ep_step e h False s = Ret t" and "running (ep s)" and "epos (ep s) \<noteq> Stopped"
    and "\<not> closed (ejobs (ep s))"
    and "length (buf (ejobs (ep s))) + 2 \<le> length oks"
  shows "panics (ep_run e h oks t)"
proof -
  from assms have "closed (ejobs (ep t)) \<and> running (ep t) \<and> epos (ep t) = Dialing
      \<and> length (buf (ejobs (ep t))) \<le> length (buf (ejobs (ep s)))"
    by (auto simp: ep_step_def Let_def chan_recv_def session_exit_def chan_close_def
        split: epc.splits list.splits)
  with assms(5) show ?thesis
    by (intro ep_run_panics) (auto simp: steps_left_def)
qed

theorem endpoint_second_session_panics_witness:
  "\<exists>t. ep_step doubling_env empty_pubheap False (example_endpoint Dialing False []) = Ret t
     \<and> panics (ep_run doubling_env empty_pubheap [True, False] t)"
proof -
  obtain t where t: "ep_step doubling_env empty_pubheap False (example_endpoint Dialing False []) = Ret t"
    by (simp add: ep_step_def example_endpoint_def session_exit_def chan_close_def)
  from endpoint_second_session_panics [OF t, of "[True, False]"] t show ?thesis
    by (simp add: example_endpoint_def)
qed

text \<open>The queue of an endpoint under the strategy \<^verbatim>\<open>discard\<close>: submitting a batch never blocks
  and never panics while the endpoint is up, and exactly the messages that fit are queued, in
  order; the tail is dropped.\<close>

theorem endpoint_queue_drops_the_tail:
  assumes "ealive p" and "\<not> closed (ejobs p)" and "PBuffOverflowStrategy (ecf p) \<noteq> BufferOverflowBlock"
    and "length (buf (ejobs p)) \<le> ccap (ejobs p)"
  shows "\<exists>q. forG ms ep_submit p = Ret q
    \<and> map jm (buf (ejobs q)) = map jm (buf (ejobs p)) @ take (ccap (ejobs p) - length (buf (ejobs p))) ms"
  using epq.discard_batch [of p ms] assms by (simp add: ep_blocking_def)

theorem endpoint_queue_drops_the_tail_witness:
  "\<exists>q. forG [PingReq, PingResp] ep_submit
         ((ep (example_endpoint Ranging False []))\<lparr>ecf := zero_peers, ejobs := make_chan 1\<rparr>) = Ret q
     \<and> map jm (buf (ejobs q)) = [PingReq]"
  using endpoint_queue_drops_the_tail
    [of "(ep (example_endpoint Ranging False []))\<lparr>ecf := zero_peers, ejobs := make_chan 1\<rparr>" "[PingReq, PingResp]"]
  by (simp add: example_endpoint_def zero_peers_def BufferOverflowBlock_def make_chan_def)

end
