(* ===== verification/Session.thy ===== *)
theory Session
  imports Store Subs Presence Endpoint
begin

section \<open>Connections and the state of the broker: \<^verbatim>\<open>broker/session.go\<close>, \<^verbatim>\<open>broker/global.go\<close>\<close>

text \<open>
  \<open>incomingConn\<close> is the struct of a client connection. Its fields that are channels used only to
  be closed (\<^verbatim>\<open>stopChan\<close>, \<^verbatim>\<open>heartbeatStop\<close>) are booleans; the socket is whether it is closed and
  what has been written to it; of the leaky bucket (the package \<^verbatim>\<open>ratelimiter\<close>) only the
  size it was made with is kept; \<open>inpos\<close> and \<open>outpos\<close> are the places of the goroutines
  \<^verbatim>\<open>inboundLoop\<close> and \<^verbatim>\<open>outboundLoop\<close>, \<open>heartbeats\<close> the keep-alive periods of the
  \<^verbatim>\<open>heartbeat\<close> goroutines that are ticking and \<open>kicks\<close> the receipts those that have fired wait
  for.

  \<open>world\<close> is everything the goroutines share: configuration, connections by address, the
  package variables \<^verbatim>\<open>clients\<close> and \<^verbatim>\<open>clientStores\<close>, the message heap, the subscription table and
  its workers, the counters, the peers, the receipts that have been closed and the commands
  sent to redis. A method of a connection takes the address of the connection.
\<close>

datatype inpos =
    InLoop
  | InWait connect ReturnCode nat receipt
  | InDone

datatype outpos = OutLoop | OutCleanup | OutDone

record incomingConn =
  flag :: "connect option"
  alive :: bool
  connectedAt :: int
  lastOpTime :: int
  stopClosed :: bool
  jobs :: "job chan"
  heartbeatStopClosed :: bool
  cstore :: "nat option"
  subN :: int
  bucketSize :: "16 word"
  sockClosed :: bool
  wire :: "publish message list"
  heartbeats :: "int list"
  kicks :: "receipt list"
  inpos :: inpos
  outpos :: outpos

datatype wpos = WIdle | WDeliver ptr slice nat bool | WExited

record world =
  cf :: Config
  env :: env
  marshalBool :: "bool \<Rightarrow> bytes \<times> bool"
  conns :: "nat \<Rightarrow> incomingConn"
  nconns :: nat
  clients :: "string \<rightharpoonup> nat"
  cstores :: client_stores
  heap :: pubheap
  table :: subscriptions
  workers :: "wpos list"
  stats :: stats
  nodes :: "(string, endpoint) gomap"
  receiptClosed :: "receipt \<Rightarrow> bool"
  nreceipts :: nat
  redis :: "redis_cmd list"

definition upd_conn :: "nat \<Rightarrow> (incomingConn \<Rightarrow> incomingConn) \<Rightarrow> world \<Rightarrow> world" where
  "upd_conn c f w = w\<lparr>conns := (conns w)(c := f (conns w c))\<rparr>"

definition upd_stats :: "(stats \<Rightarrow> stats) \<Rightarrow> world \<Rightarrow> world" where
  "upd_stats f w = w\<lparr>stats := f (stats w)\<rparr>"

definition upd_table :: "(subscriptions \<Rightarrow> subscriptions) \<Rightarrow> world \<Rightarrow> world" where
  "upd_table f w = w\<lparr>table := f (table w)\<rparr>"

subsection \<open>Methods of a connection\<close>

definition connected :: "nat \<Rightarrow> world \<Rightarrow> bool" where
  "connected c w \<longleftrightarrow> flag (conns w c) \<noteq> None"

text \<open>\<^verbatim>\<open>onTerminate\<close>: the user name is read before the check that there was a CONNECT.\<close>

definition onTerminate :: "nat \<Rightarrow> world \<Rightarrow> world res" where
  "onTerminate c w =
     (if EnablePresence (Broker (cf w)) then
        case flag (conns w c) of
          None \<Rightarrow> Panic NilDeref w
        | Some m \<Rightarrow>
            if Username m \<noteq> '''' \<and> connected c w
            then Ret (w\<lparr>redis := CheckOut (Username m) (redis w)\<rparr>) else Ret w
      else Ret w)"

definition refreshOpTime :: "int \<Rightarrow> nat \<Rightarrow> world \<Rightarrow> world" where
  "refreshOpTime now c w = upd_conn c (\<lambda>this. this\<lparr>lastOpTime := now\<rparr>) w"

definition stop :: "nat \<Rightarrow> world \<Rightarrow> world res" where
  "stop c w =
     (let w1 = upd_stats aborted w in
      if stopClosed (conns w1 c) then Panic CloseOfClosed w1
      else Ret (upd_conn c (\<lambda>this. this\<lparr>stopClosed := True\<rparr>) w1))"

text \<open>\<^verbatim>\<open>add\<close>: the connection already registered under the client id, if there is one.\<close>

definition add_client :: "nat \<Rightarrow> world \<Rightarrow> panic + (nat option \<times> world)" where
  "add_client c w =
     (case flag (conns w c) of
        None \<Rightarrow> Inl NilDeref
      | Some m \<Rightarrow>
          (case clients w (ClientId m) of
             Some existing \<Rightarrow> Inr (Some existing, w)
           | None \<Rightarrow> Inr (None, w\<lparr>clients := (clients w)(ClientId m \<mapsto> c)\<rparr>)))"

definition del :: "nat \<Rightarrow> world \<Rightarrow> world" where
  "del c w =
     (case flag (conns w c) of
        None \<Rightarrow> w
      | Some m \<Rightarrow> w\<lparr>clients := (clients w)(ClientId m := None)\<rparr>)"

definition submit :: "nat \<Rightarrow> ptr message \<Rightarrow> world \<Rightarrow> world res" where
  "submit c m w =
     (let this = conns w c in
      if \<not> alive this then Ret w
      else if BuffOverflowStrategy (Broker (cf w)) = BufferOverflowBlock
      then map_res (\<lambda>ch. upd_conn c (\<lambda>this. this\<lparr>jobs := ch\<rparr>) w)
             (chan_send \<lparr>jm = m, jr = None\<rparr> (jobs this))
      else map_res (\<lambda>ch. upd_conn c (\<lambda>this. this\<lparr>jobs := ch\<rparr>) w)
             (chan_trysend \<lparr>jm = m, jr = None\<rparr> (jobs this)))"

text \<open>\<^verbatim>\<open>submitSync\<close> makes a receipt (its number is \<open>nreceipts\<close> before the call).\<close>

definition submitSync :: "nat \<Rightarrow> ptr message \<Rightarrow> world \<Rightarrow> world res" where
  "submitSync c m w =
     (let w1 = w\<lparr>nreceipts := Suc (nreceipts w)\<rparr> in
      map_res (\<lambda>ch. upd_conn c (\<lambda>this. this\<lparr>jobs := ch\<rparr>) w1)
        (chan_send \<lparr>jm = m, jr = Some (nreceipts w)\<rparr> (jobs (conns w1 c))))"

text \<open>\<^verbatim>\<open>String\<close>, given the remote address of the socket.\<close>

definition conn_String :: "string \<Rightarrow> incomingConn \<Rightarrow> string" where
  "conn_String remote this =
     (case flag this of None \<Rightarrow> remote | Some m \<Rightarrow> ClientId m @ ''@'' @ remote)"

subsection \<open>Calls to the store of a connection\<close>

definition store_of :: "nat \<Rightarrow> world \<Rightarrow> MemoryStore option" where
  "store_of c w = map_option (sobj (cstores w)) (cstore (conns w c))"

fun put_store :: "nat option \<Rightarrow> MemoryStore option \<Rightarrow> world \<Rightarrow> world" where
  "put_store (Some a) (Some s) w = w\<lparr>cstores := (cstores w)\<lparr>sobj := (sobj (cstores w))(a := s)\<rparr>\<rparr>"
| "put_store _ _ w = w"

definition persistIn :: "nat \<Rightarrow> ptr message \<Rightarrow> world \<Rightarrow> world res" where
  "persistIn c m w =
     map_res (\<lambda>s. put_store (cstore (conns w c)) s w)
       (persist_inbound (memory_store (env w)) (pobj (heap w)) m (store_of c w))"

definition persistOut :: "nat \<Rightarrow> ptr message \<Rightarrow> world \<Rightarrow> world res" where
  "persistOut c m w =
     map_res (\<lambda>s. put_store (cstore (conns w c)) s w)
       (persist_outbound (memory_store (env w)) (pobj (heap w)) m (store_of c w))"

subsection \<open>Retained messages for a new subscription: \<^verbatim>\<open>sendRetain\<close>\<close>

definition sendRetain :: "string \<Rightarrow> nat \<Rightarrow> world \<Rightarrow> world res" where
  "sendRetain topic c =
     forG (retain_topics topic)
       (\<lambda>t w. case retained (table w) t of
                None \<Rightarrow> Ret w
              | Some r \<Rightarrow>
                  (case alloc_pub (rm r) (heap w) of
                     (p, h) \<Rightarrow> submit c (Publish p) (w\<lparr>heap := h\<rparr>)))"

subsection \<open>Frame lemmas\<close>

lemma upd_conn_simps [simp]:
  "cf (upd_conn c f w) = cf w" "env (upd_conn c f w) = env w"
  "clients (upd_conn c f w) = clients w" "cstores (upd_conn c f w) = cstores w"
  "heap (upd_conn c f w) = heap w" "table (upd_conn c f w) = table w"
  "workers (upd_conn c f w) = workers w" "stats (upd_conn c f w) = stats w"
  "nodes (upd_conn c f w) = nodes w" "redis (upd_conn c f w) = redis w"
  "nconns (upd_conn c f w) = nconns w" "nreceipts (upd_conn c f w) = nreceipts w"
  "receiptClosed (upd_conn c f w) = receiptClosed w"
  "marshalBool (upd_conn c f w) = marshalBool w"
  "conns (upd_conn c f w) = (conns w)(c := f (conns w c))"
  by (simp_all add: upd_conn_def)

lemma upd_stats_simps [simp]:
  "cf (upd_stats f w) = cf w" "env (upd_stats f w) = env w" "conns (upd_stats f w) = conns w"
  "clients (upd_stats f w) = clients w" "cstores (upd_stats f w) = cstores w"
  "heap (upd_stats f w) = heap w" "table (upd_stats f w) = table w"
  "workers (upd_stats f w) = workers w" "stats (upd_stats f w) = f (stats w)"
  "nodes (upd_stats f w) = nodes w" "redis (upd_stats f w) = redis w"
  "nconns (upd_stats f w) = nconns w" "nreceipts (upd_stats f w) = nreceipts w"
  "receiptClosed (upd_stats f w) = receiptClosed w" "marshalBool (upd_stats f w) = marshalBool w"
  by (simp_all add: upd_stats_def)

lemma upd_table_simps [simp]:
  "cf (upd_table f w) = cf w" "env (upd_table f w) = env w" "conns (upd_table f w) = conns w"
  "clients (upd_table f w) = clients w" "cstores (upd_table f w) = cstores w"
  "heap (upd_table f w) = heap w" "table (upd_table f w) = f (table w)"
  "workers (upd_table f w) = workers w" "stats (upd_table f w) = stats w"
  "nodes (upd_table f w) = nodes w" "redis (upd_table f w) = redis w"
  "nconns (upd_table f w) = nconns w" "nreceipts (upd_table f w) = nreceipts w"
  "receiptClosed (upd_table f w) = receiptClosed w" "marshalBool (upd_table f w) = marshalBool w"
  by (simp_all add: upd_table_def)

subsection \<open>The queue of a connection\<close>

definition conn_blocking :: "world \<Rightarrow> bool" where
  "conn_blocking w \<longleftrightarrow> BuffOverflowStrategy (Broker (cf w)) = BufferOverflowBlock"

definition queue :: "nat \<Rightarrow> world \<Rightarrow> ptr message list" where
  "queue c w = map jm (buf (jobs (conns w c)))"

interpretation cq: outbound_queue "submit c" "\<lambda>w. alive (conns w c)" conn_blocking
    "\<lambda>w. closed (jobs (conns w c))" "queue c" "\<lambda>w. ccap (jobs (conns w c))" for c
  by unfold_locales
    (auto simp: submit_def conn_blocking_def queue_def chan_send_def chan_trysend_def Let_def
      upd_conn_def)

text \<open>\<open>submit\<close> changes nothing but the queue of its connection.\<close>

lemma submit_frame:
  "state_of (submit c m w) = upd_conn c (\<lambda>this. this\<lparr>jobs := jobs (conns (state_of (submit c m w)) c)\<rparr>) w"
  by (auto simp: submit_def Let_def chan_send_def chan_trysend_def upd_conn_def)

lemma submit_simps [simp]:
  "clients (state_of (submit c m w)) = clients w" "table (state_of (submit c m w)) = table w"
  "cf (state_of (submit c m w)) = cf w" "stats (state_of (submit c m w)) = stats w"
  "cstores (state_of (submit c m w)) = cstores w" "heap (state_of (submit c m w)) = heap w"
  "env (state_of (submit c m w)) = env w" "nodes (state_of (submit c m w)) = nodes w"
  "workers (state_of (submit c m w)) = workers w" "redis (state_of (submit c m w)) = redis w"
  "nconns (state_of (submit c m w)) = nconns w"
  by (simp_all add: submit_def Let_def chan_send_def chan_trysend_def)

lemma submit_conn_simps [simp]:
  "flag (conns (state_of (submit c m w)) d) = flag (conns w d)"
  "alive (conns (state_of (submit c m w)) d) = alive (conns w d)"
  "subN (conns (state_of (submit c m w)) d) = subN (conns w d)"
  "cstore (conns (state_of (submit c m w)) d) = cstore (conns w d)"
  "stopClosed (conns (state_of (submit c m w)) d) = stopClosed (conns w d)"
  "inpos (conns (state_of (submit c m w)) d) = inpos (conns w d)"
  "outpos (conns (state_of (submit c m w)) d) = outpos (conns w d)"
  "closed (jobs (conns (state_of (submit c m w)) d)) = closed (jobs (conns w d))"
  "ccap (jobs (conns (state_of (submit c m w)) d)) = ccap (jobs (conns w d))"
  "d \<noteq> c \<Longrightarrow> conns (state_of (submit c m w)) d = conns w d"
  by (simp_all add: submit_def Let_def chan_send_def chan_trysend_def)


text \<open>Between two steps of a goroutine a live connection has an open queue that is not
  overfull.\<close>

definition conns_ok :: "world \<Rightarrow> bool" where
  "conns_ok w \<longleftrightarrow> (\<forall>c. chan_wf (jobs (conns w c)) \<and> (alive (conns w c) \<longrightarrow> \<not> closed (jobs (conns w c))))"

definition room :: "nat \<Rightarrow> world \<Rightarrow> nat" where
  "room c w = (if alive (conns w c) then ccap (jobs (conns w c)) - length (queue c w) else 0)"

lemma keeps_conns_ok_submit [keeps_intros]: "keeps conns_ok (submit c m)"
  by (auto simp: keeps_def conns_ok_def submit_def Let_def chan_send_def chan_trysend_def chan_wf_def)

lemma length_queue [simp]: "length (queue c w) = length (buf (jobs (conns w c)))"
  by (simp add: queue_def)

lemma submit_discard:
  assumes "conns_ok w" and "\<not> conn_blocking w"
  shows "\<exists>w'. submit c m w = Ret w' \<and> conns_ok w' \<and> conn_blocking w' = conn_blocking w
    \<and> queue c w' = queue c w @ (if 0 < room c w then [m] else [])
    \<and> room c w' = room c w - 1
    \<and> (\<forall>d. d \<noteq> c \<longrightarrow> queue d w' = queue d w \<and> room d w' = room d w)"
proof -
  have "conns_ok (state_of (submit c m w))"
    using keeps_conns_ok_submit assms(1) by (rule keepsD)
  with assms show ?thesis
    by (auto simp: submit_def Let_def conn_blocking_def chan_trysend_def room_def queue_def conns_ok_def
        split: if_splits)
qed

text \<open>Which fields every submit leaves alone, as one relation between worlds.\<close>

definition same_but_queues :: "world \<Rightarrow> world \<Rightarrow> bool" where
  "same_but_queues w w' \<longleftrightarrow>
     cf w' = cf w \<and> env w' = env w \<and> marshalBool w' = marshalBool w \<and> nconns w' = nconns w
     \<and> clients w' = clients w \<and> cstores w' = cstores w \<and> heap w' = heap w \<and> table w' = table w
     \<and> workers w' = workers w \<and> stats w' = stats w \<and> nodes w' = nodes w
     \<and> receiptClosed w' = receiptClosed w \<and> nreceipts w' = nreceipts w \<and> redis w' = redis w
     \<and> (\<forall>c. conns w' c = (conns w c)\<lparr>jobs := jobs (conns w' c)\<rparr>)"

lemma same_but_queues_refl [simp]: "same_but_queues w w"
  by (simp add: same_but_queues_def)

lemma same_but_queues_trans: "same_but_queues u v \<Longrightarrow> same_but_queues v w \<Longrightarrow> same_but_queues u w"
  unfolding same_but_queues_def by (metis incomingConn.update_convs(6) incomingConn.surjective)

lemma submit_same: "submit c m w = Ret w' \<Longrightarrow> same_but_queues w w'"
  by (auto simp: submit_def Let_def chan_send_def chan_trysend_def same_but_queues_def upd_conn_def
      split: if_splits)

end
