(* ===== verification/Peers.thy ===== *)
theory Peers
  imports Session
begin

section \<open>Replication between brokers: \<^verbatim>\<open>broker/peers.go\<close>\<close>

text \<open>
  \<open>replicate_pub\<close> hands a published message to the endpoint of every peer, in the order
  \<^verbatim>\<open>range\<close> visits the map; \<open>replay_msg\<close> is one round of the loop that serves an incoming peer
  connection; \<open>join\<close> registers a peer. The listener of \<^verbatim>\<open>start\<close> and the empty bodies of
  \<^verbatim>\<open>discover\<close> and \<^verbatim>\<open>leave\<close> are the only other code of the file.
\<close>

datatype joinErr = errEndpointDupJoin

definition newPeers :: "(string, endpoint) gomap" where
  "newPeers = []"

definition ep_at :: "string \<Rightarrow> (endpoint \<Rightarrow> endpoint res) \<Rightarrow> world \<Rightarrow> world res" where
  "ep_at host f w =
     (case map_of (nodes w) host of
        None \<Rightarrow> Ret w
      | Some p \<Rightarrow> map_res (\<lambda>q. w\<lparr>nodes := AList.update host q (nodes w)\<rparr>) (f p))"

definition replicate_pub :: "ptr \<Rightarrow> world \<Rightarrow> world res" where
  "replicate_pub m w =
     forG (range_keys (env w) (map fst (nodes w))) (\<lambda>host. ep_at host (ep_submit (Publish m))) w"

text \<open>A message read from a peer: the loop goes on unless reading failed.\<close>

definition submitPost :: "ptr \<Rightarrow> world \<Rightarrow> world res" where
  "submitPost m w = map_res (\<lambda>s. w\<lparr>table := s\<rparr>) (submit_post m (table w))"

definition replay_msg :: "publish message \<Rightarrow> world \<Rightarrow> world res" where
  "replay_msg m w =
     (case receive m (heap w) of
        (Publish p, h) \<Rightarrow> submitPost p (w\<lparr>heap := h\<rparr>)
      | (_, h) \<Rightarrow> Ret w)"

fun replay :: "publish message list \<Rightarrow> world \<Rightarrow> world res" where
  "replay [] w = Ret (upd_stats peerDisconnect w)"
| "replay (m # ms) w = bindG (replay_msg m w) (replay ms)"

definition join :: "string \<Rightarrow> world \<Rightarrow> joinErr option \<times> world res" where
  "join host w =
     (if map_of (nodes w) host \<noteq> None then (Some errEndpointDupJoin, Ret w)
      else case newEndpoint host (Peers (cf w)) of
             Inl p \<Rightarrow> (None, Panic p w)
           | Inr p \<Rightarrow> (None, Ret (w\<lparr>nodes := AList.update host p (nodes w)\<rparr>)))"

definition leave :: "string \<Rightarrow> world \<Rightarrow> world" where
  "leave host w = w"

subsection \<open>Replication\<close>

definition nodes_wf :: "world \<Rightarrow> bool" where
  "nodes_wf w \<longleftrightarrow> distinct (map fst (nodes w))"

lemma ep_at_other:
  "ep_at host f w = Ret w' \<Longrightarrow> k \<noteq> host \<Longrightarrow> map_of (nodes w') k = map_of (nodes w) k"
  by (auto simp: ep_at_def split: option.splits)

lemma ep_at_self:
  "map_of (nodes w) host = Some p \<Longrightarrow> f p = Ret q \<Longrightarrow>
   ep_at host f w = Ret (w\<lparr>nodes := AList.update host q (nodes w)\<rparr>)"
  by (simp add: ep_at_def)

text \<open>Every endpoint gets the message exactly once, whatever the order of the map, as long as
  none of them panics or blocks.\<close>

lemma forG_ep_at:
  assumes "distinct ks" and "set ks \<subseteq> dom (map_of (nodes w))"
    and "\<And>k p. k \<in> set ks \<Longrightarrow> map_of (nodes w) k = Some p \<Longrightarrow> f p = Ret (g p)"
  shows "\<exists>ns. forG ks (\<lambda>k. ep_at k f) w = Ret (w\<lparr>nodes := ns\<rparr>)
    \<and> (\<forall>k. map_of ns k = (if k \<in> set ks then map_option g (map_of (nodes w) k)
                            else map_of (nodes w) k))"
  using assms
proof (induction ks arbitrary: w)
  case Nil
  show ?case by (rule exI [of _ "nodes w"]) simp
next
  case (Cons k ks)
  from Cons.prems(2) have "k \<in> dom (map_of (nodes w))" by simp
  then obtain p where p: "map_of (nodes w) k = Some p" by (blast dest: domD)
  let ?w = "w\<lparr>nodes := AList.update k (g p) (nodes w)\<rparr>"
  have one: "ep_at k f w = Ret ?w" using p Cons.prems(3) [of k p] by (simp add: ep_at_self)
  have "\<exists>ns. forG ks (\<lambda>k. ep_at k f) ?w = Ret (?w\<lparr>nodes := ns\<rparr>)
    \<and> (\<forall>j. map_of ns j = (if j \<in> set ks then map_option g (map_of (nodes ?w) j)
                            else map_of (nodes ?w) j))"
  proof (rule Cons.IH)
    show "set ks \<subseteq> dom (map_of (nodes ?w))" using Cons.prems(2) by auto
    show "f q = Ret (g q)" if "j \<in> set ks" "map_of (nodes ?w) j = Some q" for j q
      using Cons.prems(1) Cons.prems(3) [of j q] that by (cases "j = k") simp_all
  qed (use Cons.prems(1) in simp)
  then obtain ns where ns: "forG ks (\<lambda>k. ep_at k f) ?w = Ret (w\<lparr>nodes := ns\<rparr>)"
    "map_of ns j = (if j \<in> set ks then map_option g (map_of (nodes ?w) j)
                     else map_of (nodes ?w) j)" for j by auto
  with Cons.prems(1) one p show ?case by (intro exI [of _ ns]) simp
qed

end
