(* ===== verification/Worker.thy ===== *)
theory Worker
  imports Peers
begin

section \<open>Subscription workers: \<^verbatim>\<open>(*subscriptions).run\<close>\<close>

text \<open>
  A worker takes a post, clears its retain flag, drops the retained message when the post is
  an empty retained one (and then \<^emph>\<open>returns\<close>), else looks up the subscribers and hands the
  message to each, then keeps a copy if the post was a retained one. Only the lookups hold the
  mutex, so other goroutines run between the deliveries: \<open>worker_take\<close>, \<open>worker_deliver\<close> and
  \<open>worker_finish\<close> are the three kinds of step, with the place of the worker in \<open>wpos\<close>.
  \<open>run_post\<close> is one round of the loop with nothing in between.
\<close>

definition worker_take :: "nat \<Rightarrow> world \<Rightarrow> world res" where
  "worker_take i w =
     (case chan_recv (posts (table w)) of
        None \<Rightarrow> Block w
      | Some (None, ch) \<Rightarrow> Ret (w\<lparr>workers := (workers w)[i := WExited]\<rparr>)
      | Some (Some post, ch) \<Rightarrow>
          let m = pm post;
              isRetain = Retain (Header (pobj (heap w) m));
              w1 = w\<lparr>table := (table w)\<lparr>posts := ch\<rparr>, heap := clear_retain m (heap w)\<rparr>;
              msg = pobj (heap w1) m
          in if isRetain \<and> PayloadSize (env w1) (Payload msg) = 0
             then Ret (w1\<lparr>table := (table w1)\<lparr>retained := (retained (table w1))(TopicName msg := None)\<rparr>,
                         workers := (workers w1)[i := WExited]\<rparr>)
             else case subscribers (env w1) (TopicName msg) (table w1) of
                    (res, t) \<Rightarrow> Ret (w1\<lparr>table := t, workers := (workers w1)[i := WDeliver m res 0 isRetain]\<rparr>))"

definition worker_deliver :: "nat \<Rightarrow> world \<Rightarrow> world res" where
  "worker_deliver i w =
     (case workers w ! i of
        WDeliver m res k isRetain \<Rightarrow>
          if k < slen res then
            bindG (case mem (sarrs (table w)) (arr res) ! k of
                     None \<Rightarrow> Ret w
                   | Some c \<Rightarrow> submit c (Publish m) w)
              (\<lambda>w'. Ret (w'\<lparr>workers := (workers w')[i := WDeliver m res (Suc k) isRetain]\<rparr>))
          else Ret w
      | _ \<Rightarrow> Ret w)"

definition zero_wild :: wild where
  "zero_wild = \<lparr>wparts = [], wconn = None\<rparr>"

definition keep_retained :: "ptr \<Rightarrow> world \<Rightarrow> world" where
  "keep_retained m w =
     (let msg = set_retain True (pobj (heap w) m) in
      w\<lparr>table := (table w)\<lparr>retained :=
          (retained (table w))(TopicName (pobj (heap w) m) \<mapsto> \<lparr>rm = msg, rwild = zero_wild\<rparr>)\<rparr>\<rparr>)"

definition worker_finish :: "nat \<Rightarrow> world \<Rightarrow> world res" where
  "worker_finish i w =
     (case workers w ! i of
        WDeliver m res k isRetain \<Rightarrow>
          if k = slen res
          then let w1 = (if isRetain then keep_retained m w else w)
               in Ret (w1\<lparr>workers := (workers w1)[i := WIdle]\<rparr>)
          else Ret w
      | _ \<Rightarrow> Ret w)"

fun deliver_rest :: "nat \<Rightarrow> nat \<Rightarrow> world \<Rightarrow> world res" where
  "deliver_rest i 0 w = Ret w"
| "deliver_rest i (Suc n) w = bindG (worker_deliver i w) (deliver_rest i n)"

definition run_post :: "nat \<Rightarrow> world \<Rightarrow> world res" where
  "run_post i w =
     bindG (worker_take i w)
       (\<lambda>w1. case workers w1 ! i of
               WDeliver m res k r \<Rightarrow> bindG (deliver_rest i (slen res) w1) (worker_finish i)
             | _ \<Rightarrow> Ret w1)"

definition start_workers :: "int \<Rightarrow> wpos list" where
  "start_workers n = replicate (nat n) WIdle"

subsection \<open>A worker that loses its work loop\<close>

definition live_workers :: "world \<Rightarrow> nat" where
  "live_workers w = length (filter (\<lambda>p. p \<noteq> WExited) (workers w))"

lemma worker_take_delete:
  assumes "chan_recv (posts (table w)) = Some (Some po, ch)"
    and "Retain (Header (pobj (heap w) (pm po)))"
    and "PayloadSize (env w) (Payload (pobj (heap w) (pm po))) = 0"
  shows "worker_take i w =
    Ret (w\<lparr>table := (table w)\<lparr>posts := ch,
             retained := (retained (table w))(TopicName (pobj (heap w) (pm po)) := None)\<rparr>,
           heap := clear_retain (pm po) (heap w),
           workers := (workers w)[i := WExited]\<rparr>)"
  using assms by (simp add: worker_take_def Let_def clear_retain_def)

subsection \<open>Deliveries\<close>

text \<open>What the message looks like to everyone once the worker has taken it.\<close>

lemma clear_retain_simps [simp]:
  "pobj (clear_retain p h) q = (if q = p then set_retain False (pobj h p) else pobj h q)"
  "pnext (clear_retain p h) = pnext h"
  by (simp_all add: clear_retain_def)

lemma worker_take_post:
  assumes "chan_recv (posts (table w)) = Some (Some po, ch)"
    and "\<not> (Retain (Header (pobj (heap w) (pm po)))
            \<and> PayloadSize (env w) (Payload (pobj (heap w) (pm po))) = 0)"
    and "subscribers (env w) (TopicName (pobj (heap w) (pm po))) ((table w)\<lparr>posts := ch\<rparr>) = (res, t)"
  shows "worker_take i w =
    Ret (w\<lparr>table := t, heap := clear_retain (pm po) (heap w),
           workers := (workers w)[i := WDeliver (pm po) res 0 (Retain (Header (pobj (heap w) (pm po))))]\<rparr>)"
  using assms by (auto simp: worker_take_def Let_def)

text \<open>Delivering to the cells \<open>k, ..., k + n - 1\<close> of the result slice is submitting to the
  connections found there, in order; nothing in the loop touches the slice.\<close>

lemma submit_Ret_frame:
  assumes "submit c m w = Ret w'"
  shows "table w' = table w" "workers w' = workers w" "heap w' = heap w" "env w' = env w"
    "cf w' = cf w" "cstores w' = cstores w" "clients w' = clients w" "stats w' = stats w"
    "nodes w' = nodes w"
  using submit_simps [of c m w] assms by simp_all

definition deliveries :: "ptr \<Rightarrow> cptr list \<Rightarrow> world \<Rightarrow> world res" where
  "deliveries m cs = forG cs (\<lambda>x. case x of None \<Rightarrow> Ret | Some c \<Rightarrow> submit c (Publish m))"

lemma submit_workers: "submit c m (w\<lparr>workers := ws\<rparr>) = map_res (\<lambda>w. w\<lparr>workers := ws\<rparr>) (submit c m w)"
  by (auto simp: submit_def Let_def chan_send_def chan_trysend_def upd_conn_def)

lemma deliveries_workers:
  "deliveries m cs (w\<lparr>workers := ws\<rparr>) = map_res (\<lambda>w. w\<lparr>workers := ws\<rparr>) (deliveries m cs w)"
proof (induction cs arbitrary: w)
  case (Cons x cs)
  show ?case
  proof (cases x)
    case None
    with Cons show ?thesis by (simp add: deliveries_def)
  next
    case (Some c)
    with Cons show ?thesis
      by (cases "submit c (Publish m) w") (simp_all add: deliveries_def submit_workers)
  qed
qed (simp add: deliveries_def)


lemma deliveries_Cons:
  "deliveries m (x # cs) w =
     bindG (case x of None \<Rightarrow> Ret w | Some c \<Rightarrow> submit c (Publish m) w) (deliveries m cs)"
  by (simp add: deliveries_def split: option.split)

lemma deliver_rest_Ret:
  assumes "i < length (workers w)" "workers w ! i = WDeliver m res k r" "k + n = slen res"
    and "slen res \<le> length (mem (sarrs (table w)) (arr res))"
    and "deliveries m (take n (drop k (mem (sarrs (table w)) (arr res)))) w = Ret w'"
  shows "deliver_rest i n w = Ret (w'\<lparr>workers := (workers w)[i := WDeliver m res (slen res) r]\<rparr>)"
  using assms
proof (induction n arbitrary: w k w')
  case 0
  then have "w' = w" "(workers w)[i := WDeliver m res (slen res) r] = workers w"
    by (simp_all add: deliveries_def list_update_same_conv)
  then show ?case by simp
next
  case (Suc n)
  let ?xs = "mem (sarrs (table w)) (arr res)"
  from Suc.prems have k: "k < slen res" "k < length ?xs" by auto
  then have "take (Suc n) (drop k ?xs) = ?xs ! k # take n (drop (Suc k) ?xs)"
    by (simp add: Cons_nth_drop_Suc [symmetric])
  with Suc.prems(5) obtain u where
    u: "(case ?xs ! k of None \<Rightarrow> Ret w | Some c \<Rightarrow> submit c (Publish m) w) = Ret u"
    and rest: "deliveries m (take n (drop (Suc k) ?xs)) u = Ret w'"
    by (cases "case ?xs ! k of None \<Rightarrow> Ret w | Some c \<Rightarrow> submit c (Publish m) w")
      (simp_all add: deliveries_Cons)
  from u have fr: "table u = table w" "workers u = workers w"
    by (auto split: option.splits dest: submit_Ret_frame)
  let ?ws = "(workers w)[i := WDeliver m res (Suc k) r]"
  have one: "worker_deliver i w = Ret (u\<lparr>workers := ?ws\<rparr>)"
    using Suc.prems k u fr by (simp add: worker_deliver_def)
  have "deliveries m (take n (drop (Suc k) ?xs)) (u\<lparr>workers := ?ws\<rparr>) = Ret (w'\<lparr>workers := ?ws\<rparr>)"
    using rest by (simp add: deliveries_workers)
  with Suc.prems fr have "deliver_rest i n (u\<lparr>workers := ?ws\<rparr>)
      = Ret (w'\<lparr>workers := (workers w)[i := WDeliver m res (slen res) r]\<rparr>)"
    using Suc.IH [of "u\<lparr>workers := ?ws\<rparr>" "Suc k" "w'\<lparr>workers := ?ws\<rparr>"] by simp
  then show ?case by (simp add: one)
qed


text \<open>Under the strategy \<^verbatim>\<open>discard\<close> the loop always returns, and the queue of a connection gets
  the message once for every cell of the slice that holds it, as far as there is room.\<close>

lemma deliveries_discard:
  assumes "conns_ok w" and "\<not> conn_blocking w"
  shows "\<exists>w'. deliveries m cs w = Ret w' \<and> same_but_queues w w'
    \<and> (\<forall>c. queue c w' = queue c w @ replicate (min (count_list cs (Some c)) (room c w)) (Publish m))"
  using assms
proof (induction cs arbitrary: w)
  case Nil
  then show ?case by (simp add: deliveries_def)
next
  case (Cons x cs)
  show ?case
  proof (cases x)
    case None
    with Cons.IH [OF Cons.prems] show ?thesis by (simp add: deliveries_Cons)
  next
    case (Some d)
    obtain u where u: "submit d (Publish m) w = Ret u" "conns_ok u" "\<not> conn_blocking u"
      "queue d u = queue d w @ (if 0 < room d w then [Publish m] else [])" "room d u = room d w - 1"
      "\<And>c. c \<noteq> d \<Longrightarrow> queue c u = queue c w \<and> room c u = room c w"
      using submit_discard [OF Cons.prems, of d "Publish m"] Cons.prems(2) by auto
    from Cons.IH [OF u(2,3)] obtain w' where w': "deliveries m cs u = Ret w'" "same_but_queues u w'"
      "\<And>c. queue c w' = queue c u @ replicate (min (count_list cs (Some c)) (room c u)) (Publish m)"
      by blast
    have "queue c w' = queue c w @ replicate (min (count_list (x # cs) (Some c)) (room c w)) (Publish m)" for c
    proof (cases "c = d")
      case True
      have "min (Suc n) r = (if 0 < r then Suc (min n (r - 1)) else 0)" for n r :: nat by auto
      with True Some w'(3) u(4,5) show ?thesis by simp
    next
      case False
      with Some w'(3) u(6) show ?thesis by simp
    qed
    moreover from submit_same [OF u(1)] w'(2) have "same_but_queues w w'"
      by (rule same_but_queues_trans)
    ultimately show ?thesis using Some u(1) w'(1) by (simp add: deliveries_Cons)
  qed
qed

text \<open>One whole round of a worker on a post that is not a retain deletion.\<close>

lemma run_post_Ret:
  assumes wf: "subs_wf (table w)" and i: "i < length (workers w)"
    and recv: "chan_recv (posts (table w)) = Some (Some po, ch)"
    and nodel: "\<not> (Retain (Header (pobj (heap w) (pm po)))
            \<and> PayloadSize (env w) (Payload (pobj (heap w) (pm po))) = 0)"
    and sub: "subscribers (env w) (TopicName (pobj (heap w) (pm po))) ((table w)\<lparr>posts := ch\<rparr>) = (res, t)"
    and del: "deliveries (pm po) (slice_list (sarrs t) res)
                (w\<lparr>table := t, heap := clear_retain (pm po) (heap w)\<rparr>) = Ret w'"
  shows "run_post i w =
    (let r = Retain (Header (pobj (heap w) (pm po)));
         w'' = (if r then keep_retained (pm po) w' else w')
     in Ret (w''\<lparr>workers := (workers w)[i := WIdle]\<rparr>))"
proof -
  let ?r = "Retain (Header (pobj (heap w) (pm po)))"
  let ?ws = "(workers w)[i := WDeliver (pm po) res 0 ?r]"
  let ?w1 = "w\<lparr>table := t, heap := clear_retain (pm po) (heap w)\<rparr>"
  have take: "worker_take i w = Ret (?w1\<lparr>workers := ?ws\<rparr>)"
    using worker_take_post [OF recv nodel sub, of i] by simp
  have wf': "subs_wf ((table w)\<lparr>posts := ch\<rparr>)" using wf by (simp add: subs_wf_def)
  have res: "slen res \<le> length (mem (sarrs t) (arr res))"
    using subscribers_spec(4) [OF wf' sub] by (simp add: slice_wf_def slice_cap_def)
  have "deliveries (pm po) (slice_list (sarrs t) res) (?w1\<lparr>workers := ?ws\<rparr>) = Ret (w'\<lparr>workers := ?ws\<rparr>)"
    using del by (simp add: deliveries_workers)
  then have rest: "deliver_rest i (slen res) (?w1\<lparr>workers := ?ws\<rparr>)
      = Ret (w'\<lparr>workers := (workers w)[i := WDeliver (pm po) res (slen res) ?r]\<rparr>)"
    using deliver_rest_Ret [of i "?w1\<lparr>workers := ?ws\<rparr>" "pm po" res 0 ?r "slen res" "w'\<lparr>workers := ?ws\<rparr>"] i res
    by (simp add: slice_list_def)
  have fin: "worker_finish i (w'\<lparr>workers := (workers w)[i := WDeliver (pm po) res (slen res) ?r]\<rparr>)
      = Ret ((if ?r then keep_retained (pm po) w' else w')\<lparr>workers := (workers w)[i := WIdle]\<rparr>)"
    using i by (simp add: worker_finish_def keep_retained_def Let_def)
  show ?thesis
    using i by (simp add: run_post_def take rest fin Let_def)
qed

end
