(* ===== verification/Handlers.thy ===== *)
theory Handlers
  imports Worker
begin

section \<open>Message handlers: \<^verbatim>\<open>broker/proto.go\<close>, \<^verbatim>\<open>broker/auth.go\<close>\<close>

text \<open>
  One definition per handler of a client message. \<^verbatim>\<open>doConnect\<close> waits in its middle for the
  outbound goroutine of the connection it evicts, so it is two definitions, \<open>doConnect_begin\<close> up
  to the wait and \<open>doConnect_end\<close> after it. \<open>poured\<close> is the answer of the rate limiter (the
  package \<^verbatim>\<open>ratelimiter\<close>) to \<^verbatim>\<open>Pour(1)\<close>, \<open>now\<close> the clock. \<^verbatim>\<open>validateMessage\<close> and
  \<^verbatim>\<open>nextInternalMsgId\<close> have empty bodies.
\<close>

definition protocolName :: string where "protocolName = ''MQIsdp''"
definition protocolVersion :: "8 word" where "protocolVersion = 3"
definition maxClientIdLength :: nat where "maxClientIdLength = 23"

definition authenticate :: "string \<Rightarrow> string \<Rightarrow> bool" where
  "authenticate username passwd = True"

definition authorized :: "string \<Rightarrow> ptr message \<Rightarrow> bool" where
  "authorized username m = True"

definition validateMessage :: "ptr message \<Rightarrow> world \<Rightarrow> world" where
  "validateMessage m w = w"

subsection \<open>CONNECT\<close>

text \<open>The return code: each check overwrites the code of the checks before it.\<close>

definition connect_rc :: "BrokerConfig \<Rightarrow> int \<Rightarrow> connect \<Rightarrow> ReturnCode" where
  "connect_rc b nclients m =
     (let rc0 = RetCodeAccepted;
          rc1 = (if ProtocolName m \<noteq> protocolName \<or> ProtocolVersion m \<noteq> protocolVersion
                 then RetCodeUnacceptableProtocolVersion else rc0);
          rc2 = (if length (ClientId m) < 1 \<or> length (ClientId m) > maxClientIdLength
                 then RetCodeIdentifierRejected else rc1);
          rc3 = (if \<not> AllowAnonymousConnect b \<and>
                    (\<not> UsernameFlag m \<or> Username m = '''' \<or> \<not> PasswordFlag m \<or> Password m = '''')
                 then RetCodeNotAuthorized
                 else if UsernameFlag m \<and> \<not> authenticate (Username m) (Password m)
                 then RetCodeBadUsernameOrPassword
                 else rc2);
          rc4 = (if MaxConnections b > 0 \<and> nclients > MaxConnections b
                 then RetCodeServerUnavailable else rc3)
      in rc4)"

text \<open>Up to the wait: the flag is set, the code computed, the connection registered. When another
  connection holds the client id, a DISCONNECT is queued for it and this goroutine waits for
  its receipt (\<open>InWait\<close>).\<close>

definition doConnect_begin :: "nat \<Rightarrow> connect \<Rightarrow> world \<Rightarrow> world res" where
  "doConnect_begin c m w =
     (let rc = connect_rc (Broker (cf w)) (Clients (stats w)) m;
          w1 = upd_conn c (\<lambda>this. this\<lparr>flag := Some m\<rparr>) w
      in case add_client c w1 of
           Inl p \<Rightarrow> Panic p w1
         | Inr (None, w2) \<Rightarrow> Ret w2
         | Inr (Some existing, w2) \<Rightarrow>
             bindG (submitSync existing Disconnect w2)
               (\<lambda>w3. Ret (upd_conn c (\<lambda>this. this\<lparr>inpos := InWait m rc existing (nreceipts w2)\<rparr>) w3)))"

text \<open>The second \<^verbatim>\<open>this.add()\<close>, whose result is dropped.\<close>

definition add_again :: "nat \<Rightarrow> world \<Rightarrow> world res" where
  "add_again c w = (case add_client c w of Inl p \<Rightarrow> Panic p w | Inr (_, w') \<Rightarrow> Ret w')"

definition attach_store :: "nat \<Rightarrow> connect \<Rightarrow> world \<Rightarrow> world" where
  "attach_store c m w =
     (case getClientStore (ClientId m) (cstores w) of
        (a, cs) \<Rightarrow> upd_conn c (\<lambda>this. this\<lparr>cstore := Some a\<rparr>) (w\<lparr>cstores := cs\<rparr>))"

text \<open>One round of the loop over \<^verbatim>\<open>this.store.All()\<close>.\<close>

definition resend :: "nat \<Rightarrow> string \<Rightarrow> world \<Rightarrow> world res" where
  "resend c key w =
     (if key = [] then Panic IndexOutOfRange w
      else case store_of c w of
             None \<Rightarrow> Panic NilDeref w
           | Some s \<Rightarrow>
               (case MemGet key s of
                  Some (Publish p) \<Rightarrow>
                    if QosLevel (Header (pobj (heap w) p)) = QosAtLeastOnce
                    then submit c (Publish p) w else Ret w
                | Some (PubAck h mid) \<Rightarrow>
                    if QosLevel h = QosAtLeastOnce then submit c (PubAck h mid) w else Ret w
                | _ \<Rightarrow> Ret w))"

definition restore_session :: "nat \<Rightarrow> connect \<Rightarrow> world \<Rightarrow> world res" where
  "restore_session c m w =
     (case store_of c w of
        None \<Rightarrow> Panic NilDeref w
      | Some s \<Rightarrow>
          if \<not> CleanSession m
          then forG (MemAll (env w) s) (resend c) w
          else Ret (put_store (cstore (conns w c)) (Some (MemReset s)) w))"

definition start_heartbeat :: "nat \<Rightarrow> connect \<Rightarrow> world \<Rightarrow> world" where
  "start_heartbeat c m w =
     (if KeepAliveTimer m > 0
      then upd_conn c (\<lambda>this. this\<lparr>heartbeats := heartbeats this @ [uint (KeepAliveTimer m)]\<rparr>) w
      else w)"

definition doConnect_end :: "int \<Rightarrow> nat \<Rightarrow> connect \<Rightarrow> ReturnCode \<Rightarrow> nat option \<Rightarrow> world \<Rightarrow> world res" where
  "doConnect_end now c m rc existing =
     seqG
      [\<lambda>w. Ret (case existing of None \<Rightarrow> w | Some e \<Rightarrow> del e w),
       add_again c,
       \<lambda>w. Ret (start_heartbeat c m w),
       \<lambda>w. Ret (attach_store c m w),
       restore_session c m,
       \<lambda>w. Ret (upd_conn c (\<lambda>this. this\<lparr>connectedAt := now\<rparr>) w),
       \<lambda>w. Ret (if EnablePresence (Broker (cf w)) \<and> Username m \<noteq> ''''
                then w\<lparr>redis := CheckIn (marshalBool w) (Username m) (redis w)\<rparr> else w),
       submit c (ConnAck rc)]"

subsection \<open>PUBLISH, PUBACK\<close>

text \<open>\<^verbatim>\<open>doPublish\<close>: a full bucket stops the connection and the handler goes on.\<close>

definition doPublish :: "bool \<Rightarrow> nat \<Rightarrow> ptr \<Rightarrow> world \<Rightarrow> world res" where
  "doPublish poured c m =
     seqG
      [whenG (\<not> poured) (stop c),
       \<lambda>w. case flag (conns w c) of
             None \<Rightarrow> Panic NilDeref w
           | Some f \<Rightarrow>
               if \<not> authorized (Username f) (Publish m) then stop c w
               else seqG
                 [persistIn c (Publish m),
                  submitPost m,
                  replicate_pub m,
                  \<lambda>w. if QosLevel (Header (pobj (heap w) m)) = QosAtLeastOnce
                      then submit c (PubAck zero_header (MessageId (pobj (heap w) m))) w
                      else Ret w] w]"

definition doPublishAck :: "nat \<Rightarrow> header \<Rightarrow> 16 word \<Rightarrow> world \<Rightarrow> world res" where
  "doPublishAck c h mid w = Ret (validateMessage (PubAck h mid) w)"

subsection \<open>SUBSCRIBE, UNSUBSCRIBE\<close>

definition subscribe_one :: "nat \<Rightarrow> topicqos \<Rightarrow> world \<Rightarrow> world res" where
  "subscribe_one c tq w =
     (let w1 = upd_conn c (\<lambda>this. this\<lparr>subN := subN this + 1\<rparr>) w in
      bindG (whenG (subN (conns w1 c) > ClientMaxSubscriptions (Broker (cf w1))) (stop c) w1)
        (\<lambda>w2. Ret (upd_table (add_sub (env w2) (Topic tq) c) w2)))"

definition doSubscribe :: "nat \<Rightarrow> header \<Rightarrow> 16 word \<Rightarrow> topicqos list \<Rightarrow> world \<Rightarrow> world res" where
  "doSubscribe c h mid topics w =
     (case flag (conns w c) of
        None \<Rightarrow> Panic NilDeref w
      | Some f \<Rightarrow>
          if \<not> authorized (Username f) (Subscribe h mid topics) then stop c w
          else seqG
            [forG topics (subscribe_one c),
             submit c (SubAck mid (map (\<lambda>_. QosAtMostOnce) topics)),
             forG topics (\<lambda>tq. sendRetain (Topic tq) c)] w)"

definition unsubscribe_one :: "nat \<Rightarrow> string \<Rightarrow> world \<Rightarrow> world" where
  "unsubscribe_one c t w =
     upd_table (unsub t c) (upd_conn c (\<lambda>this. this\<lparr>subN := subN this - 1\<rparr>) w)"

definition doUnsubscribe :: "nat \<Rightarrow> 16 word \<Rightarrow> string list \<Rightarrow> world \<Rightarrow> world res" where
  "doUnsubscribe c mid topics =
     seqG
      [forG topics (\<lambda>t w. Ret (unsubscribe_one c t w)),
       submit c (UnsubAck mid)]"

end
