(* ===== verification/Loops.thy ===== *)
theory Loops
  imports Handlers
begin

section \<open>The goroutines: \<^verbatim>\<open>inboundLoop\<close>, \<^verbatim>\<open>outboundLoop\<close>, \<^verbatim>\<open>heartbeat\<close>, \<^verbatim>\<open>broker/server.go\<close>\<close>

text \<open>
  \<open>inbound_step\<close> is one round of \<^verbatim>\<open>inboundLoop\<close> for what \<^verbatim>\<open>DecodeOneMessage\<close> returned;
  \<open>inbound_exit\<close> is its deferred function. \<open>outbound_step\<close> is one round of \<^verbatim>\<open>outboundLoop\<close> and
  \<open>outbound_cleanup\<close> its deferred function; the receipt of a job is closed in the round, before
  the cleanup. \<open>heartbeat_tick\<close> is a tick of a keep-alive goroutine up to its wait; when the tick and
  the end of the connection are both there, either case of its \<^verbatim>\<open>select\<close> may be taken.
  \<open>accept\<close> is what the accept loop of \<^verbatim>\<open>Server.Start\<close> does with a new connection.

  \<open>bstep\<close> is the interleaving of all of them: one step of any goroutine, with the network, the
  clock and the rate limiter free to do anything, except that reading from a socket the broker
  has closed fails. \<^verbatim>\<open>join\<close> has no caller in the repository; it may run at any time here, so that
  what is shown of all reachable states covers a broker with peers. The broker dies when a step
  panics.
\<close>

datatype decoded = DecodeErr | Decoded "publish message"

definition inbound_exit :: "nat \<Rightarrow> world \<Rightarrow> world res" where
  "inbound_exit c w =
     (let w1 = upd_stats clientDisconnect w;
          w2 = put_store (cstore (conns w1 c)) (map_option MemClose (store_of c w1)) w1;
          w3 = upd_conn c (\<lambda>this. this\<lparr>alive := False, inpos := InDone\<rparr>) w2
      in bindG (map_res (\<lambda>ch. upd_conn c (\<lambda>this. this\<lparr>jobs := ch\<rparr>) w3) (chan_close (jobs (conns w3 c))))
           (onTerminate c))"

text \<open>After \<^verbatim>\<open>doConnect\<close>: a refused client is disconnected.\<close>

definition after_connect :: "nat \<Rightarrow> ReturnCode \<Rightarrow> world \<Rightarrow> world res" where
  "after_connect c rc w = (if rc \<noteq> RetCodeAccepted then inbound_exit c w else Ret w)"

definition handle_connect :: "int \<Rightarrow> nat \<Rightarrow> connect \<Rightarrow> world \<Rightarrow> world res" where
  "handle_connect now c m w =
     (let rc = connect_rc (Broker (cf w)) (Clients (stats w)) m in
      bindG (doConnect_begin c m w)
        (\<lambda>w1. case inpos (conns w1 c) of
                InWait _ _ _ _ \<Rightarrow> Ret w1
              | _ \<Rightarrow> bindG (doConnect_end now c m rc None w1) (after_connect c rc)))"

definition dispatch :: "int \<Rightarrow> bool \<Rightarrow> nat \<Rightarrow> ptr message \<Rightarrow> world \<Rightarrow> world res" where
  "dispatch now poured c m w =
     (case m of
        Connect cm \<Rightarrow> handle_connect now c cm w
      | Publish p \<Rightarrow> doPublish poured c p w
      | Subscribe h mid ts \<Rightarrow> doSubscribe c h mid ts w
      | Unsubscribe mid ts \<Rightarrow> doUnsubscribe c mid ts w
      | PubAck h mid \<Rightarrow> doPublishAck c h mid w
      | PingReq \<Rightarrow> submit c PingResp (validateMessage m w)
      | Disconnect \<Rightarrow> inbound_exit c w
      | _ \<Rightarrow> inbound_exit c w)"

definition inbound_step :: "int \<Rightarrow> bool \<Rightarrow> nat \<Rightarrow> decoded \<Rightarrow> world \<Rightarrow> world res" where
  "inbound_step now poured c d w =
     (case d of
        DecodeErr \<Rightarrow> inbound_exit c (upd_stats aborted w)
      | Decoded m \<Rightarrow>
          let w1 = upd_stats (addIn (env w) m) (upd_stats messageRecv w);
              w2 = refreshOpTime now c w1
          in case receive m (heap w2) of
               (m', h) \<Rightarrow> dispatch now poured c m' (w2\<lparr>heap := h\<rparr>))"

text \<open>The goroutine that waited in \<^verbatim>\<open>doConnect\<close> goes on once the receipt is closed.\<close>

definition connect_resume :: "int \<Rightarrow> nat \<Rightarrow> world \<Rightarrow> world res" where
  "connect_resume now c w =
     (case inpos (conns w c) of
        InWait m rc existing r \<Rightarrow>
          if receiptClosed w r
          then bindG (doConnect_end now c m rc (Some existing)
                  (upd_conn c (\<lambda>this. this\<lparr>inpos := InLoop\<rparr>) w)) (after_connect c rc)
          else Block w
      | _ \<Rightarrow> Ret w)"

fun close_receipt :: "receipt option \<Rightarrow> world \<Rightarrow> world" where
  "close_receipt None w = w"
| "close_receipt (Some r) w = w\<lparr>receiptClosed := (receiptClosed w)(r := True)\<rparr>"

text \<open>One round: take a job (\<open>ok\<close>: the write succeeds), or see that the connection was stopped
  (\<open>stopped\<close>: the \<^verbatim>\<open>select\<close> takes that case; it may when the channel is closed).\<close>

definition outbound_step :: "int \<Rightarrow> bool \<Rightarrow> nat \<Rightarrow> world \<Rightarrow> world res" where
  "outbound_step now ok c w =
     (case chan_recv (jobs (conns w c)) of
        None \<Rightarrow> Block w
      | Some (None, ch) \<Rightarrow> Ret (upd_conn c (\<lambda>this. this\<lparr>outpos := OutCleanup\<rparr>) w)
      | Some (Some j, ch) \<Rightarrow>
          bindG (persistOut c (jm j) (upd_conn c (\<lambda>this. this\<lparr>jobs := ch\<rparr>) w))
            (\<lambda>w1.
              let w2 = close_receipt (jr j) w1;
                  msg = snapshot (heap w2) (jm j)
              in if \<not> ok then Ret (upd_conn c (\<lambda>this. this\<lparr>outpos := OutCleanup\<rparr>) w2)
                 else
                   let w3 = upd_conn c (\<lambda>this. this\<lparr>wire := wire this @ [msg]\<rparr>) w2;
                       w4 = upd_stats (addOut (env w3) msg) (upd_stats messageSend w3);
                       w5 = refreshOpTime now c w4
                   in Ret (if jm j = Disconnect
                           then upd_conn c (\<lambda>this. this\<lparr>outpos := OutCleanup\<rparr>) w5 else w5)))"

definition outbound_stopped :: "nat \<Rightarrow> world \<Rightarrow> world res" where
  "outbound_stopped c w =
     (if stopClosed (conns w c)
      then Ret (upd_conn c (\<lambda>this. this\<lparr>outpos := OutCleanup\<rparr>) w) else Block w)"

definition outbound_cleanup :: "nat \<Rightarrow> world \<Rightarrow> world res" where
  "outbound_cleanup c w =
     (if heartbeatStopClosed (conns w c) then Panic CloseOfClosed w
      else let w1 = upd_conn c (\<lambda>this. this\<lparr>heartbeatStopClosed := True, sockClosed := True,
                        outpos := OutDone\<rparr>) w;
               w2 = del c w1
           in Ret (upd_table (unsubAll (env w2) c) w2))"

text \<open>A tick of \<^verbatim>\<open>heartbeat\<close> with the period \<open>k\<close> in seconds. The deadline is computed in floating
  point and truncated; for the times of a clock in seconds this is \<open>3 k / 2\<close> rounded down.\<close>

definition heartbeat_deadline :: "int \<Rightarrow> int \<Rightarrow> int" where
  "heartbeat_deadline lastOp k = lastOp + (3 * k) div 2"

definition heartbeat_tick :: "int \<Rightarrow> int \<Rightarrow> nat \<Rightarrow> world \<Rightarrow> world res" where
  "heartbeat_tick now k c w =
     (let overIdle = now - heartbeat_deadline (lastOpTime (conns w c)) k in
      if overIdle > 0 \<and> alive (conns w c)
      then bindG (submitSync c Disconnect w)
             (\<lambda>w1. Ret (upd_conn c (\<lambda>this. this\<lparr>heartbeats := remove1 k (heartbeats this),
                         kicks := kicks this @ [nreceipts w]\<rparr>) w1))
      else Ret w)"

text \<open>The rest of the tick, once the DISCONNECT has been sent; the goroutine then returns.\<close>

definition heartbeat_kicked :: "nat \<Rightarrow> receipt \<Rightarrow> world \<Rightarrow> world" where
  "heartbeat_kicked c r w =
     upd_stats aborted (upd_conn c (\<lambda>this. this\<lparr>kicks := remove1 r (kicks this)\<rparr>) w)"

text \<open>The other case of its \<^verbatim>\<open>select\<close>: \<^verbatim>\<open>heartbeatStop\<close> is closed, the goroutine returns.\<close>

definition heartbeat_stopped :: "int \<Rightarrow> nat \<Rightarrow> world \<Rightarrow> world res" where
  "heartbeat_stopped k c w =
     (if heartbeatStopClosed (conns w c)
      then Ret (upd_conn c (\<lambda>this. this\<lparr>heartbeats := remove1 k (heartbeats this)\<rparr>) w) else Block w)"

subsection \<open>The server\<close>

definition new_conn :: "int \<Rightarrow> nat \<Rightarrow> int \<Rightarrow> incomingConn" where
  "new_conn now qlen maxPublish = \<lparr>flag = None, alive = True, connectedAt = 0, lastOpTime = now,
     stopClosed = False, jobs = make_chan qlen, heartbeatStopClosed = False, cstore = None,
     subN = 0, bucketSize = word_of_int maxPublish, sockClosed = False, wire = [], heartbeats = [], kicks = [], inpos = InLoop, outpos = OutLoop\<rparr>"

text \<open>Addresses that no connection has been given yet.\<close>

definition no_conn :: incomingConn where
  "no_conn = (new_conn 0 0 0)\<lparr>alive := False, jobs := (make_chan 0)\<lparr>closed := True\<rparr>,
     heartbeatStopClosed := True, inpos := InDone, outpos := OutDone\<rparr>"

definition accept :: "int \<Rightarrow> world \<Rightarrow> world res" where
  "accept now w =
     (let w1 = upd_stats clientConnect w;
          n = ClientOutboundQueueLen (Broker (cf w))
      in if n < 0 then Panic NegativeMakeChan w1
         else Ret (w1\<lparr>conns := (conns w1)(nconns w1 := new_conn now (nat n)
                        (ClientMaxPublishPerMinute (Broker (cf w1)))),
                      nconns := Suc (nconns w1)\<rparr>))"

definition NewServer :: "Config \<Rightarrow> env \<Rightarrow> (bool \<Rightarrow> bytes \<times> bool) \<Rightarrow> world res" where
  "NewServer config e ms =
     (let w = \<lparr>cf = config, env = e, marshalBool = ms,
            conns = (\<lambda>_. no_conn),
            nconns = 0, clients = (\<lambda>_. None), cstores = no_stores,
            heap = empty_pubheap,
            table = newSubscriptions (nat (SubscriptionsQueueLen (Broker config))),
            workers = start_workers (SubscriptionsWorkers (Broker config)),
            stats = new_stats (StatsInterval (Broker config)) (StatsHttpListenAddr (Broker config))
                      (ProfHttpListenAddr (Broker config)),
            nodes = newPeers, receiptClosed = (\<lambda>_. False), nreceipts = 0, redis = []\<rparr>
      in if SubscriptionsQueueLen (Broker config) < 0 then Panic NegativeMakeChan w else Ret w)"

subsection \<open>All goroutines together\<close>

inductive bstep :: "world \<Rightarrow> world res \<Rightarrow> bool" where
  b_accept: "bstep w (accept now w)"
| b_inbound: "c < nconns w \<Longrightarrow> inpos (conns w c) = InLoop \<Longrightarrow>
    sockClosed (conns w c) \<longrightarrow> d = DecodeErr \<Longrightarrow> bstep w (inbound_step now poured c d w)"
| b_resume: "c < nconns w \<Longrightarrow> inpos (conns w c) = InWait m rc ex r \<Longrightarrow> receiptClosed w r \<Longrightarrow>
    bstep w (connect_resume now c w)"
| b_outbound: "c < nconns w \<Longrightarrow> outpos (conns w c) = OutLoop \<Longrightarrow> bstep w (outbound_step now ok c w)"
| b_stopped: "c < nconns w \<Longrightarrow> outpos (conns w c) = OutLoop \<Longrightarrow> stopClosed (conns w c) \<Longrightarrow>
    bstep w (outbound_stopped c w)"
| b_cleanup: "c < nconns w \<Longrightarrow> outpos (conns w c) = OutCleanup \<Longrightarrow> bstep w (outbound_cleanup c w)"
| b_heartbeat: "c < nconns w \<Longrightarrow> k \<in> set (heartbeats (conns w c)) \<Longrightarrow> bstep w (heartbeat_tick now k c w)"
| b_hbstop: "c < nconns w \<Longrightarrow> k \<in> set (heartbeats (conns w c)) \<Longrightarrow> heartbeatStopClosed (conns w c) \<Longrightarrow>
    bstep w (heartbeat_stopped k c w)"
| b_kicked: "c < nconns w \<Longrightarrow> r \<in> set (kicks (conns w c)) \<Longrightarrow> receiptClosed w r \<Longrightarrow>
    bstep w (Ret (heartbeat_kicked c r w))"
| b_take: "i < length (workers w) \<Longrightarrow> workers w ! i = WIdle \<Longrightarrow> bstep w (worker_take i w)"
| b_deliver: "i < length (workers w) \<Longrightarrow> workers w ! i = WDeliver m res k r \<Longrightarrow> k < slen res \<Longrightarrow>
    bstep w (worker_deliver i w)"
| b_finish: "i < length (workers w) \<Longrightarrow> workers w ! i = WDeliver m res (slen res) r \<Longrightarrow>
    bstep w (worker_finish i w)"
| b_peer: "bstep w (Ret (upd_stats peerConnect w))"
| b_replay: "bstep w (replay_msg m w)"
| b_peer_gone: "bstep w (Ret (upd_stats peerDisconnect w))"
| b_join: "bstep w (snd (join host w))"

text \<open>The states the broker can be in, from its start: a goroutine that would block does not
  step, so only returning steps lead on. A state crashes when some step panics.\<close>

inductive reachable :: "world \<Rightarrow> world \<Rightarrow> bool" for w0 where
  start: "reachable w0 w0"
| step: "reachable w0 w \<Longrightarrow> bstep w (Ret w') \<Longrightarrow> reachable w0 w'"

definition can_crash :: "world \<Rightarrow> panic \<Rightarrow> bool" where
  "can_crash w p \<longleftrightarrow> (\<exists>w'. bstep w (Panic p w'))"

end
