(* ===== verification/Invariants.thy ===== *)
theory Invariants
  imports Loops
begin

section \<open>What holds between any two steps\<close>

text \<open>
  \<open>inv\<close> is the invariant of the whole broker: the subscription table and the stores are well
  formed, the post queue is open, and for every connection the flags of its two goroutines
  agree with its channels. It is shown for every statement first (\<open>keeps inv\<close>), then for every
  step of \<open>bstep\<close>, however the step ends, and so for every reachable state.

  \<open>has_store\<close> is kept apart because \<^verbatim>\<open>doConnect\<close> breaks it in its middle: in the reading loop, a
  connection that has a CONNECT has a store.
\<close>

definition conn_inv :: "incomingConn \<Rightarrow> bool" where
  "conn_inv k \<longleftrightarrow>
     chan_wf (jobs k) \<and> (alive k \<longleftrightarrow> \<not> closed (jobs k)) \<and> (inpos k = InDone \<longleftrightarrow> closed (jobs k)) \<and>
     (heartbeatStopClosed k \<longleftrightarrow> outpos k = OutDone) \<and>
     (inpos k = InLoop \<or> inpos k = InDone \<or> flag k \<noteq> None)"

definition key_ok :: "string \<Rightarrow> bool" where
  "key_ok k \<longleftrightarrow> (\<exists>mid. k = ibound_mid2key mid \<or> k = obound_mid2key mid)"

definition store_ok :: "MemoryStore \<Rightarrow> bool" where
  "store_ok s \<longleftrightarrow> mem_wf s \<and> (\<forall>k. MemGet k s \<noteq> None \<longrightarrow> key_ok k)"

definition stores_inv :: "client_stores \<Rightarrow> bool" where
  "stores_inv cs \<longleftrightarrow> stores_wf cs \<and> (\<forall>a. store_ok (sobj cs a))"

definition nodes_inv :: "(string, endpoint) gomap \<Rightarrow> bool" where
  "nodes_inv ns \<longleftrightarrow> distinct (map fst ns) \<and>
     (\<forall>h p. map_of ns h = Some p \<longrightarrow> chan_wf (ejobs p) \<and> \<not> closed (ejobs p))"

definition inv :: "world \<Rightarrow> bool" where
  "inv w \<longleftrightarrow>
     subs_wf (table w) \<and> \<not> closed (posts (table w)) \<and> stores_inv (cstores w) \<and>
     (\<forall>c. conn_inv (conns w c)) \<and> nodes_inv (nodes w)"

definition has_store :: "world \<Rightarrow> bool" where
  "has_store w \<longleftrightarrow>
     (\<forall>c. inpos (conns w c) = InLoop \<longrightarrow> flag (conns w c) \<noteq> None \<longrightarrow> cstore (conns w c) \<noteq> None)"

lemma invI:
  "subs_wf (table w) \<Longrightarrow> \<not> closed (posts (table w)) \<Longrightarrow> stores_inv (cstores w) \<Longrightarrow>
   (\<And>c. conn_inv (conns w c)) \<Longrightarrow> nodes_inv (nodes w) \<Longrightarrow> inv w"
  by (simp add: inv_def)

lemma inv_conn [simp]: "inv w \<Longrightarrow> conn_inv (conns w c)"
  by (simp add: inv_def)

lemma inv_conns_ok: "inv w \<Longrightarrow> conns_ok w"
  by (auto simp: inv_def conns_ok_def conn_inv_def)

subsection \<open>Updates that the invariant does not see\<close>

lemma inv_frame [simp]:
  "inv (w\<lparr>clients := x1\<rparr>) = inv w" "inv (w\<lparr>heap := x2\<rparr>) = inv w" "inv (w\<lparr>workers := x3\<rparr>) = inv w"
  "inv (w\<lparr>stats := x4\<rparr>) = inv w" "inv (w\<lparr>redis := x6\<rparr>) = inv w"
  "inv (w\<lparr>nreceipts := x7\<rparr>) = inv w" "inv (w\<lparr>receiptClosed := x8\<rparr>) = inv w"
  "inv (w\<lparr>nconns := x9\<rparr>) = inv w"
  by (simp_all add: inv_def)

lemma inv_upd_stats [simp]: "inv (upd_stats f w) = inv w"
  by (simp add: upd_stats_def)

lemma inv_upd_conn: "inv w \<Longrightarrow> conn_inv (f (conns w c)) \<Longrightarrow> inv (upd_conn c f w)"
  by (simp add: inv_def)

lemma conn_inv_frame [simp]:
  "conn_inv (k\<lparr>connectedAt := x2\<rparr>) = conn_inv k"
  "conn_inv (k\<lparr>lastOpTime := x3\<rparr>) = conn_inv k" "conn_inv (k\<lparr>stopClosed := x4\<rparr>) = conn_inv k"
  "conn_inv (k\<lparr>cstore := x5\<rparr>) = conn_inv k" "conn_inv (k\<lparr>subN := x6\<rparr>) = conn_inv k"
  "conn_inv (k\<lparr>sockClosed := x7\<rparr>) = conn_inv k" "conn_inv (k\<lparr>wire := x8\<rparr>) = conn_inv k"
  "conn_inv (k\<lparr>heartbeats := x9\<rparr>) = conn_inv k" "conn_inv (k\<lparr>kicks := x10\<rparr>) = conn_inv k"
  by (simp_all add: conn_inv_def)

lemma conn_inv_jobs:
  "conn_inv k \<Longrightarrow> chan_wf ch \<Longrightarrow> closed ch = closed (jobs k) \<Longrightarrow> conn_inv (k\<lparr>jobs := ch\<rparr>)"
  by (auto simp: conn_inv_def)

lemma inv_upd_table:
  "inv w \<Longrightarrow> subs_wf (f (table w)) \<Longrightarrow> posts (f (table w)) = posts (table w) \<Longrightarrow> inv (upd_table f w)"
  by (simp add: inv_def)

subsection \<open>Stores\<close>

lemma key_ok_mid [simp]: "key_ok (ibound_mid2key mid)" "key_ok (obound_mid2key mid)"
  by (auto simp: key_ok_def)

lemma key_ok_nonempty: "key_ok k \<Longrightarrow> k \<noteq> []"
  by (auto simp: key_ok_def ibound_mid2key_def obound_mid2key_def IBOUND_PREFIX_def OBOUND_PREFIX_def)

lemma store_ok_ops:
  "store_ok NewMemoryStore"
  "store_ok s \<Longrightarrow> key_ok k \<Longrightarrow> store_ok (MemPut k m s)"
  "store_ok s \<Longrightarrow> store_ok (MemDel k s)"
  "store_ok s \<Longrightarrow> store_ok (MemClose s)"
  "store_ok s \<Longrightarrow> store_ok (MemReset s)"
  by (auto simp: store_ok_def mem_wf_def MemGet_def NewMemoryStore_def MemPut_def MemDel_def
      MemClose_def MemReset_def distinct_update distinct_delete split: if_splits)

lemma stores_inv_put: "stores_inv cs \<Longrightarrow> store_ok s \<Longrightarrow> stores_inv (cs\<lparr>sobj := (sobj cs)(a := s)\<rparr>)"
  by (simp add: stores_inv_def stores_wf_def store_ok_def)

lemma stores_inv_get: "stores_inv cs \<Longrightarrow> getClientStore i cs = (a, cs') \<Longrightarrow> stores_inv cs'"
  using getClientStore_wf [of cs i a cs']
  by (auto simp: stores_inv_def getClientStore_def store_ok_ops split: option.splits)

lemma store_of_ok: "inv w \<Longrightarrow> store_of c w = Some s \<Longrightarrow> store_ok s"
  by (auto simp: store_of_def inv_def stores_inv_def)

lemma persist_store_ok:
  assumes "store_ok s"
  shows "persist_inbound (memory_store e) h m (Some s) = Ret (Some t) \<Longrightarrow> store_ok t"
    and "persist_outbound (memory_store e) h m (Some s) = Ret (Some t) \<Longrightarrow> store_ok t"
  using assms by (cases m; auto simp: memory_store_def store_ok_ops split: if_splits)+

lemma inv_put_store: "inv w \<Longrightarrow> (\<And>s. so = Some s \<Longrightarrow> store_ok s) \<Longrightarrow> inv (put_store a so w)"
  by (cases a; cases so) (simp_all add: inv_def stores_inv_put)

lemma persist_None:
  "state_of (persist_inbound S h m None) = None" "state_of (persist_outbound S h m None) = None"
  by (cases m; simp)+

lemma keeps_persist [keeps_intros]: "keeps inv (persistIn c m)" "keeps inv (persistOut c m)"
proof (auto intro!: keepsI inv_put_store simp: persistIn_def persistOut_def)
  fix w s assume inv: "inv w"
  show "store_ok s"
    if "state_of (persist_inbound (memory_store (env w)) (pobj (heap w)) m (store_of c w)) = Some s"
  proof (cases "store_of c w")
    case (Some s0)
    with ms.persist_total(2) [of "env w" "pobj (heap w)" m s0] that
      persist_store_ok(1) [OF store_of_ok [OF inv Some]] show ?thesis by fastforce
  qed (use that in \<open>simp add: persist_None\<close>)
  show "store_ok s"
    if "state_of (persist_outbound (memory_store (env w)) (pobj (heap w)) m (store_of c w)) = Some s"
  proof (cases "store_of c w")
    case (Some s0)
    with ms.persist_total(1) [of "env w" "pobj (heap w)" m s0] that
      persist_store_ok(2) [OF store_of_ok [OF inv Some]] show ?thesis by fastforce
  qed (use that in \<open>simp add: persist_None\<close>)
qed

subsection \<open>Statements\<close>

lemma keeps_submit [keeps_intros]: "keeps inv (submit c m)"
  by (auto simp: keeps_def inv_def conn_inv_def submit_def Let_def chan_send_def chan_trysend_def
      chan_wf_def)

lemma keeps_submitSync [keeps_intros]: "keeps inv (submitSync c m)"
  by (auto simp: keeps_def inv_def conn_inv_def submitSync_def Let_def chan_send_def chan_wf_def)

lemma keeps_stop [keeps_intros]: "keeps inv (stop c)"
  by (auto simp: keeps_def stop_def Let_def intro!: inv_upd_conn)

lemma keeps_onTerminate [keeps_intros]: "keeps inv (onTerminate c)"
  by (auto simp: keeps_def onTerminate_def split: option.split)

lemma keeps_submitPost [keeps_intros]: "keeps inv (submitPost m)"
  by (auto simp: keeps_def submitPost_def submit_post_def inv_def chan_send_def subs_wf_def)

lemma nodes_inv_update:
  "nodes_inv ns \<Longrightarrow> chan_wf (ejobs q) \<Longrightarrow> \<not> closed (ejobs q) \<Longrightarrow> nodes_inv (AList.update h q ns)"
  by (auto simp: nodes_inv_def distinct_update)

lemma inv_nodes: "inv w \<Longrightarrow> nodes_inv ns \<Longrightarrow> inv (w\<lparr>nodes := ns\<rparr>)"
  by (simp add: inv_def)

lemma keeps_ep_at [keeps_intros]: "keeps inv (ep_at h (ep_submit m))"
proof (rule keepsI)
  fix w assume inv: "inv w"
  show "inv (state_of (ep_at h (ep_submit m) w))"
  proof (cases "map_of (nodes w) h")
    case (Some p)
    have n: "nodes_inv (nodes w)" using inv by (simp add: inv_def)
    with Some have "chan_wf (ejobs p)" "\<not> closed (ejobs p)" by (auto simp: nodes_inv_def)
    then have "chan_wf (ejobs (state_of (ep_submit m p))) \<and> \<not> closed (ejobs (state_of (ep_submit m p)))"
      by (auto simp: ep_submit_def chan_send_def chan_trysend_def chan_wf_def)
    with inv n show ?thesis by (simp add: ep_at_def Some inv_nodes nodes_inv_update)
  qed (use inv in \<open>simp add: ep_at_def\<close>)
qed

lemma keeps_replicate [keeps_intros]: "keeps inv (replicate_pub m)"
  unfolding keeps_def replicate_pub_def
  by (auto intro: keepsD [of inv] keeps_forG keeps_ep_at)

lemma keeps_sendRetain [keeps_intros]: "keeps inv (sendRetain t c)"
  unfolding sendRetain_def
  by (rule keeps_forG)
    (auto simp: keeps_def split: option.split prod.split intro: keepsD [OF keeps_submit])

lemma inv_del [simp]: "inv (del c w) = inv w"
  by (simp add: del_def split: option.split)

lemma inv_add_client: "inv w \<Longrightarrow> add_client c w = Inr (x, w') \<Longrightarrow> inv w'"
  by (auto simp: add_client_def split: option.splits)

lemma keeps_add_again [keeps_intros]: "keeps inv (add_again c)"
  by (auto simp: keeps_def add_again_def split: sum.split dest: inv_add_client)


subsection \<open>Handlers\<close>

lemma inv_add_sub: "inv w \<Longrightarrow> inv (upd_table (add_sub e t c) w)"
  by (rule inv_upd_table) (simp_all add: add_sub_spec inv_def)

lemma inv_unsub: "inv w \<Longrightarrow> inv (upd_table (unsub t c) w)"
  by (rule inv_upd_table) (simp_all add: unsub_spec inv_def)

lemma inv_unsubAll: "inv w \<Longrightarrow> inv (upd_table (unsubAll e c) w)"
  by (rule inv_upd_table) (simp_all add: unsubAll_spec inv_def)

lemma keeps_fun: "(\<And>w. inv w \<Longrightarrow> inv (f w)) \<Longrightarrow> keeps inv (\<lambda>w. Ret (f w))"
  by (simp add: keeps_def)

lemma inv_bindG:
  assumes "inv w" "keeps inv f" "keeps inv g"
  shows "inv (state_of (bindG (f w) g))"
  using keepsD [OF keeps_bindG [OF assms(2,3)] assms(1)] by simp

lemma keeps_subscribe_one: "keeps inv (subscribe_one c tq)"
  unfolding subscribe_one_def Let_def
proof (rule keepsI)
  fix w assume w: "inv w"
  let ?w = "upd_conn c (\<lambda>this. this\<lparr>subN := subN this + 1\<rparr>) w"
  have "keeps inv (\<lambda>u. bindG (whenG b (stop c) u) (\<lambda>w2. Ret (upd_table (add_sub (env w2) (Topic tq) c) w2)))" for b
    by (intro keeps_bindG keeps_whenG keeps_stop keeps_fun inv_add_sub)
  moreover have "inv ?w" using w by (auto intro: inv_upd_conn)
  ultimately show "inv (state_of (bindG (whenG (subN (conns ?w c) > ClientMaxSubscriptions (Broker (cf ?w))) (stop c) ?w)
        (\<lambda>w2. Ret (upd_table (add_sub (env w2) (Topic tq) c) w2))))"
    by (rule keepsD)
qed

lemma keeps_doSubscribe [keeps_intros]: "keeps inv (doSubscribe c h mid ts)"
  unfolding doSubscribe_def
  by (intro keeps_intros keeps_subscribe_one ballI; auto intro!: keeps_intros keeps_subscribe_one)

lemma keeps_doUnsubscribe [keeps_intros]: "keeps inv (doUnsubscribe c mid ts)"
  unfolding doUnsubscribe_def
  by (auto intro!: keeps_intros keeps_fun inv_unsub inv_upd_conn simp: unsubscribe_one_def)

lemma keeps_submit_ack:
  "keeps inv (\<lambda>w. submit c (PubAck h (MessageId (pobj (heap w) p))) w)"
  by (rule keeps_at [where f = "\<lambda>mid. submit c (PubAck h mid)"]) (rule keeps_submit)

lemma keeps_doPublish [keeps_intros]: "keeps inv (doPublish poured c p)"
  unfolding doPublish_def
  by (rule keeps_seqG) (auto intro!: keeps_intros keeps_submit_ack simp del: seqG.simps)

lemma inv_put_reset: "inv w \<Longrightarrow> store_of c w = Some s \<Longrightarrow> inv (put_store a (Some (MemReset s)) w)"
  by (rule inv_put_store) (auto dest!: store_of_ok simp: store_ok_ops)

lemma inv_put_close: "inv w \<Longrightarrow> inv (put_store a (map_option MemClose (store_of c w)) w)"
  by (rule inv_put_store) (auto dest!: store_of_ok simp: store_ok_ops)

lemma keeps_resend [keeps_intros]: "keeps inv (resend c k)"
  by (auto simp: keeps_def resend_def split: option.split message.split intro: keepsD [OF keeps_submit])

lemma keeps_restore_session [keeps_intros]: "keeps inv (restore_session c m)"
proof (rule keepsI)
  fix w assume "inv w"
  then show "inv (state_of (restore_session c m w))"
    by (auto simp: restore_session_def inv_put_reset split: option.split
        intro!: keepsD [OF keeps_forG [OF keeps_resend]])
qed

lemma inv_attach_store: "inv w \<Longrightarrow> inv (attach_store c m w)"
  by (auto simp: attach_store_def split: prod.split intro!: inv_upd_conn)
    (auto simp: inv_def dest: stores_inv_get)

lemma keeps_doConnect_end [keeps_intros]: "keeps inv (doConnect_end now c m rc ex)"
  unfolding doConnect_end_def
  by (rule keeps_seqG)
    (auto intro!: keeps_intros keeps_fun inv_attach_store inv_upd_conn
      simp: start_heartbeat_def split: option.split)

lemma conn_inv_inpos:
  "conn_inv k \<Longrightarrow> inpos k \<noteq> InDone \<Longrightarrow> p \<noteq> InDone \<Longrightarrow> p = InLoop \<or> flag k \<noteq> None \<Longrightarrow>
   conn_inv (k\<lparr>inpos := p\<rparr>)"
  by (auto simp: conn_inv_def)

lemma conn_inv_flag: "conn_inv k \<Longrightarrow> conn_inv (k\<lparr>flag := Some m\<rparr>)"
  by (auto simp: conn_inv_def)

lemma submitSync_inpos:
  "submitSync d m w = Ret w' \<Longrightarrow> inpos (conns w' c) = inpos (conns w c) \<and> flag (conns w' c) = flag (conns w c)"
  by (auto simp: submitSync_def Let_def)

lemma add_client_conns: "add_client c w = Inr (x, w') \<Longrightarrow> conns w' = conns w"
  by (auto simp: add_client_def split: option.splits)

lemma inv_doConnect_begin:
  assumes "inv w" and "inpos (conns w c) \<noteq> InDone"
  shows "inv (state_of (doConnect_begin c m w))"
proof -
  let ?w = "upd_conn c (\<lambda>this. this\<lparr>flag := Some m\<rparr>) w"
  have inv: "inv ?w" and pos: "inpos (conns ?w c) \<noteq> InDone"
    using assms by (auto intro!: inv_upd_conn conn_inv_flag)
  have "inv (state_of (bindG (submitSync x Disconnect w2)
          (\<lambda>w3. Ret (upd_conn c (\<lambda>this. this\<lparr>inpos := InWait m rc x r\<rparr>) w3))))"
    if "add_client c ?w = Inr (y, w2)" for w2 x y r rc
  proof (cases "submitSync x Disconnect w2")
    case (Ret w3)
    have "inv w2" using inv_add_client [OF inv that] .
    then have "inv w3" using keeps_Ret [OF keeps_submitSync _ Ret] by blast
    moreover have "inpos (conns w3 c) \<noteq> InDone" "flag (conns w3 c) \<noteq> None"
      using pos submitSync_inpos [OF Ret] add_client_conns [OF that] by simp_all
    ultimately show ?thesis by (auto simp: Ret intro!: inv_upd_conn conn_inv_inpos)
  qed (use keepsD [OF keeps_submitSync inv_add_client [OF inv that], of x Disconnect] in simp_all)
  with inv show ?thesis
    by (auto simp: doConnect_begin_def Let_def split: sum.split option.split dest: inv_add_client)
qed

subsection \<open>Goroutines\<close>

lemma keeps_close_jobs:
  "keeps inv (\<lambda>u. let w3 = upd_conn c (\<lambda>this. this\<lparr>alive := False, inpos := InDone\<rparr>) u in
     map_res (\<lambda>ch. upd_conn c (\<lambda>this. this\<lparr>jobs := ch\<rparr>) w3) (chan_close (jobs (conns w3 c))))"
proof (rule keepsI)
  fix u assume inv: "inv u"
  then have "conn_inv (conns u c)" by simp
  then have "conn_inv ((conns u c)\<lparr>alive := False, inpos := InDone,
      jobs := state_of (chan_close (jobs (conns u c)))\<rparr>)"
    by (auto simp: conn_inv_def chan_close_def chan_wf_def)
  with inv have "inv (upd_conn c (\<lambda>this. this\<lparr>alive := False, inpos := InDone,
      jobs := state_of (chan_close (jobs (conns u c)))\<rparr>) u)"
    by (intro inv_upd_conn)
  then show "inv (state_of (let w3 = upd_conn c (\<lambda>this. this\<lparr>alive := False, inpos := InDone\<rparr>) u in
     map_res (\<lambda>ch. upd_conn c (\<lambda>this. this\<lparr>jobs := ch\<rparr>) w3) (chan_close (jobs (conns w3 c)))))"
    by (simp add: Let_def upd_conn_def)
qed

lemma keeps_inbound_exit [keeps_intros]: "keeps inv (inbound_exit c)"
proof (rule keepsI)
  fix w assume "inv w"
  then have "inv (put_store (cstore (conns (upd_stats clientDisconnect w) c))
      (map_option MemClose (store_of c (upd_stats clientDisconnect w))) (upd_stats clientDisconnect w))"
    by (intro inv_put_close) simp
  from keepsD [OF keeps_bindG [OF keeps_close_jobs keeps_onTerminate] this]
  show "inv (state_of (inbound_exit c w))"
    by (simp add: inbound_exit_def Let_def)
qed

lemma keeps_after_connect [keeps_intros]: "keeps inv (after_connect c rc)"
  using keeps_inbound_exit [of c] by (simp add: keeps_def after_connect_def)

lemma inv_handle_connect:
  assumes "inv w" "inpos (conns w c) \<noteq> InDone"
  shows "inv (state_of (handle_connect now c m w))"
proof -
  let ?rc = "connect_rc (Broker (cf w)) (Clients (stats w)) m"
  have "keeps inv (\<lambda>w1. bindG (doConnect_end now c m ?rc None w1) (after_connect c ?rc))"
    by (intro keeps_intros)
  then have "keeps inv (\<lambda>w1. case inpos (conns w1 c) of InWait _ _ _ _ \<Rightarrow> Ret w1
      | _ \<Rightarrow> bindG (doConnect_end now c m ?rc None w1) (after_connect c ?rc))"
    by (auto simp: keeps_def split: inpos.split)
  with inv_doConnect_begin [OF assms, of m] show ?thesis
    unfolding handle_connect_def Let_def
    by (cases "doConnect_begin c m w") (auto dest: keepsD)
qed

lemma inv_dispatch:
  "inv w \<Longrightarrow> inpos (conns w c) \<noteq> InDone \<Longrightarrow> inv (state_of (dispatch now poured c m w))"
  by (cases m) (auto simp: dispatch_def validateMessage_def doPublishAck_def intro: inv_handle_connect
      keepsD [OF keeps_doPublish] keepsD [OF keeps_doSubscribe] keepsD [OF keeps_doUnsubscribe]
      keepsD [OF keeps_submit] keepsD [OF keeps_inbound_exit])

lemma inv_inbound_step:
  assumes "inv w" "inpos (conns w c) \<noteq> InDone"
  shows "inv (state_of (inbound_step now poured c d w))"
proof (cases d)
  case DecodeErr
  with assms show ?thesis by (simp add: inbound_step_def keepsD [OF keeps_inbound_exit])
next
  case (Decoded m)
  with assms show ?thesis
    by (auto simp: inbound_step_def Let_def refreshOpTime_def split: prod.split
        intro!: inv_dispatch inv_upd_conn)
qed

lemma inv_connect_resume: "inv w \<Longrightarrow> inv (state_of (connect_resume now c w))"
proof (cases "inpos (conns w c)")
  case (InWait m rc x r)
  assume "inv w"
  then have "inv (upd_conn c (\<lambda>this. this\<lparr>inpos := InLoop\<rparr>) w)"
    using InWait by (auto intro!: inv_upd_conn conn_inv_inpos)
  with keepsD [OF keeps_bindG [OF keeps_doConnect_end keeps_after_connect]] \<open>inv w\<close>
  show ?thesis by (simp add: connect_resume_def InWait)
qed (simp_all add: connect_resume_def)

lemma inv_close_receipt [simp]: "inv (close_receipt r w) = inv w"
  by (cases r) simp_all

lemma conn_inv_outpos: "conn_inv k \<Longrightarrow> outpos k = OutLoop \<Longrightarrow> conn_inv (k\<lparr>outpos := OutCleanup\<rparr>)"
  by (auto simp: conn_inv_def)

lemma put_store_conns [simp]: "conns (put_store a s w) = conns w"
  by (cases a; cases s) simp_all

lemma close_receipt_conns [simp]: "conns (close_receipt r w) = conns w"
  by (cases r) simp_all

lemma chan_recv_wf:
  "chan_recv ch = Some (x, ch') \<Longrightarrow> chan_wf ch \<Longrightarrow> chan_wf ch' \<and> closed ch' = closed ch"
  by (auto simp: chan_recv_def chan_wf_def split: list.splits if_splits)

lemma inv_outbound_step:
  assumes "inv w" "outpos (conns w c) = OutLoop"
  shows "inv (state_of (outbound_step now ok c w))"
proof (cases "\<exists>j ch. chan_recv (jobs (conns w c)) = Some (Some j, ch)")
  case True
  then obtain j ch where j: "chan_recv (jobs (conns w c)) = Some (Some j, ch)" by blast
  let ?w = "upd_conn c (\<lambda>this. this\<lparr>jobs := ch\<rparr>) w"
  have "conn_inv (conns w c)" using assms by simp
  then have "inv ?w" using assms chan_recv_wf [OF j]
    by (intro inv_upd_conn conn_inv_jobs) (auto simp: conn_inv_def)
  then have 1: "inv (state_of (persistOut c (jm j) ?w))" by (rule keepsD [OF keeps_persist(2)])
  have 2: "outpos (conns (state_of (persistOut c (jm j) ?w)) c) = OutLoop"
    using assms by (simp add: persistOut_def)
  from 1 2 show ?thesis
    by (cases "persistOut c (jm j) ?w")
      (auto simp: outbound_step_def j Let_def refreshOpTime_def intro!: inv_upd_conn conn_inv_outpos)
next
  case False
  with assms show ?thesis
    by (auto simp: outbound_step_def split: option.split intro!: inv_upd_conn conn_inv_outpos)
qed

lemma inv_outbound_stopped:
  "inv w \<Longrightarrow> outpos (conns w c) = OutLoop \<Longrightarrow> inv (state_of (outbound_stopped c w))"
  by (auto simp: outbound_stopped_def intro!: inv_upd_conn conn_inv_outpos)

lemma inv_outbound_cleanup: "inv w \<Longrightarrow> inv (state_of (outbound_cleanup c w))"
  by (auto simp: outbound_cleanup_def Let_def intro!: inv_unsubAll inv_upd_conn)
    (auto simp: inv_def conn_inv_def)

lemma inv_heartbeat_tick:
  assumes "inv w"
  shows "inv (state_of (heartbeat_tick now k c w))"
proof -
  have "inv (state_of (bindG (submitSync c Disconnect w)
      (\<lambda>w1. Ret (upd_conn c (\<lambda>this. this\<lparr>heartbeats := remove1 k (heartbeats this),
                         kicks := kicks this @ [nreceipts w]\<rparr>) w1))))"
    using assms by (rule inv_bindG) (auto intro!: keeps_submitSync keeps_fun inv_upd_conn)
  with assms show ?thesis by (simp add: heartbeat_tick_def Let_def)
qed

lemma inv_heartbeat_kicked: "inv w \<Longrightarrow> inv (heartbeat_kicked c r w)"
  by (auto simp: heartbeat_kicked_def intro!: inv_upd_conn)

lemma inv_heartbeat_stopped: "inv w \<Longrightarrow> inv (state_of (heartbeat_stopped k c w))"
  by (auto simp: heartbeat_stopped_def intro!: inv_upd_conn)

lemma inv_table:
  "inv w \<Longrightarrow> subs_wf t \<Longrightarrow> closed (posts t) = closed (posts (table w)) \<Longrightarrow> inv (w\<lparr>table := t\<rparr>)"
  by (simp add: inv_def)

lemma subs_wf_frame [simp]:
  "subs_wf (s\<lparr>posts := ch\<rparr>) = subs_wf s" "subs_wf (s\<lparr>retained := r\<rparr>) = subs_wf s"
  by (simp_all add: subs_wf_def)

lemma inv_worker_take:
  assumes inv: "inv w"
  shows "inv (state_of (worker_take i w))"
proof (cases "chan_recv (posts (table w))")
  case (Some z)
  show ?thesis
  proof (cases z)
    case (Pair x ch)
    show ?thesis
    proof (cases x)
      case (Some po)
      with \<open>chan_recv _ = Some z\<close> Pair have recv: "chan_recv (posts (table w)) = Some (Some po, ch)" by simp
      then have ch: "closed ch = closed (posts (table w))"
        by (auto simp: chan_recv_def split: list.splits if_splits)
      have wf: "subs_wf ((table w)\<lparr>posts := ch\<rparr>)" using inv by (simp add: inv_def)
      let ?m = "pobj (heap w) (pm po)"
      obtain res t where t: "subscribers (env w) (TopicName ?m) ((table w)\<lparr>posts := ch\<rparr>) = (res, t)"
        by (rule prod.exhaust)
      show ?thesis
      proof (cases "Retain (Header ?m) \<and> PayloadSize (env w) (Payload ?m) = 0")
        case True
        then have "worker_take i w = Ret (w\<lparr>table := (table w)\<lparr>posts := ch,
             retained := (retained (table w))(TopicName ?m := None)\<rparr>,
           heap := clear_retain (pm po) (heap w), workers := (workers w)[i := WExited]\<rparr>)"
          using worker_take_delete [OF recv] by blast
        with inv ch show ?thesis by (simp add: inv_def)
      next
        case False
        with subscribers_spec(2,8) [OF wf t] ch inv show ?thesis
          by (simp add: worker_take_post [OF recv _ t] inv_table)
      qed
    qed (use inv Pair Some in \<open>simp add: worker_take_def\<close>)
  qed
qed (use inv in \<open>simp add: worker_take_def\<close>)

lemma inv_worker_deliver:
  assumes "inv w"
  shows "inv (state_of (worker_deliver i w))"
proof -
  have "inv (state_of (bindG (case x of None \<Rightarrow> Ret w | Some c \<Rightarrow> submit c m w)
      (\<lambda>w'. Ret (w'\<lparr>workers := f w'\<rparr>))))" for x m f
  proof (cases x)
    case (Some c)
    show ?thesis unfolding Some option.case
      using assms by (rule inv_bindG) (auto intro!: keeps_submit keeps_fun)
  qed (use assms in simp)
  with assms show ?thesis by (auto simp: worker_deliver_def split: wpos.split)
qed

lemma inv_worker_finish: "inv w \<Longrightarrow> inv (state_of (worker_finish i w))"
  by (auto simp: worker_finish_def keep_retained_def Let_def inv_def subs_wf_def split: wpos.split)

lemma inv_replay_msg: "inv w \<Longrightarrow> inv (state_of (replay_msg m w))"
  by (auto simp: replay_msg_def split: prod.split message.split intro: keepsD [OF keeps_submitPost])

lemma conn_inv_new: "conn_inv (new_conn now n k)" "conn_inv no_conn"
  by (simp_all add: conn_inv_def new_conn_def no_conn_def chan_wf_def make_chan_def)

lemma inv_join: "inv w \<Longrightarrow> inv (state_of (snd (join host w)))"
  by (auto simp: join_def newEndpoint_def inv_def intro: nodes_inv_update)
    (rule nodes_inv_update, simp_all add: make_chan_def chan_wf_def)

lemma inv_accept: "inv w \<Longrightarrow> inv (state_of (accept now w))"
  by (auto simp: accept_def Let_def inv_def conn_inv_new)


lemma inv_NewServer: "inv (state_of (NewServer config e ms))"
  by (auto simp: NewServer_def Let_def inv_def conn_inv_new stores_inv_def store_ok_ops)
    (auto simp: newSubscriptions_def make_chan_def no_stores_def store_ok_ops newPeers_def nodes_inv_def)

theorem bstep_inv:
  assumes "bstep w r" and "inv w"
  shows "inv (state_of r)"
  using assms
  by (induction rule: bstep.induct)
    (simp_all add: inv_accept inv_inbound_step inv_connect_resume inv_outbound_step inv_outbound_stopped
      inv_outbound_cleanup inv_heartbeat_tick inv_heartbeat_kicked inv_heartbeat_stopped inv_worker_take inv_worker_deliver
      inv_worker_finish inv_replay_msg inv_join)

lemma reachable_inv: "reachable w0 w \<Longrightarrow> inv w0 \<Longrightarrow> inv w"
  by (induction rule: reachable.induct) (auto dest: bstep_inv)

end
