(* ===== verification/Safety.thy ===== *)
theory Safety
  imports Invariants
begin

section \<open>Which steps can panic\<close>

text \<open>
  A connection \<open>owns\<close> a store once \<^verbatim>\<open>doConnect\<close> has attached one; it keeps it for good. \<open>G\<close>
  says that everything that may send a message to a connection which must be persisted belongs to an
  owner: the cells of the subscription arrays (also stale ones), the wildcard filters, and the
  messages that are queued already. With \<open>has_store\<close> this shows that \<^verbatim>\<open>persist_inbound\<close> and
  \<^verbatim>\<open>persist_outbound\<close> never see a nil store, and then exactly which inputs make the broker panic.
\<close>

definition owns :: "world \<Rightarrow> nat \<Rightarrow> bool" where
  "owns w c \<longleftrightarrow> cstore (conns w c) \<noteq> None"

fun needs_store :: "ptr message \<Rightarrow> bool" where
  "needs_store (Publish p) = True"
| "needs_store (PubAck h mid) = True"
| "needs_store _ = False"

definition cells :: "'a sheap \<Rightarrow> 'a set" where
  "cells h = (\<Union>a. set (mem h a))"

definition mentioned :: "subscriptions \<Rightarrow> nat set" where
  "mentioned t = {c. Some c \<in> cells (sarrs t) \<or> Some c \<in> wconn ` set (wildcards t)}"

text \<open>The heap of backing arrays only grows; so a slice a worker holds stays within its array.\<close>

definition grows :: "'a sheap \<Rightarrow> 'a sheap \<Rightarrow> bool" where
  "grows h h' \<longleftrightarrow> brk h \<le> brk h' \<and> (\<forall>a < brk h. length (mem h a) \<le> length (mem h' a))"

fun wpos_ok :: "cptr sheap \<Rightarrow> wpos \<Rightarrow> bool" where
  "wpos_ok h (WDeliver m res k r) \<longleftrightarrow> slice_wf h res \<and> k \<le> slen res"
| "wpos_ok h _ \<longleftrightarrow> True"

definition G :: "world \<Rightarrow> bool" where
  "G w \<longleftrightarrow>
     (\<forall>p \<in> set (workers w). wpos_ok (sarrs (table w)) p) \<and>
     (\<forall>c \<in> mentioned (table w). owns w c) \<and>
     (\<forall>c j. j \<in> set (buf (jobs (conns w c))) \<longrightarrow> needs_store (jm j) \<longrightarrow> owns w c)"

text \<open>\<open>R c\<close> is what holds while \<open>c\<close> is in the middle of \<^verbatim>\<open>doConnect\<close>, \<open>Q c\<close> what holds in the
  handlers of a connected client.\<close>

definition R :: "nat \<Rightarrow> world \<Rightarrow> bool" where
  "R c w \<longleftrightarrow> G w \<and> (\<forall>d. owns w d \<longrightarrow> d < nconns w) \<and>
     (\<forall>d. d \<noteq> c \<longrightarrow> inpos (conns w d) = InLoop \<longrightarrow> flag (conns w d) \<noteq> None \<longrightarrow> owns w d)"

definition Q :: "nat \<Rightarrow> world \<Rightarrow> bool" where
  "Q c w \<longleftrightarrow> R c w \<and> owns w c"

subsection \<open>Cells of the backing arrays\<close>

lemma cells_empty [simp]: "cells empty_sheap = {}"
  by (simp add: cells_def empty_sheap_def)

lemma cells_set: "cells (slice_set s i x h) \<subseteq> insert x (cells h)"
proof -
  have "set ((mem h (arr s))[i := x]) \<subseteq> insert x (set (mem h (arr s)))"
    by (rule set_update_subset_insert)
  then show ?thesis by (auto simp: cells_def slice_set_def split: if_splits)
qed

lemma cells_append:
  "slice_append grow zero x s h = (s', h') \<Longrightarrow> cells h' \<subseteq> insert x (insert zero (cells h))"
  using cells_set [of s "slen s" x h]
  by (auto simp: slice_append_def Let_def split: if_splits)
    (auto simp: cells_def slice_list_def split: if_splits dest: in_set_takeD)

lemma cells_nil_out: "cells (nil_out v c n h) \<subseteq> insert None (cells h)"
proof (induction n)
  case (Suc n)
  with cells_set [of v n None "nil_out v c n h"] show ?case by (auto simp: Let_def)
qed auto

lemma grows_refl [simp]: "grows h h"
  by (simp add: grows_def)

lemma grows_trans: "grows h h' \<Longrightarrow> grows h' h'' \<Longrightarrow> grows h h''"
  by (auto simp: grows_def intro: order_trans)

lemma grows_wpos: "grows h h' \<Longrightarrow> wpos_ok h p \<Longrightarrow> wpos_ok h' p"
  by (cases p) (auto simp: grows_def slice_wf_def slice_cap_def intro: order_trans)

lemma grows_set [simp]: "grows h (slice_set s i x h)"
  by (simp add: grows_def slice_set_def)

lemma grows_append: "slice_append grow zero x s h = (s', h') \<Longrightarrow> grows h h'"
  by (auto simp: slice_append_def Let_def grows_def slice_set_def split: if_splits)

lemma grows_nil_out: "grows h (nil_out v c n h)"
  by (induction n) (auto simp: Let_def intro: grows_trans)

lemma grows_add: "grows (sarrs s) (sarrs (add_sub e t c s))"
  by (auto simp: add_sub_def Let_def split: prod.split dest: grows_append)

lemma grows_look: "subscribers e t s = (res, s') \<Longrightarrow> grows (sarrs s) (sarrs s')"
proof -
  have "grows h h'" if "add_matching e parts ws r h = (r', h')" for parts ws r h r' h'
    using that
    by (induction ws arbitrary: r h) (auto split: if_splits prod.splits dest: grows_append intro: grows_trans)
  then show "subscribers e t s = (res, s') \<Longrightarrow> grows (sarrs s) (sarrs s')"
    by (auto simp: subscribers_def split: prod.splits)
qed

lemma grows_unsubAll: "grows (sarrs s) (sarrs (unsubAll e c s))"
proof -
  have "grows h (fold (\<lambda>t h. nil_out (f t) c (g t) h) ks h)" for f g ks h
    by (induction ks arbitrary: h) (auto intro: grows_trans grows_nil_out)
  then show ?thesis by (simp add: unsubAll_def)
qed

lemma grows_unsub: "grows (sarrs s) (sarrs (unsub t c s))"
  using grows_nil_out unsub_loop_nil_out
  by (auto simp: unsub_def split: option.split prod.split) (metis snd_conv)+

lemma mentioned_frame [simp]:
  "mentioned (t\<lparr>posts := ch\<rparr>) = mentioned t" "mentioned (t\<lparr>retained := r\<rparr>) = mentioned t"
  by (simp_all add: mentioned_def)

lemma mentioned_add: "mentioned (add_sub e t c s) \<subseteq> insert c (mentioned s)"
  by (auto simp: add_sub_def mentioned_def newWild_def Let_def split: prod.split dest: cells_append)

lemma mentioned_look:
  assumes "subscribers e t s = (res, s')"
  shows "mentioned s' \<subseteq> mentioned s"
proof -
  have "cells h' \<subseteq> insert None (cells h \<union> wconn ` set ws)"
    if "add_matching e parts ws r h = (r', h')" for parts ws r h r' h'
    using that
  proof (induction ws arbitrary: r h)
    case (Cons w ws)
    then show ?case
      by (fastforce split: if_splits prod.splits dest: cells_append)
  qed auto
  with assms show ?thesis
    by (fastforce simp: subscribers_def mentioned_def split: prod.splits)
qed

lemma mentioned_unsubAll: "mentioned (unsubAll e c s) \<subseteq> mentioned s"
proof -
  have "cells (fold (\<lambda>t h. nil_out (f t) c (g t) h) ks h) \<subseteq> insert None (cells h)" for f g ks h
  proof (induction ks arbitrary: h)
    case (Cons k ks)
    from Cons [of "nil_out (f k) c (g k) h"] cells_nil_out [of "f k" c "g k" h] show ?case by auto
  qed auto
  then show ?thesis by (fastforce simp: unsubAll_def mentioned_def)
qed

lemma mentioned_unsub: "mentioned (unsub t c s) \<subseteq> mentioned s"
proof (cases "map_of (subs s) t")
  case (Some v)
  have "cells (snd (unsub_loop v c (slen v) (sarrs s))) \<subseteq> insert None (cells (sarrs s))"
    unfolding unsub_loop_nil_out by (rule cells_nil_out)
  then show ?thesis
    by (auto simp: unsub_def mentioned_def Some split: prod.split)
qed (simp add: unsub_def)

subsection \<open>Statements\<close>

lemma owns_upd_conn [simp]:
  "owns (upd_conn c f w) d = (if d = c then cstore (f (conns w c)) \<noteq> None else owns w d)"
  by (simp add: owns_def)

lemma owns_frame [simp]:
  "owns (upd_stats g w) d = owns w d" "owns (upd_table k w) d = owns w d"
  "owns (w\<lparr>clients := x1\<rparr>) d = owns w d" "owns (w\<lparr>heap := x2\<rparr>) d = owns w d"
  "owns (w\<lparr>workers := x3\<rparr>) d = owns w d" "owns (w\<lparr>nodes := x5\<rparr>) d = owns w d"
  "owns (w\<lparr>redis := x6\<rparr>) d = owns w d" "owns (w\<lparr>nreceipts := x7\<rparr>) d = owns w d"
  "owns (w\<lparr>receiptClosed := x8\<rparr>) d = owns w d" "owns (w\<lparr>cstores := x9\<rparr>) d = owns w d"
  "owns (w\<lparr>table := x10\<rparr>) d = owns w d"
  by (simp_all add: owns_def)

lemma G_frame [simp]:
  "G (upd_stats g w) = G w" "G (w\<lparr>clients := x1\<rparr>) = G w" "G (w\<lparr>heap := x2\<rparr>) = G w"
  "G (w\<lparr>nodes := x5\<rparr>) = G w" "G (w\<lparr>redis := x6\<rparr>) = G w"
  "G (w\<lparr>nreceipts := x7\<rparr>) = G w" "G (w\<lparr>receiptClosed := x8\<rparr>) = G w" "G (w\<lparr>cstores := x9\<rparr>) = G w"
  by (simp_all add: G_def)

lemma R_frame [simp]:
  "R c (upd_stats g w) = R c w" "R c (w\<lparr>clients := x1\<rparr>) = R c w" "R c (w\<lparr>heap := x2\<rparr>) = R c w"
  "R c (w\<lparr>nodes := x5\<rparr>) = R c w" "R c (w\<lparr>redis := x6\<rparr>) = R c w"
  "R c (w\<lparr>nreceipts := x7\<rparr>) = R c w" "R c (w\<lparr>receiptClosed := x8\<rparr>) = R c w"
  "R c (w\<lparr>cstores := x9\<rparr>) = R c w"
  by (simp_all add: R_def)

lemma Q_frame [simp]:
  "Q c (upd_stats g w) = Q c w" "Q c (w\<lparr>clients := x1\<rparr>) = Q c w" "Q c (w\<lparr>heap := x2\<rparr>) = Q c w"
  "Q c (w\<lparr>nodes := x5\<rparr>) = Q c w" "Q c (w\<lparr>redis := x6\<rparr>) = Q c w"
  "Q c (w\<lparr>nreceipts := x7\<rparr>) = Q c w" "Q c (w\<lparr>receiptClosed := x8\<rparr>) = Q c w"
  "Q c (w\<lparr>cstores := x9\<rparr>) = Q c w"
  by (simp_all add: Q_def)

lemma R_table: "R c w \<Longrightarrow> mentioned t \<subseteq> mentioned (table w) \<Longrightarrow> grows (sarrs (table w)) (sarrs t) \<Longrightarrow> R c (w\<lparr>table := t\<rparr>)"
  by (auto simp: R_def G_def intro: grows_wpos)

lemma Q_table: "Q c w \<Longrightarrow> mentioned t \<subseteq> insert c (mentioned (table w)) \<Longrightarrow>
   grows (sarrs (table w)) (sarrs t) \<Longrightarrow> Q c (w\<lparr>table := t\<rparr>)"
  by (auto simp: Q_def R_def G_def intro: grows_wpos)

text \<open>Changes of a connection that keep its store and do not queue anything.\<close>

lemma R_upd_conn:
  assumes "R c w" and "cstore (f (conns w d)) = cstore (conns w d) \<or> (cstore (f (conns w d)) \<noteq> None \<and> d < nconns w)"
    and "set (buf (jobs (f (conns w d)))) \<subseteq> set (buf (jobs (conns w d)))"
    and "d \<noteq> c \<Longrightarrow> inpos (f (conns w d)) = InLoop \<Longrightarrow> flag (f (conns w d)) \<noteq> None \<Longrightarrow>
           inpos (conns w d) = InLoop \<and> flag (conns w d) \<noteq> None"
  shows "R c (upd_conn d f w)"
proof -
  have own: "owns w x \<Longrightarrow> owns (upd_conn d f w) x" for x
    using assms(2) by (auto simp: owns_def)
  have jobs: "j \<in> set (buf (jobs (conns w x)))" if "j \<in> set (buf (jobs (conns (upd_conn d f w) x)))" for j x
    using assms(3) that by (auto split: if_splits)
  have table: "table (upd_conn d f w) = table w" "workers (upd_conn d f w) = workers w" by simp_all
  have "G w" using assms(1) by (simp add: R_def)
  then have "G (upd_conn d f w)" unfolding G_def table using own jobs by blast
  moreover have "x < nconns (upd_conn d f w)" if "owns (upd_conn d f w) x" for x
    using assms(1,2) that by (auto simp: R_def owns_def split: if_splits)
  moreover have "owns (upd_conn d f w) x"
    if "x \<noteq> c" "inpos (conns (upd_conn d f w) x) = InLoop" "flag (conns (upd_conn d f w) x) \<noteq> None" for x
    using assms(1,4) that own [of x] by (auto simp: R_def split: if_splits)
  ultimately show ?thesis by (simp add: R_def)
qed

lemma Q_upd_conn:
  assumes "Q c w" and "cstore (f (conns w d)) = cstore (conns w d) \<or> (cstore (f (conns w d)) \<noteq> None \<and> d < nconns w)"
    and "set (buf (jobs (f (conns w d)))) \<subseteq> set (buf (jobs (conns w d)))"
    and "d \<noteq> c \<Longrightarrow> inpos (f (conns w d)) = InLoop \<Longrightarrow> flag (f (conns w d)) \<noteq> None \<Longrightarrow>
           inpos (conns w d) = InLoop \<and> flag (conns w d) \<noteq> None"
  shows "Q c (upd_conn d f w)"
  using assms R_upd_conn [of c w f d] by (auto simp: Q_def owns_def)

lemma R_jobs:
  assumes "R c w" and "\<And>j. j \<in> set (buf ch) \<Longrightarrow> needs_store (jm j) \<Longrightarrow> owns w d"
  shows "R c (upd_conn d (\<lambda>k. k\<lparr>jobs := ch\<rparr>) w)"
proof -
  have own: "owns (upd_conn d (\<lambda>k. k\<lparr>jobs := ch\<rparr>) w) x = owns w x" for x by (simp add: owns_def)
  from assms have "G (upd_conn d (\<lambda>k. k\<lparr>jobs := ch\<rparr>) w)"
    unfolding R_def G_def own by (auto split: if_splits)
  with assms(1) show ?thesis unfolding R_def own by auto
qed

lemma R_queued: "R c w \<Longrightarrow> j \<in> set (buf (jobs (conns w d))) \<Longrightarrow> needs_store (jm j) \<Longrightarrow> owns w d"
  by (auto simp: R_def G_def)

lemma R_mentioned: "R c w \<Longrightarrow> d \<in> mentioned (table w) \<Longrightarrow> owns w d"
  by (auto simp: R_def G_def)

lemma R_submit:
  assumes "R c w" and "needs_store m \<Longrightarrow> owns w d"
  shows "R c (state_of (submit d m w))"
proof -
  have eq: "upd_conn d (\<lambda>k. k\<lparr>jobs := jobs (conns w d)\<rparr>) w = w" by (simp add: upd_conn_def)
  define ch where "ch = jobs (conns (state_of (submit d m w)) d)"
  have "state_of (submit d m w) = upd_conn d (\<lambda>k. k\<lparr>jobs := ch\<rparr>) w"
    unfolding ch_def by (rule submit_frame)
  moreover have "R c (upd_conn d (\<lambda>k. k\<lparr>jobs := ch\<rparr>) w)"
  proof (rule R_jobs [OF assms(1)])
    fix j assume "j \<in> set (buf ch)" "needs_store (jm j)"
    then have "j \<in> set (buf (jobs (conns w d))) \<or> jm j = m"
      by (auto simp: ch_def submit_def Let_def chan_send_def chan_trysend_def split: if_splits)
    with R_queued [OF assms(1)] \<open>needs_store (jm j)\<close> assms(2) show "owns w d" by blast
  qed
  ultimately show ?thesis by simp
qed

lemma owns_submit [simp]: "owns (state_of (submit d m w)) x = owns w x"
  by (simp add: owns_def)

lemma keeps_Q_submit [keeps_intros]: "keeps (Q c) (submit c m)"
  by (auto simp: keeps_def Q_def intro: R_submit)

lemma keeps_R_submitSync [keeps_intros]: "keeps (R c) (submitSync d Disconnect)"
proof (rule keepsI)
  fix w assume R: "R c w"
  let ?w = "w\<lparr>nreceipts := Suc (nreceipts w)\<rparr>"
  let ?ch = "state_of (chan_send \<lparr>jm = Disconnect, jr = Some (nreceipts w)\<rparr> (jobs (conns ?w d)))"
  have "R c (upd_conn d (\<lambda>k. k\<lparr>jobs := ?ch\<rparr>) ?w)"
    by (rule R_jobs) (use R in \<open>auto simp: chan_send_def split: if_splits dest: R_queued\<close>)
  then show "R c (state_of (submitSync d Disconnect w))" by (simp add: submitSync_def Let_def)
qed

lemma owns_submitSync [simp]: "owns (state_of (submitSync d m w)) x = owns w x"
  by (simp add: owns_def submitSync_def Let_def)

lemma R_put_store [simp]: "R c (put_store a s w) = R c w" "Q c (put_store a s w) = Q c w"
  by (cases a; cases s; simp)+

lemma keeps_R_stop [keeps_intros]: "keeps (R c) (stop d)" "keeps (Q c) (stop d)"
  by (auto simp: keeps_def stop_def Let_def intro!: R_upd_conn Q_upd_conn)

lemma keeps_R_persist [keeps_intros]:
  "keeps (R c) (persistIn d m)" "keeps (R c) (persistOut d m)"
  "keeps (Q c) (persistIn d m)" "keeps (Q c) (persistOut d m)"
  by (simp_all add: keeps_def persistIn_def persistOut_def)

lemma keeps_R_onTerminate [keeps_intros]: "keeps (R c) (onTerminate d)" "keeps (Q c) (onTerminate d)"
  by (auto simp: keeps_def onTerminate_def split: option.split)

lemma keeps_R_submitPost [keeps_intros]: "keeps (R c) (submitPost m)" "keeps (Q c) (submitPost m)"
  by (auto simp: keeps_def submitPost_def submit_post_def mentioned_def intro!: R_table Q_table)

lemma keeps_R_ep_at [keeps_intros]: "keeps (R c) (ep_at h f)" "keeps (Q c) (ep_at h f)"
  by (auto simp: keeps_def ep_at_def split: option.split)

lemma keeps_R_replicate [keeps_intros]: "keeps (R c) (replicate_pub m)" "keeps (Q c) (replicate_pub m)"
  unfolding keeps_def replicate_pub_def
  by (auto intro: keepsD [of "R c"] keepsD [of "Q c"] keeps_forG keeps_R_ep_at)

lemma keeps_Q_sendRetain [keeps_intros]: "keeps (Q c) (sendRetain t c)"
  unfolding sendRetain_def
  by (rule keeps_forG)
    (auto simp: keeps_def split: option.split prod.split intro: keepsD [OF keeps_Q_submit])

lemma R_del [simp]: "R c (del d w) = R c w"
  by (simp add: del_def split: option.split)

lemma keeps_R_add_again [keeps_intros]: "keeps (R c) (add_again d)"
  by (auto simp: keeps_def add_again_def add_client_def split: sum.split option.splits)

subsection \<open>Handlers and steps\<close>

definition B :: "world \<Rightarrow> bool" where
  "B w \<longleftrightarrow> G w \<and> (\<forall>d. owns w d \<longrightarrow> d < nconns w) \<and> has_store w"

lemma B_iff: "B w \<longleftrightarrow> (\<forall>c. R c w)"
proof
  assume R: "\<forall>c. R c w"
  have "owns w d" if "inpos (conns w d) = InLoop" "flag (conns w d) \<noteq> None" for d
    using R [rule_format, of "Suc d"] that by (auto simp: R_def)
  with R show "B w" by (auto simp: B_def R_def has_store_def owns_def)
qed (auto simp: B_def R_def has_store_def owns_def)

lemma B_R: "B w \<Longrightarrow> R c w"
  by (simp add: B_iff)

lemma R_B: "R c w \<Longrightarrow> (inpos (conns w c) = InLoop \<Longrightarrow> flag (conns w c) \<noteq> None \<Longrightarrow> owns w c) \<Longrightarrow> B w"
  unfolding B_def R_def has_store_def owns_def by metis

lemma Q_B: "Q c w \<Longrightarrow> B w"
  by (rule R_B) (auto simp: Q_def)

lemma B_Q: "B w \<Longrightarrow> inpos (conns w c) = InLoop \<Longrightarrow> flag (conns w c) \<noteq> None \<Longrightarrow> Q c w"
  by (auto simp: B_def Q_def R_def has_store_def owns_def)

lemma B_keeps: "(\<And>c. keeps (R c) f) \<Longrightarrow> B w \<Longrightarrow> B (state_of (f w))"
  by (auto simp: B_iff dest: keepsD)

lemma R_fun: "(\<And>w. R c w \<Longrightarrow> R c (f w)) \<Longrightarrow> keeps (R c) (\<lambda>w. Ret (f w))"
  and Q_fun: "(\<And>w. Q c w \<Longrightarrow> Q c (f w)) \<Longrightarrow> keeps (Q c) (\<lambda>w. Ret (f w))"
  by (simp_all add: keeps_def)

lemma keeps_Q_subscribe_one: "keeps (Q c) (subscribe_one c tq)"
proof (rule keepsI)
  fix w assume w: "Q c w"
  let ?w = "upd_conn c (\<lambda>this. this\<lparr>subN := subN this + 1\<rparr>) w"
  have "keeps (Q c) (\<lambda>u. bindG (whenG b (stop c) u) (\<lambda>w2. Ret (upd_table (add_sub (env w2) (Topic tq) c) w2)))" for b
    by (intro keeps_bindG keeps_whenG keeps_R_stop Q_fun)
      (auto simp: upd_table_def intro!: Q_table mentioned_add grows_add)
  moreover have "Q c ?w" using w by (auto intro!: Q_upd_conn)
  ultimately show "Q c (state_of (subscribe_one c tq w))"
    unfolding subscribe_one_def Let_def by (rule keepsD)
qed

lemma keeps_Q_doSubscribe: "keeps (Q c) (doSubscribe c h mid ts)"
  unfolding doSubscribe_def
  by (intro keeps_intros keeps_Q_subscribe_one ballI; auto intro!: keeps_intros keeps_Q_subscribe_one)

lemma keeps_Q_doPublish: "keeps (Q c) (doPublish poured c p)"
proof -
  have ack: "keeps (Q c) (\<lambda>w. submit c (PubAck zero_header (MessageId (pobj (heap w) p))) w)"
    by (rule keeps_at [where f = "\<lambda>mid. submit c (PubAck zero_header mid)"]) (rule keeps_Q_submit)
  show ?thesis unfolding doPublish_def
    by (rule keeps_seqG) (auto intro!: keeps_intros ack simp del: seqG.simps)
qed

lemma keeps_R_submit_plain: "\<not> needs_store m \<Longrightarrow> keeps (R d) (submit c m)"
  by (rule keepsI, rule R_submit) simp_all

lemma keeps_R_doUnsubscribe: "keeps (R d) (doUnsubscribe c mid ts)"
  unfolding doUnsubscribe_def
  by (auto intro!: keeps_intros keeps_R_submit_plain R_fun)
    (auto simp: unsubscribe_one_def upd_table_def intro!: R_table R_upd_conn grows_unsub
      dest: subsetD [OF mentioned_unsub])

lemma keeps_R_inbound_exit: "keeps (R d) (inbound_exit c)" "keeps (Q d) (inbound_exit c)"
proof -
  have "R d (state_of (inbound_exit c w))" if R: "R d w" for w
  proof -
    let ?w1 = "upd_stats clientDisconnect w"
    let ?w2 = "put_store (cstore (conns ?w1 c)) (map_option MemClose (store_of c ?w1)) ?w1"
    let ?w3 = "upd_conn c (\<lambda>this. this\<lparr>alive := False, inpos := InDone\<rparr>) ?w2"
    have 3: "R d ?w3" using R by (intro R_upd_conn) auto
    have "R d (upd_conn c (\<lambda>this. this\<lparr>jobs := state_of (chan_close (jobs (conns ?w3 c)))\<rparr>) ?w3)"
      by (rule R_jobs [OF 3], rule R_queued [OF 3]) (auto simp: chan_close_def split: if_splits)
    with keepsD [OF keeps_R_onTerminate(1), of d _ c] show ?thesis
      by (cases "chan_close (jobs (conns ?w3 c))") (simp_all add: inbound_exit_def Let_def)
  qed
  moreover have "owns (state_of (inbound_exit c w)) x = owns w x" for w x
    by (auto simp: inbound_exit_def Let_def owns_def chan_close_def onTerminate_def split: option.split)
  ultimately show "keeps (R d) (inbound_exit c)" "keeps (Q d) (inbound_exit c)"
    by (simp_all add: keeps_def Q_def)
qed

lemma keeps_R_begin: "keeps (R c) (doConnect_begin c m)"
proof (rule keepsI)
  fix w assume "R c w"
  then have R: "R c (upd_conn c (\<lambda>this. this\<lparr>flag := Some m\<rparr>) w)" (is "R c ?w")
    by (intro R_upd_conn) auto
  have "R c w2" if "add_client c ?w = Inr (y, w2)" for y w2
    using that R by (auto simp: add_client_def split: option.splits)
  moreover have "R c (state_of (bindG (submitSync x Disconnect w2)
      (\<lambda>w3. Ret (upd_conn c (\<lambda>this. this\<lparr>inpos := p\<rparr>) w3))))" if "R c w2" for x w2 p
    using keepsD [OF keeps_R_submitSync that, of x]
    by (cases "submitSync x Disconnect w2") (auto intro!: R_upd_conn)
  ultimately show "R c (state_of (doConnect_begin c m w))"
    using R by (auto simp: doConnect_begin_def Let_def split: sum.split option.split)
qed

lemma Q_attach_store: "R c w \<Longrightarrow> c < nconns w \<Longrightarrow> Q c (attach_store c m w)"
  by (auto simp: attach_store_def Q_def split: prod.split intro!: R_upd_conn)

lemma keeps_Q_restore: "keeps (Q c) (restore_session c m)"
proof -
  have "keeps (Q c) (resend c k)" for k
    by (auto simp: keeps_def resend_def split: option.split message.split intro: keepsD [OF keeps_Q_submit])
  then have "keeps (Q c) (forG ks (resend c))" for ks by (rule keeps_forG)
  then show ?thesis by (auto simp: keeps_def restore_session_def split: option.split)
qed

lemma keeps_Q_tail:
  "keeps (Q c) (seqG [restore_session c m,
       \<lambda>w. Ret (upd_conn c (\<lambda>this. this\<lparr>connectedAt := now\<rparr>) w),
       \<lambda>w. Ret (if b w then w\<lparr>redis := k w\<rparr> else w),
       submit c (ConnAck rc)])"
  by (rule keeps_seqG) (auto intro!: keeps_Q_restore keeps_Q_submit Q_fun Q_upd_conn)

lemma doConnect_end_Q:
  assumes "R c w" "c < nconns w" "doConnect_end now c m rc ex w = Ret w'"
  shows "Q c w'"
proof -
  let ?d = "\<lambda>w. case ex of None \<Rightarrow> w | Some e \<Rightarrow> del e w"
  from assms obtain w1 where w1: "add_again c (?d w) = Ret w1"
    by (cases "add_again c (?d w)") (auto simp: doConnect_end_def)
  have "R c (?d w)" using assms(1) by (simp split: option.split)
  then have "R c w1" by (rule keeps_Ret [OF keeps_R_add_again _ w1])
  then have "R c (start_heartbeat c m w1)"
    by (auto simp: start_heartbeat_def intro!: R_upd_conn)
  moreover have "nconns (start_heartbeat c m w1) = nconns w"
    using w1 by (auto simp: start_heartbeat_def add_again_def add_client_def del_def split: option.splits)
  ultimately have "Q c (attach_store c m (start_heartbeat c m w1))"
    using assms(2) by (simp add: Q_attach_store)
  from keeps_Ret [OF keeps_Q_tail this] assms(3) show ?thesis
    by (simp add: doConnect_end_def w1 add.commute)
qed

lemma after_connect_Q: "Q c w \<Longrightarrow> Q c (state_of (after_connect c rc w))"
  by (simp add: after_connect_def keepsD [OF keeps_R_inbound_exit(2)])

lemma doConnect_begin_nconns: "doConnect_begin c m w = Ret w1 \<Longrightarrow> nconns w1 = nconns w"
  by (auto simp: doConnect_begin_def Let_def add_client_def submitSync_def chan_send_def
      split: option.splits if_splits)

lemma B_handle_connect:
  assumes "B w" "c < nconns w" "handle_connect now c m w = Ret w'"
  shows "B w'"
proof -
  let ?rc = "connect_rc (Broker (cf w)) (Clients (stats w)) m"
  from assms(3) obtain w1 where w1: "doConnect_begin c m w = Ret w1"
    by (cases "doConnect_begin c m w") (auto simp: handle_connect_def Let_def)
  have R: "R c w1" by (rule keeps_Ret [OF keeps_R_begin B_R [OF assms(1)] w1])
  have n: "c < nconns w1" using assms(2) doConnect_begin_nconns [OF w1] by simp
  show ?thesis
  proof (cases "\<exists>a b d e. inpos (conns w1 c) = InWait a b d e")
    case True
    with assms(3) w1 have "w' = w1" by (auto simp: handle_connect_def Let_def)
    with R True show ?thesis by (auto intro: R_B)
  next
    case False
    with assms(3) w1 have "bindG (doConnect_end now c m ?rc None w1) (after_connect c ?rc) = Ret w'"
      by (auto simp: handle_connect_def Let_def split: inpos.splits)
    then obtain w2 where "doConnect_end now c m ?rc None w1 = Ret w2" "after_connect c ?rc w2 = Ret w'"
      by (cases "doConnect_end now c m ?rc None w1") auto
    with doConnect_end_Q [OF R n] after_connect_Q [of c w2 ?rc] have "Q c w'" by fastforce
    then show ?thesis by (rule Q_B)
  qed
qed

lemma B_frame [simp]:
  "B (upd_stats g w) = B w" "B (w\<lparr>heap := x2\<rparr>) = B w"
  "B (w\<lparr>nodes := x5\<rparr>) = B w" "B (w\<lparr>receiptClosed := x8\<rparr>) = B w"
  by (simp_all add: B_iff)

lemma B_upd_conn:
  "B w \<Longrightarrow> cstore (f (conns w d)) = cstore (conns w d) \<Longrightarrow>
   set (buf (jobs (f (conns w d)))) \<subseteq> set (buf (jobs (conns w d))) \<Longrightarrow>
   inpos (f (conns w d)) = inpos (conns w d) \<Longrightarrow> flag (f (conns w d)) = flag (conns w d) \<Longrightarrow>
   B (upd_conn d f w)"
  unfolding B_iff by (intro allI R_upd_conn) simp_all

lemma keeps_Q_flag:
  assumes "B w" "inpos (conns w c) = InLoop" "keeps (Q c) f" "f w = Ret w'"
    and "flag (conns w c) = None \<Longrightarrow> \<not> returns (f w)"
  shows "B w'"
proof -
  have "flag (conns w c) \<noteq> None" using assms(4,5) by (auto simp: returns_iff)
  with assms(1,2) have "Q c w" by (rule B_Q)
  from keeps_Ret [OF assms(3) this assms(4)] show ?thesis by (rule Q_B)
qed

lemma doPublish_no_flag: "flag (conns w c) = None \<Longrightarrow> \<not> returns (doPublish poured c p w)"
  by (cases poured) (auto simp: doPublish_def stop_def Let_def)

lemma doSubscribe_no_flag: "flag (conns w c) = None \<Longrightarrow> \<not> returns (doSubscribe c h mid ts w)"
  by (simp add: doSubscribe_def)

lemma keeps_B: "(\<And>d. keeps (R d) f) \<Longrightarrow> B w \<Longrightarrow> f w = Ret w' \<Longrightarrow> B w'"
  by (metis B_keeps state_of.simps(1))

lemma B_dispatch:
  assumes "B w" "c < nconns w" "inpos (conns w c) = InLoop" "dispatch now poured c m w = Ret w'"
  shows "B w'"
proof (cases m)
  case (Connect x)
  with assms show ?thesis by (auto simp: dispatch_def intro: B_handle_connect)
next
  case (Publish p)
  with assms show ?thesis
    by (auto simp: dispatch_def intro: keeps_Q_flag [OF _ _ keeps_Q_doPublish _ doPublish_no_flag])
next
  case (Subscribe h mid ts)
  with assms show ?thesis
    by (auto simp: dispatch_def intro: keeps_Q_flag [OF _ _ keeps_Q_doSubscribe _ doSubscribe_no_flag])
next
  case (Unsubscribe mid ts)
  with assms show ?thesis
    by (auto simp: dispatch_def intro: keeps_B [OF keeps_R_doUnsubscribe])
next
  case PingReq
  then have "submit c PingResp w = Ret w'" using assms(4) by (simp add: dispatch_def validateMessage_def)
  from keeps_B [OF keeps_R_submit_plain assms(1) this] show ?thesis by simp
qed (use assms in \<open>auto simp: dispatch_def doPublishAck_def validateMessage_def
      intro: keeps_B [OF keeps_R_inbound_exit(1)]\<close>)

lemma B_inbound_step:
  assumes "B w" "c < nconns w" "inpos (conns w c) = InLoop" "inbound_step now poured c d w = Ret w'"
  shows "B w'"
proof (cases d)
  case DecodeErr
  then have "inbound_exit c (upd_stats aborted w) = Ret w'" using assms(4) by (simp add: inbound_step_def)
  from keeps_B [OF keeps_R_inbound_exit(1) _ this] assms(1) show ?thesis by simp
next
  case (Decoded m)
  obtain m' h where rec: "receive m (heap w) = (m', h)" by (rule prod.exhaust)
  let ?u = "(refreshOpTime now c (upd_stats (addIn (env w) m) (upd_stats messageRecv w)))\<lparr>heap := h\<rparr>"
  have "B ?u" using assms(1) by (simp add: refreshOpTime_def B_upd_conn)
  moreover have "c < nconns ?u" using assms(2) by (simp add: refreshOpTime_def)
  moreover have "inpos (conns ?u c) = InLoop" using assms(3) by (simp add: refreshOpTime_def)
  moreover have "dispatch now poured c m' ?u = Ret w'"
    using assms(4) Decoded rec by (simp add: inbound_step_def Let_def refreshOpTime_def)
  ultimately show ?thesis by (rule B_dispatch)
qed

lemma B_connect_resume:
  assumes "B w" "c < nconns w" "connect_resume now c w = Ret w'"
  shows "B w'"
proof (cases "inpos (conns w c)")
  case (InWait m rc x r)
  let ?w = "upd_conn c (\<lambda>this. this\<lparr>inpos := InLoop\<rparr>) w"
  have R: "R c ?w" using B_R [OF assms(1)] by (intro R_upd_conn) auto
  have n: "c < nconns ?w" using assms(2) by simp
  from assms(3) InWait have "bindG (doConnect_end now c m rc (Some x) ?w) (after_connect c rc) = Ret w'"
    by (auto simp: connect_resume_def split: if_splits)
  then obtain w2 where "doConnect_end now c m rc (Some x) ?w = Ret w2" "after_connect c rc w2 = Ret w'"
    by (cases "doConnect_end now c m rc (Some x) ?w") auto
  with doConnect_end_Q [OF R n] after_connect_Q [of c w2 rc] have "Q c w'" by fastforce
  then show ?thesis by (rule Q_B)
qed (use assms in \<open>auto simp: connect_resume_def\<close>)

lemma B_table: "B w \<Longrightarrow> mentioned t \<subseteq> mentioned (table w) \<Longrightarrow> grows (sarrs (table w)) (sarrs t) \<Longrightarrow>
   B (w\<lparr>table := t\<rparr>)"
  by (simp add: B_iff R_table)

lemma B_close_receipt [simp]: "B (close_receipt r w) = B w"
  by (cases r) simp_all

lemma B_outbound_step:
  assumes "B w" "outbound_step now ok c w = Ret w'"
  shows "B w'"
proof (cases "\<exists>j ch. chan_recv (jobs (conns w c)) = Some (Some j, ch)")
  case True
  then obtain j ch where j: "chan_recv (jobs (conns w c)) = Some (Some j, ch)" by blast
  let ?w = "upd_conn c (\<lambda>this. this\<lparr>jobs := ch\<rparr>) w"
  have "B ?w" using assms(1) j
    by (intro B_upd_conn) (auto simp: chan_recv_def split: list.splits if_splits)
  moreover obtain w1 where w1: "persistOut c (jm j) ?w = Ret w1"
    using assms(2) j by (cases "persistOut c (jm j) ?w") (auto simp: outbound_step_def)
  ultimately have "B w1" using keeps_B [OF keeps_R_persist(2)] by blast
  then show ?thesis using assms(2) w1 j
    by (auto simp: outbound_step_def Let_def refreshOpTime_def intro!: B_upd_conn split: if_splits)
next
  case False
  with assms show ?thesis
    by (auto simp: outbound_step_def split: option.splits intro!: B_upd_conn)
qed

lemma B_outbound_stopped: "B w \<Longrightarrow> outbound_stopped c w = Ret w' \<Longrightarrow> B w'"
  by (auto simp: outbound_stopped_def split: if_splits intro!: B_upd_conn)

lemma B_del [simp]: "B (del c w) = B w"
  by (simp add: B_iff)

lemma B_outbound_cleanup:
  assumes "B w" "outbound_cleanup c w = Ret w'"
  shows "B w'"
proof -
  let ?w = "del c (upd_conn c (\<lambda>this. this\<lparr>heartbeatStopClosed := True, sockClosed := True,
                        outpos := OutDone\<rparr>) w)"
  have "B ?w" using assms(1) by (auto intro!: B_upd_conn)
  then have "B (?w\<lparr>table := unsubAll (env ?w) c (table ?w)\<rparr>)" by (rule B_table [OF _ mentioned_unsubAll grows_unsubAll])
  with assms(2) show ?thesis by (auto simp: outbound_cleanup_def Let_def upd_table_def split: if_splits)
qed

lemma B_heartbeat_stopped: "B w \<Longrightarrow> heartbeat_stopped k c w = Ret w' \<Longrightarrow> B w'"
  by (auto simp: heartbeat_stopped_def split: if_splits intro!: B_upd_conn)

lemma B_heartbeat_tick:
  assumes "B w" "heartbeat_tick now k c w = Ret w'"
  shows "B w'"
proof (cases "submitSync c Disconnect w")
  case (Ret w1)
  have "B w1" using keeps_B [OF keeps_R_submitSync assms(1) Ret] .
  with assms Ret show ?thesis
    by (auto simp: heartbeat_tick_def Let_def split: if_splits intro!: B_upd_conn)
qed (use assms in \<open>auto simp: heartbeat_tick_def Let_def split: if_splits\<close>)

lemma B_heartbeat_kicked: "B w \<Longrightarrow> B (heartbeat_kicked c r w)"
  by (auto simp: heartbeat_kicked_def intro!: B_upd_conn)

lemma B_workers: "B w \<Longrightarrow> wpos_ok (sarrs (table w)) p \<Longrightarrow> B (w\<lparr>workers := (workers w)[i := p]\<rparr>)"
  using set_update_subset_insert [of "workers w" i p]
  by (auto simp: B_def G_def has_store_def owns_def)

lemma B_wpos: "B w \<Longrightarrow> i < length (workers w) \<Longrightarrow> wpos_ok (sarrs (table w)) (workers w ! i)"
  by (auto simp: B_def G_def)

lemma B_worker_take:
  assumes "inv w" "B w" "worker_take i w = Ret w'"
  shows "B w'"
proof (cases "\<exists>po ch. chan_recv (posts (table w)) = Some (Some po, ch)")
  case True
  then obtain po ch where recv: "chan_recv (posts (table w)) = Some (Some po, ch)" by blast
  let ?m = "pobj (heap w) (pm po)" and ?t = "(table w)\<lparr>posts := ch\<rparr>"
  obtain res t where t: "subscribers (env w) (TopicName ?m) ?t = (res, t)"
    by (rule prod.exhaust)
  let ?h = "clear_retain (pm po) (heap w)"
  have "B (w\<lparr>heap := ?h, table := ?t\<lparr>retained := r\<rparr>\<rparr>)" for r
    using assms(2) by (intro B_table) simp_all
  moreover have "B (w\<lparr>heap := ?h, table := t\<rparr>)"
    using assms(2) mentioned_look [OF t] grows_look [OF t] by (intro B_table) simp_all
  moreover have "slice_wf (sarrs t) res"
    using subscribers_spec(4) [OF _ t] assms(1) by (simp add: inv_def)
  ultimately have "B (w\<lparr>heap := ?h, table := ?t\<lparr>retained := r\<rparr>, workers := (workers w)[i := WExited]\<rparr>)"
    "B (w\<lparr>heap := ?h, table := t, workers := (workers w)[i := WDeliver (pm po) res 0 b]\<rparr>)" for r b
    using B_workers [of "w\<lparr>heap := ?h, table := ?t\<lparr>retained := r\<rparr>\<rparr>" WExited i]
      B_workers [of "w\<lparr>heap := ?h, table := t\<rparr>" "WDeliver (pm po) res 0 b" i] by simp_all
  with assms(3) show ?thesis
    by (auto simp: worker_take_def recv t Let_def split: if_splits)
next
  case False
  with assms(2,3) B_workers [of w WExited i] show ?thesis
    by (auto simp: worker_take_def split: option.splits prod.splits)
qed

lemma B_worker_deliver:
  assumes "B w" "worker_deliver i w = Ret w'" "i < length (workers w)"
    and "workers w ! i = WDeliver m res k r" "k < slen res"
  shows "B w'"
proof -
  have k: "k < length (mem (sarrs (table w)) (arr res))" "slice_wf (sarrs (table w)) res"
    using B_wpos [OF assms(1,3)] assms(4,5) by (auto simp: slice_wf_def slice_cap_def)
  let ?x = "mem (sarrs (table w)) (arr res) ! k"
  from assms(2,4,5) obtain u where u: "(case ?x of None \<Rightarrow> Ret w | Some c \<Rightarrow> submit c (Publish m) w) = Ret u"
    and w': "w' = u\<lparr>workers := (workers u)[i := WDeliver m res (Suc k) r]\<rparr>"
    by (cases "case ?x of None \<Rightarrow> Ret w | Some c \<Rightarrow> submit c (Publish m) w")
      (auto simp: worker_deliver_def)
  have "B u"
  proof (cases ?x)
    case (Some c)
    have "?x \<in> set (mem (sarrs (table w)) (arr res))" using k(1) by (rule nth_mem)
    with Some have "c \<in> mentioned (table w)" by (auto simp: mentioned_def cells_def)
    with assms(1) have "owns w c" using R_mentioned [OF B_R] by blast
    with assms(1) have "R d (state_of (submit c (Publish m) w))" for d by (intro R_submit B_R)
    with u Some show ?thesis by (simp add: B_iff)
  qed (use u assms(1) in simp)
  moreover have "table u = table w"
    using u by (auto split: option.splits dest: submit_Ret_frame)
  ultimately show ?thesis unfolding w' using k(2) assms(5) by (intro B_workers) simp_all
qed

lemma B_worker_finish:
  assumes "B w" "worker_finish i w = Ret w'"
  shows "B w'"
proof -
  have "B (keep_retained m w)" for m
    using assms(1) by (auto simp: keep_retained_def Let_def intro!: B_table)
  then have "B ((keep_retained m w)\<lparr>workers := (workers (keep_retained m w))[i := WIdle]\<rparr>)"
    "B (w\<lparr>workers := (workers w)[i := WIdle]\<rparr>)" for m
    using assms(1) by (auto intro!: B_workers)
  with assms show ?thesis
    by (auto simp: worker_finish_def Let_def split: wpos.splits if_splits)
qed

lemma B_replay_msg: "B w \<Longrightarrow> replay_msg m w = Ret w' \<Longrightarrow> B w'"
  by (auto simp: replay_msg_def split: prod.splits message.splits
      dest: keeps_B [OF keeps_R_submitPost(1), rotated])

lemma B_accept:
  assumes "B w" "accept now w = Ret w'"
  shows "B w'"
proof -
  let ?k = "new_conn now (nat (ClientOutboundQueueLen (Broker (cf w)))) (ClientMaxPublishPerMinute (Broker (cf w)))"
  have w': "w' = (upd_stats clientConnect w)\<lparr>conns := (conns w)(nconns w := ?k), nconns := Suc (nconns w)\<rparr>"
    using assms(2) by (auto simp: accept_def Let_def split: if_splits)
  have fresh: "owns w c \<Longrightarrow> c < nconns w" for c using assms(1) by (simp add: B_def)
  have new: "\<not> owns w (nconns w)" using fresh by blast
  have own: "owns w' c \<longleftrightarrow> owns w c" for c
    using new by (cases "c = nconns w") (auto simp: w' owns_def new_conn_def)
  have "workers w' = workers w" "table w' = table w" by (simp_all add: w')
  moreover have "j \<in> set (buf (jobs (conns w c)))" if "j \<in> set (buf (jobs (conns w' c)))" for j c
    using that by (auto simp: w' new_conn_def make_chan_def split: if_splits)
  ultimately have "G w'" using assms(1) unfolding B_def G_def own by (metis (no_types))
  moreover have "owns w' d" if "inpos (conns w' d) = InLoop" "flag (conns w' d) \<noteq> None" for d
    using assms(1) that unfolding own by (auto simp: B_def has_store_def owns_def w' new_conn_def split: if_splits)
  moreover have "d < nconns w'" if "owns w' d" for d
    using fresh [of d] that unfolding own by (simp add: w')
  ultimately show ?thesis by (auto simp: B_def has_store_def owns_def)
qed

lemma B_join: "B w \<Longrightarrow> snd (join host w) = Ret w' \<Longrightarrow> B w'"
  by (auto simp: join_def split: if_splits sum.splits)

lemma B_NewServer: "B (state_of (NewServer config e ms))"
  by (auto simp: NewServer_def Let_def B_def G_def has_store_def owns_def mentioned_def no_conn_def new_conn_def
      newSubscriptions_def make_chan_def start_workers_def)

lemma bstep_B:
  assumes "bstep w r" and "inv w" and "B w" and "r = Ret w'"
  shows "B w'"
  using assms
proof (induction rule: bstep.induct)
  case b_accept
  show ?case by (rule B_accept) (fact b_accept)+
next
  case b_inbound
  show ?case by (rule B_inbound_step) (fact b_inbound)+
next
  case b_resume
  show ?case by (rule B_connect_resume) (fact b_resume)+
next
  case b_outbound
  show ?case by (rule B_outbound_step) (fact b_outbound)+
next
  case b_stopped
  show ?case by (rule B_outbound_stopped) (fact b_stopped)+
next
  case b_cleanup
  show ?case by (rule B_outbound_cleanup) (fact b_cleanup)+
next
  case b_heartbeat
  show ?case by (rule B_heartbeat_tick) (fact b_heartbeat)+
next
  case b_hbstop
  show ?case by (rule B_heartbeat_stopped) (fact b_hbstop)+
next
  case b_take
  show ?case by (rule B_worker_take) (fact b_take)+
next
  case b_deliver
  show ?case by (rule B_worker_deliver) (fact b_deliver)+
next
  case b_finish
  show ?case by (rule B_worker_finish) (fact b_finish)+
next
  case b_replay
  show ?case by (rule B_replay_msg) (fact b_replay)+
next
  case b_join
  show ?case by (rule B_join) (fact b_join)+
next
  case b_kicked
  then show ?case using B_heartbeat_kicked by auto
qed auto

text \<open>The states of a broker that was started with a configuration.\<close>

definition broker_state :: "world \<Rightarrow> bool" where
  "broker_state w \<longleftrightarrow> (\<exists>config e ms w0. NewServer config e ms = Ret w0 \<and> reachable w0 w)"

lemma broker_state_inv:
  assumes "broker_state w"
  shows "inv w \<and> B w"
proof -
  from assms obtain config e ms w0 where w0: "NewServer config e ms = Ret w0" and r: "reachable w0 w"
    by (auto simp: broker_state_def)
  have start: "inv w0" "B w0"
    using inv_NewServer [of config e ms] B_NewServer [of config e ms] w0 by simp_all
  from r show ?thesis
  proof (induction rule: reachable.induct)
    case (step w w')
    then show ?case using bstep_inv [of w "Ret w'"] bstep_B [OF step.hyps(2)] by simp
  qed (simp add: start)
qed

lemma broker_state_step: "broker_state w \<Longrightarrow> bstep w (Ret w') \<Longrightarrow> broker_state w'"
  unfolding broker_state_def by (blast intro: reachable.step)

end
