(* ===== verification/Crashes.thy ===== *)
theory Crashes
  imports Safety
begin

section \<open>Exactly which inputs crash the broker\<close>

text \<open>
  \<open>calm P f\<close>: from a state with \<open>P\<close> the statement \<open>f\<close> does not panic and keeps \<open>P\<close>. The
  statements of the handlers are calm for \<open>Z c\<close>, the state of a connection in its reading loop
  that has sent a CONNECT; what is left are the few places where a panic depends on the input,
  collected in \<open>crash_input\<close>.
\<close>

definition calm :: "('s \<Rightarrow> bool) \<Rightarrow> ('s \<Rightarrow> 's res) \<Rightarrow> bool" where
  "calm P f \<longleftrightarrow> (\<forall>s. P s \<longrightarrow> \<not> panics (f s) \<and> P (state_of (f s)))"

named_theorems calm_intros "composition rules for statements that do not panic"

lemma calmI: "(\<And>s. P s \<Longrightarrow> \<not> panics (f s)) \<Longrightarrow> keeps P f \<Longrightarrow> calm P f"
  by (simp add: calm_def keeps_def)

lemma calmD: "calm P f \<Longrightarrow> P s \<Longrightarrow> \<not> panics (f s)"
  by (simp add: calm_def)

lemma calm_Ret: "calm P f \<Longrightarrow> P s \<Longrightarrow> f s = Ret t \<Longrightarrow> P t"
  by (metis calm_def state_of.simps(1))

lemma calm_bindG [calm_intros]:
  assumes "calm P f" "calm P g"
  shows "calm P (\<lambda>s. bindG (f s) g)"
  unfolding calm_def
proof (intro allI impI)
  fix s assume "P s"
  with assms(1) have 1: "\<not> panics (f s)" "P (state_of (f s))" by (simp_all add: calm_def)
  show "\<not> panics (bindG (f s) g) \<and> P (state_of (bindG (f s) g))"
  proof (cases "f s")
    case (Ret t)
    with 1(2) assms(2) show ?thesis by (simp add: calm_def)
  qed (use 1 in auto)
qed

lemma calm_return [calm_intros]: "calm P Ret"
  by (simp add: calm_def)

lemma calm_fun: "(\<And>s. P s \<Longrightarrow> P (f s)) \<Longrightarrow> calm P (\<lambda>s. Ret (f s))"
  by (simp add: calm_def)

lemma calm_seqG [calm_intros]: "(\<And>f. f \<in> set fs \<Longrightarrow> calm P f) \<Longrightarrow> calm P (seqG fs)"
proof (induction fs)
  case (Cons f fs)
  then have "calm P (\<lambda>s. bindG (f s) (seqG fs))" by (intro calm_bindG) auto
  then show ?case by (simp add: calm_def)
qed (simp add: calm_def)

lemma calm_forG [calm_intros]: "(\<And>x. x \<in> set xs \<Longrightarrow> calm P (f x)) \<Longrightarrow> calm P (forG xs f)"
  unfolding forG_def by (rule calm_seqG) auto

lemma calm_if [calm_intros]: "calm P f \<Longrightarrow> calm P g \<Longrightarrow> calm P (\<lambda>s. if b s then f s else g s)"
  by (simp add: calm_def)

subsection \<open>Statements of a connected client\<close>

definition Z :: "nat \<Rightarrow> world \<Rightarrow> bool" where
  "Z c w \<longleftrightarrow> inv w \<and> Q c w \<and> inpos (conns w c) = InLoop \<and> flag (conns w c) \<noteq> None"

lemma Z_I: "inv w \<Longrightarrow> B w \<Longrightarrow> inpos (conns w c) = InLoop \<Longrightarrow> flag (conns w c) \<noteq> None \<Longrightarrow> Z c w"
  by (simp add: Z_def B_Q)

lemma keeps_Z:
  assumes "keeps inv f" "keeps (Q c) f"
    and "\<And>w. inpos (conns (state_of (f w)) c) = inpos (conns w c)"
    and "\<And>w. flag (conns (state_of (f w)) c) = flag (conns w c)"
  shows "keeps (Z c) f"
  using assms by (simp add: keeps_def Z_def)

lemma submit_quiet: "inv w \<Longrightarrow> \<not> panics (submit d m w)"
proof -
  assume "inv w"
  then have "conn_inv (conns w d)" by simp
  then show ?thesis
    by (auto simp: submit_def Let_def conn_inv_def chan_send_def chan_trysend_def)
qed

lemma calm_submit [calm_intros]: "calm (Z c) (submit c m)"
  by (rule calmI) (auto simp: Z_def submit_quiet intro!: keeps_Z keeps_intros)

lemma posts_open: "inv w \<Longrightarrow> \<not> panics (submitPost m w)"
  by (simp add: inv_def submitPost_def submit_post_def chan_send_def)

lemma calm_submitPost [calm_intros]: "calm (Z c) (submitPost m)"
  by (rule calmI, simp add: Z_def posts_open, rule keeps_Z)
    (auto intro!: keeps_intros simp: submitPost_def)

lemma ep_quiet:
  assumes "inv w"
  shows "\<not> panics (ep_at h (ep_submit m) w)"
proof (cases "map_of (nodes w) h")
  case (Some p)
  with assms have "\<not> closed (ejobs p)" by (auto simp: inv_def nodes_inv_def)
  with Some show ?thesis
    by (auto simp: ep_at_def ep_submit_def chan_send_def chan_trysend_def)
qed (simp add: ep_at_def)

lemma calm_ep_at: "calm (Z c) (ep_at h (ep_submit m))"
  by (rule calmI, simp add: Z_def ep_quiet, rule keeps_Z)
    (auto intro!: keeps_intros simp: ep_at_def split: option.split)

lemma calm_replicate [calm_intros]: "calm (Z c) (replicate_pub m)"
proof -
  have "calm (Z c) (forG hs (\<lambda>h. ep_at h (ep_submit (Publish m))))" for hs
    by (intro calm_intros calm_ep_at)
  then show ?thesis by (simp add: calm_def replicate_pub_def)
qed

lemma owns_store: "owns w c \<Longrightarrow> \<exists>s. store_of c w = Some s"
  by (auto simp: owns_def store_of_def)

lemma persist_quiet:
  assumes "owns w c"
  shows "\<not> panics (persistIn c m w)" "\<not> panics (persistOut c m w)"
proof -
  obtain s where "store_of c w = Some s" using owns_store [OF assms] by blast
  with ms.persist_total [of "env w" "pobj (heap w)" m s]
  show "\<not> panics (persistIn c m w)" "\<not> panics (persistOut c m w)"
    by (auto simp: persistIn_def persistOut_def)
qed

lemma calm_persistIn [calm_intros]: "calm (Z c) (persistIn c m)"
  by (rule calmI, simp add: Z_def Q_def persist_quiet, rule keeps_Z)
    (auto intro!: keeps_intros simp: persistIn_def)

lemma calm_sendRetain [calm_intros]: "calm (Z c) (sendRetain t c)"
proof -
  have "calm (Z c) (\<lambda>w. case retained (table w) u of None \<Rightarrow> Ret w
      | Some r \<Rightarrow> (case alloc_pub (rm r) (heap w) of (p, h) \<Rightarrow> submit c (Publish p) (w\<lparr>heap := h\<rparr>)))" for u
    using calm_submit [of c] by (auto simp: calm_def Z_def split: option.split prod.split)
  then show ?thesis unfolding sendRetain_def by (intro calm_forG)
qed

subsection \<open>PUBLISH and SUBSCRIBE\<close>

lemma seqG_single: "seqG [f] = f"
proof
  fix s
  have "seqG [] = (Ret :: 'a \<Rightarrow> 'a res)" by (rule ext) simp
  then show "seqG [f] s = f s" by simp
qed

lemma stop_panics: "panics (stop c w) \<longleftrightarrow> stopClosed (conns w c)"
  by (simp add: stop_def Let_def)

lemma stop_Z: "Z c w \<Longrightarrow> stop c w = Ret w' \<Longrightarrow> Z c w'"
  using keeps_Ret [OF keeps_stop, of w c w'] keeps_Ret [OF keeps_R_stop(2), of c w c w']
  by (auto simp: Z_def stop_def Let_def split: if_splits)

lemma doPublish_panics:
  assumes "inv w" "B w" "inpos (conns w c) = InLoop"
  shows "panics (doPublish poured c p w) \<longleftrightarrow>
    flag (conns w c) = None \<or> (\<not> poured \<and> stopClosed (conns w c))"
proof (cases "flag (conns w c)")
  case None
  have "panics (doPublish poured c p w)"
    using None by (cases poured) (auto simp: doPublish_def stop_def Let_def)
  with None show ?thesis by simp
next
  case (Some f)
  let ?rest = "\<lambda>w. case flag (conns w c) of None \<Rightarrow> Panic NilDeref w
    | Some f \<Rightarrow> if \<not> authorized (Username f) (Publish p) then stop c w
        else seqG [persistIn c (Publish p), submitPost p, replicate_pub p,
            \<lambda>w. if QosLevel (Header (pobj (heap w) p)) = QosAtLeastOnce
                then submit c (PubAck zero_header (MessageId (pobj (heap w) p))) w else Ret w] w"
  have ack: "calm (Z c) (\<lambda>w. submit c (PubAck zero_header (MessageId (pobj (heap w) p))) w)"
    using calm_submit [of c] by (simp add: calm_def)
  have "calm (Z c) (seqG [persistIn c (Publish p), submitPost p, replicate_pub p,
            \<lambda>w. if QosLevel (Header (pobj (heap w) p)) = QosAtLeastOnce
                then submit c (PubAck zero_header (MessageId (pobj (heap w) p))) w else Ret w])"
    by (rule calm_seqG) (auto intro!: calm_intros ack)
  then have rest: "\<not> panics (?rest u)" if "Z c u" for u
    using that by (auto simp: calm_def Z_def authorized_def simp del: seqG.simps)
  have Z: "Z c w" using assms Some by (intro Z_I) auto
  have eq: "doPublish poured c p w = bindG (whenG (\<not> poured) (stop c) w) ?rest"
    by (simp add: doPublish_def seqG_single)
  show ?thesis
  proof (cases "poured")
    case True
    with rest [OF Z] Some eq show ?thesis by simp
  next
    case False
    show ?thesis
    proof (cases "stop c w")
      case (Ret u)
      with stop_panics [of c w] rest [OF stop_Z [OF Z Ret]] eq Some False show ?thesis by simp
    next
      case (Panic q u)
      with stop_panics [of c w] eq False show ?thesis by simp
    qed (simp add: stop_def Let_def split: if_splits)
  qed
qed

lemma subscribe_one_eq:
  "subscribe_one c tq w =
     (let n = subN (conns w c) + 1; over = n > ClientMaxSubscriptions (Broker (cf w));
          w1 = upd_conn c (\<lambda>this. this\<lparr>subN := n\<rparr>) w
      in if over \<and> stopClosed (conns w c) then Panic CloseOfClosed (upd_stats aborted w1)
         else Ret (upd_table (add_sub (env w) (Topic tq) c)
                (if over then upd_conn c (\<lambda>this. this\<lparr>subN := n, stopClosed := True\<rparr>) (upd_stats aborted w) else w1)))"
  by (simp add: subscribe_one_def stop_def Let_def upd_conn_def upd_stats_def upd_table_def)

text \<open>The loop over the topics of a SUBSCRIBE panics when a second topic goes over the limit.\<close>

lemma one_more: "ts \<noteq> [] \<Longrightarrow> l \<le> n \<Longrightarrow> 1 + l \<le> n + int (length ts)"
  by (cases ts) simp_all

lemma subscribe_loop_panics:
  "panics (forG ts (subscribe_one c) w) \<longleftrightarrow>
     (let n = subN (conns w c); k = int (length ts); limit = ClientMaxSubscriptions (Broker (cf w))
      in 0 < k \<and> limit < n + k \<and> (stopClosed (conns w c) \<or> (2 \<le> k \<and> limit + 2 \<le> n + k)))"
proof (induction ts arbitrary: w)
  case (Cons tq ts)
  show ?case
    by (cases "subN (conns w c) + 1 > ClientMaxSubscriptions (Broker (cf w)) \<and> stopClosed (conns w c)")
      (auto simp: subscribe_one_eq [of c tq w] Cons.IH Let_def Suc_le_eq intro: one_more)
qed simp

lemma subscribe_loop_Z:
  assumes "Z c w" "forG ts (subscribe_one c) w = Ret w'"
  shows "Z c w'"
proof -
  have "keeps inv (forG ts (subscribe_one c))" "keeps (Q c) (forG ts (subscribe_one c))"
    by (intro keeps_forG keeps_subscribe_one keeps_Q_subscribe_one)+
  with assms have "inv w'" "Q c w'" by (auto simp: Z_def intro: keeps_Ret)
  moreover have "inpos (conns w' c) = inpos (conns w c) \<and> flag (conns w' c) = flag (conns w c)"
    using assms(2)
  proof (induction ts arbitrary: w)
    case (Cons tq ts)
    then show ?case
      by (fastforce simp: subscribe_one_eq [of c tq w] Let_def split: if_splits)
  qed simp
  ultimately show ?thesis using assms(1) by (simp add: Z_def)
qed

lemma doSubscribe_panics:
  assumes "inv w" "B w" "inpos (conns w c) = InLoop"
  shows "panics (doSubscribe c h mid ts w) \<longleftrightarrow>
    flag (conns w c) = None \<or> panics (forG ts (subscribe_one c) w)"
proof (cases "flag (conns w c)")
  case (Some f)
  let ?rest = "seqG [submit c (SubAck mid (map (\<lambda>_. QosAtMostOnce) ts)), forG ts (\<lambda>tq. sendRetain (Topic tq) c)]"
  have Z: "Z c w" using assms Some by (intro Z_I) auto
  have "calm (Z c) ?rest" by (rule calm_seqG) (auto intro!: calm_intros)
  then have rest: "\<not> panics (?rest u)" if "Z c u" for u using that by (rule calmD)
  have "doSubscribe c h mid ts w = bindG (forG ts (subscribe_one c) w) ?rest"
    using Some by (simp add: doSubscribe_def authorized_def)
  with rest subscribe_loop_Z [OF Z] Some show ?thesis
    by (cases "forG ts (subscribe_one c) w") (simp_all del: seqG.simps)
qed (simp add: doSubscribe_def)

subsection \<open>The other inputs\<close>

lemma inbound_exit_panics:
  assumes "inv w" "inpos (conns w c) \<noteq> InDone"
  shows "panics (inbound_exit c w) \<longleftrightarrow> EnablePresence (Broker (cf w)) \<and> flag (conns w c) = None"
proof -
  have "conn_inv (conns w c)" using assms(1) by simp
  with assms(2) have "\<not> closed (jobs (conns w c))" by (auto simp: conn_inv_def)
  moreover have "cf (put_store a s u) = cf u" for a s u by (cases a; cases s) simp_all
  ultimately show ?thesis
    by (auto simp: inbound_exit_def Let_def chan_close_def onTerminate_def split: option.split)
qed

lemma doUnsubscribe_quiet:
  assumes "inv w"
  shows "\<not> panics (doUnsubscribe c mid ts w)"
proof -
  have "calm inv (forG ts (\<lambda>t w. Ret (unsubscribe_one c t w)))"
    by (intro calm_forG calm_fun) (auto simp: unsubscribe_one_def intro!: inv_unsub inv_upd_conn)
  moreover have "calm inv (submit c (UnsubAck mid))"
    by (intro calmI submit_quiet keeps_submit)
  ultimately have "calm inv (doUnsubscribe c mid ts)"
    unfolding doUnsubscribe_def by (auto intro!: calm_seqG)
  with assms show ?thesis by (auto dest: calmD)
qed

lemma calm_resend: "k \<noteq> [] \<Longrightarrow> calm (Z c) (resend c k)"
proof -
  assume k: "k \<noteq> []"
  have "\<not> panics (resend c k w) \<and> Z c (state_of (resend c k w))" if Z: "Z c w" for w
  proof -
    obtain s where "store_of c w = Some s" using Z owns_store by (auto simp: Z_def Q_def)
    with k Z calm_submit [of c] show ?thesis
      by (auto simp: resend_def calm_def split: option.split message.split)
  qed
  then show ?thesis by (simp add: calm_def)
qed

lemma calm_restore: "calm (Z c) (restore_session c m)"
proof -
  have "\<not> panics (restore_session c m w) \<and> Z c (state_of (restore_session c m w))" if Z: "Z c w" for w
  proof -
    obtain s where s: "store_of c w = Some s" using Z owns_store by (auto simp: Z_def Q_def)
    have ok: "store_ok s" using Z s by (auto simp: Z_def dest: store_of_ok)
    have "k \<noteq> []" if "k \<in> set (MemAll (env w) s)" for k
      using ok that by (auto simp: store_ok_def MemAll_eq MemGet_def map_of_eq_None_iff dest!: key_ok_nonempty)
    then have "calm (Z c) (forG (MemAll (env w) s) (resend c))" by (intro calm_forG calm_resend)
    moreover have "Z c (put_store a (Some (MemReset s)) w)" for a
      using Z s by (auto simp: Z_def inv_put_reset)
    ultimately show ?thesis using Z by (simp add: restore_session_def s calm_def)
  qed
  then show ?thesis by (simp add: calm_def)
qed

lemma calm_connect_tail:
  "calm (Z c) (seqG [restore_session c m,
       \<lambda>w. Ret (upd_conn c (\<lambda>this. this\<lparr>connectedAt := now\<rparr>) w),
       \<lambda>w. Ret (if b w then w\<lparr>redis := k w\<rparr> else w),
       submit c (ConnAck rc)])"
  by (rule calm_seqG)
    (auto intro!: calm_restore calm_submit calm_fun inv_upd_conn Q_upd_conn simp: Z_def)

lemma add_again_Ret:
  "flag (conns v c) \<noteq> None \<Longrightarrow> \<exists>u. add_again c v = Ret u \<and> conns u = conns v \<and> nconns u = nconns v"
  by (cases "clients v (ClientId (the (flag (conns v c))))") (auto simp: add_again_def add_client_def)

lemma connect_prefix:
  assumes "inv w" "R c w" "c < nconns w" "inpos (conns w c) = InLoop" "flag (conns w c) \<noteq> None"
  shows "\<exists>u. add_again c (case ex of None \<Rightarrow> w | Some e \<Rightarrow> del e w) = Ret u
    \<and> Z c (attach_store c m (start_heartbeat c m u))"
proof -
  let ?w = "case ex of None \<Rightarrow> w | Some e \<Rightarrow> del e w"
  have conns: "conns ?w = conns w" by (simp add: del_def split: option.split)
  then obtain u where u: "add_again c ?w = Ret u" "conns u = conns w" "nconns u = nconns ?w"
    using assms(5) add_again_Ret [of ?w c] by auto
  have "inv ?w" "R c ?w" using assms(1,2) by (simp_all split: option.split)
  then have "inv u" "R c u" using keeps_Ret [OF keeps_add_again _ u(1)] keeps_Ret [OF keeps_R_add_again _ u(1)]
    by blast+
  then have "inv (start_heartbeat c m u)" "R c (start_heartbeat c m u)"
    by (auto simp: start_heartbeat_def intro!: inv_upd_conn R_upd_conn)
  moreover have "nconns (start_heartbeat c m u) = nconns w"
    using u(3) by (simp add: start_heartbeat_def del_def split: option.split)
  moreover have "inpos (conns (attach_store c m (start_heartbeat c m u)) c) = InLoop"
    "flag (conns (attach_store c m (start_heartbeat c m u)) c) \<noteq> None"
    using u(2) assms(4,5) by (simp_all add: attach_store_def start_heartbeat_def split: prod.split)
  ultimately have "Z c (attach_store c m (start_heartbeat c m u))"
    using assms(3) by (simp add: Z_def inv_attach_store Q_attach_store)
  with u(1) show ?thesis by blast
qed

lemma doConnect_end_Z:
  assumes "inv w" "R c w" "c < nconns w" "inpos (conns w c) = InLoop" "flag (conns w c) \<noteq> None"
  shows "\<not> panics (doConnect_end now c m rc ex w)"
    and "doConnect_end now c m rc ex w = Ret w' \<Longrightarrow> Z c w'"
proof -
  let ?tail = "seqG [restore_session c m,
       \<lambda>w. Ret (upd_conn c (\<lambda>this. this\<lparr>connectedAt := now\<rparr>) w),
       \<lambda>w. Ret (if EnablePresence (Broker (cf w)) \<and> Username m \<noteq> []
                then w\<lparr>redis := CheckIn (marshalBool w) (Username m) (redis w)\<rparr> else w),
       submit c (ConnAck rc)]"
  obtain u where u: "add_again c (case ex of None \<Rightarrow> w | Some e \<Rightarrow> del e w) = Ret u"
    and Z: "Z c (attach_store c m (start_heartbeat c m u))"
    using connect_prefix [OF assms] by blast
  have eq: "doConnect_end now c m rc ex w = ?tail (attach_store c m (start_heartbeat c m u))"
    by (simp add: doConnect_end_def u)
  have tail: "calm (Z c) ?tail" by (rule calm_connect_tail)
  show "\<not> panics (doConnect_end now c m rc ex w)" unfolding eq using tail Z by (rule calmD)
  show "Z c w'" if "doConnect_end now c m rc ex w = Ret w'"
    using tail Z that unfolding eq by (rule calm_Ret)
qed

lemma after_connect_quiet:
  assumes "Z c w"
  shows "\<not> panics (after_connect c rc w)"
  using assms inbound_exit_panics [of w c] by (auto simp: Z_def after_connect_def)

lemma connect_end_after_quiet:
  assumes "inv w" "R c w" "c < nconns w" "inpos (conns w c) = InLoop" "flag (conns w c) \<noteq> None"
  shows "\<not> panics (bindG (doConnect_end now c m rc ex w) (after_connect c rc))"
  using doConnect_end_Z [OF assms, of now m rc ex] after_connect_quiet [of c]
  by (cases "doConnect_end now c m rc ex w") auto

lemma doConnect_begin_Ret:
  assumes "doConnect_begin c m w = Ret w1" "inpos (conns w c) = InLoop"
  shows "flag (conns w1 c) = Some m"
    and "inpos (conns w1 c) = InLoop \<or> (\<exists>a b d e. inpos (conns w1 c) = InWait a b d e)"
  using assms
  by (auto simp: doConnect_begin_def Let_def add_client_def submitSync_def chan_send_def
      split: option.splits if_splits)

lemma doConnect_begin_panics:
  assumes "inv w" "inpos (conns w c) = InLoop"
  shows "panics (doConnect_begin c m w) \<longleftrightarrow>
    (\<exists>x. clients w (ClientId m) = Some x \<and> inpos (conns w x) = InDone)"
proof -
  have *: "closed (jobs (conns w x)) \<longleftrightarrow> inpos (conns w x) = InDone" for x
  proof -
    have "conn_inv (conns w x)" using assms(1) by simp
    then show ?thesis by (auto simp: conn_inv_def)
  qed
  show ?thesis
    using assms(2) * [of c]
    by (auto simp: doConnect_begin_def Let_def add_client_def submitSync_def chan_send_def *
        split: option.split)
qed

lemma handle_connect_panics:
  assumes "inv w" "B w" "c < nconns w" "inpos (conns w c) = InLoop"
  shows "panics (handle_connect now c m w) \<longleftrightarrow>
    (\<exists>x. clients w (ClientId m) = Some x \<and> inpos (conns w x) = InDone)"
proof (cases "doConnect_begin c m w")
  case (Ret w1)
  note b = doConnect_begin_Ret [OF Ret assms(4)]
  have "inv w1" using inv_doConnect_begin [OF assms(1), of c m] assms(4) Ret by simp
  moreover have "R c w1" by (rule keeps_Ret [OF keeps_R_begin B_R [OF assms(2)] Ret])
  moreover have "c < nconns w1" using assms(3) doConnect_begin_nconns [OF Ret] by simp
  ultimately have "\<not> panics (handle_connect now c m w)"
    using connect_end_after_quiet [of w1 c] b Ret
    by (auto simp: handle_connect_def Let_def split: inpos.split)
  with doConnect_begin_panics [OF assms(1,4), of m] Ret show ?thesis by simp
qed (use doConnect_begin_panics [OF assms(1,4), of m] in \<open>auto simp: handle_connect_def Let_def\<close>)

subsection \<open>The characterisation\<close>

definition crash_input :: "bool \<Rightarrow> nat \<Rightarrow> decoded \<Rightarrow> world \<Rightarrow> bool" where
  "crash_input poured c d w =
     (let this = conns w c; b = Broker (cf w);
          exit = (EnablePresence b \<and> flag this = None)
      in case d of
           DecodeErr \<Rightarrow> exit
         | Decoded (Connect m) \<Rightarrow> (\<exists>x. clients w (ClientId m) = Some x \<and> inpos (conns w x) = InDone)
         | Decoded (Publish p) \<Rightarrow> flag this = None \<or> (\<not> poured \<and> stopClosed this)
         | Decoded (Subscribe h mid ts) \<Rightarrow>
             flag this = None \<or>
             (let over = subN this + int (length ts) - ClientMaxSubscriptions b
              in ts \<noteq> [] \<and> 0 < over \<and> (stopClosed this \<or> (2 \<le> length ts \<and> 2 \<le> over)))
         | Decoded (Unsubscribe mid ts) \<Rightarrow> False
         | Decoded (PubAck h mid) \<Rightarrow> False
         | Decoded PingReq \<Rightarrow> False
         | Decoded _ \<Rightarrow> exit)"

lemma dispatch_panics:
  assumes "inv w" "B w" "c < nconns w" "inpos (conns w c) = InLoop" and "m = map_message g m0"
  shows "panics (dispatch now poured c m w) \<longleftrightarrow> crash_input poured c (Decoded m0) w"
proof -
  note ex = inbound_exit_panics [OF assms(1), of c]
  show ?thesis
    using assms ex
    by (cases m0) (auto simp: dispatch_def crash_input_def Let_def handle_connect_panics doPublish_panics
        doSubscribe_panics subscribe_loop_panics doUnsubscribe_quiet doPublishAck_def validateMessage_def
        submit_quiet)
qed

lemma inbound_step_panics:
  assumes "inv w" "B w" "c < nconns w" "inpos (conns w c) = InLoop"
  shows "panics (inbound_step now poured c d w) \<longleftrightarrow> crash_input poured c d w"
proof (cases d)
  case DecodeErr
  with assms inbound_exit_panics [of "upd_stats aborted w" c] show ?thesis
    by (simp add: inbound_step_def crash_input_def Let_def)
next
  case (Decoded m)
  let ?w = "refreshOpTime now c (upd_stats (addIn (env w) m) (upd_stats messageRecv w))"
  obtain m' h where rec: "receive m (heap w) = (m', h)" by (rule prod.exhaust)
  then have "m' = map_message (\<lambda>_. fst (alloc_pub undefined (heap w))) m \<or> m' = map_message (\<lambda>_. 0) m"
    by (cases m) (auto simp: receive_def alloc_pub_def)
  then obtain g where g: "m' = map_message g m" by blast
  have "inv (?w\<lparr>heap := h\<rparr>)" "B (?w\<lparr>heap := h\<rparr>)"
    using assms by (simp_all add: refreshOpTime_def inv_upd_conn B_upd_conn)
  with assms g have "panics (dispatch now poured c m' (?w\<lparr>heap := h\<rparr>))
      \<longleftrightarrow> crash_input poured c (Decoded m) (?w\<lparr>heap := h\<rparr>)"
    by (intro dispatch_panics) (simp_all add: refreshOpTime_def)
  also have "\<dots> \<longleftrightarrow> crash_input poured c (Decoded m) w"
    by (cases m) (auto simp: crash_input_def refreshOpTime_def Let_def)
  finally show ?thesis using Decoded rec by (simp add: inbound_step_def Let_def refreshOpTime_def)
qed

lemma connect_resume_quiet:
  assumes "inv w" "B w" "c < nconns w" "inpos (conns w c) = InWait m rc x r"
  shows "\<not> panics (connect_resume now c w)"
proof -
  let ?w = "upd_conn c (\<lambda>this. this\<lparr>inpos := InLoop\<rparr>) w"
  have "conn_inv (conns w c)" using assms(1) by simp
  with assms(4) have "flag (conns w c) \<noteq> None" by (auto simp: conn_inv_def)
  moreover have "inv ?w" using assms(1,4) by (auto intro!: inv_upd_conn conn_inv_inpos)
  moreover have "R c ?w" using B_R [OF assms(2)] by (intro R_upd_conn) auto
  ultimately have "\<not> panics (bindG (doConnect_end now c m rc (Some x) ?w) (after_connect c rc))"
    using assms(3) by (intro connect_end_after_quiet) auto
  then show ?thesis by (simp add: connect_resume_def assms(4))
qed

lemma outbound_step_quiet:
  assumes "B w"
  shows "\<not> panics (outbound_step now ok c w)"
proof (cases "\<exists>j ch. chan_recv (jobs (conns w c)) = Some (Some j, ch)")
  case True
  then obtain j ch where j: "chan_recv (jobs (conns w c)) = Some (Some j, ch)" by blast
  let ?w = "upd_conn c (\<lambda>this. this\<lparr>jobs := ch\<rparr>) w"
  have "j \<in> set (buf (jobs (conns w c)))"
    using j by (auto simp: chan_recv_def split: list.splits if_splits)
  then have "needs_store (jm j) \<Longrightarrow> owns w c" using R_queued [OF B_R [OF assms]] by blast
  then have "\<not> panics (persistOut c (jm j) ?w)"
    using persist_quiet(2) [of ?w c "jm j"]
    by (cases "jm j") (auto simp: persistOut_def owns_def)
  then show ?thesis
    by (cases "persistOut c (jm j) ?w") (auto simp: outbound_step_def j Let_def)
qed (auto simp: outbound_step_def split: option.split)

lemma heartbeat_tick_quiet: "inv w \<Longrightarrow> \<not> panics (heartbeat_tick now k c w)"
proof -
  assume "inv w"
  then have "conn_inv (conns w c)" by simp
  then show ?thesis
    by (auto simp: heartbeat_tick_def Let_def submitSync_def chan_send_def conn_inv_def)
qed

lemma outbound_cleanup_quiet: "inv w \<Longrightarrow> outpos (conns w c) = OutCleanup \<Longrightarrow> \<not> panics (outbound_cleanup c w)"
proof -
  assume "inv w" "outpos (conns w c) = OutCleanup"
  moreover have "conn_inv (conns w c)" using \<open>inv w\<close> by simp
  ultimately show ?thesis by (simp add: outbound_cleanup_def Let_def conn_inv_def)
qed

lemma worker_quiet:
  "\<not> panics (worker_take i w)" "inv w \<Longrightarrow> \<not> panics (worker_deliver i w)" "\<not> panics (worker_finish i w)"
proof -
  show "\<not> panics (worker_take i w)"
    by (auto simp: worker_take_def Let_def split: option.split prod.split)
  show "\<not> panics (worker_finish i w)"
    by (auto simp: worker_finish_def Let_def split: wpos.split)
  assume "inv w"
  have "\<not> panics (bindG (case x of None \<Rightarrow> Ret w | Some c \<Rightarrow> submit c m w) (\<lambda>w'. Ret (f w')))" for x m f
  proof (cases x)
    case (Some c)
    then show ?thesis
      using submit_quiet [OF \<open>inv w\<close>, of c m] by (cases "submit c m w") simp_all
  qed simp
  then show "\<not> panics (worker_deliver i w)" by (auto simp: worker_deliver_def split: wpos.split)
qed

lemma replay_quiet: "inv w \<Longrightarrow> \<not> panics (replay_msg m w)"
  using posts_open by (auto simp: replay_msg_def split: prod.split message.split)

text \<open>Any step that panics is a client's input, given sane queue lengths.\<close>

lemma bstep_panics:
  assumes "bstep w res" "inv w" "B w" "res = Panic p w'"
    and "0 \<le> ClientOutboundQueueLen (Broker (cf w))" "0 \<le> QueueLen (Peers (cf w))"
  shows "\<exists>c d now poured. c < nconns w \<and> inpos (conns w c) = InLoop
    \<and> inbound_step now poured c d w = Panic p w' \<and> crash_input poured c d w"
proof -
  from assms(4) have P: "panics res" by simp
  from assms(1) show ?thesis
  proof cases
    case (b_inbound c d now poured)
    with inbound_step_panics [OF assms(2,3), of c now poured d] P assms(4) show ?thesis by auto
  next
    case (b_resume c m rc ex r now)
    with connect_resume_quiet [OF assms(2,3)] P show ?thesis by blast
  next
    case (b_cleanup c)
    with outbound_cleanup_quiet [OF assms(2)] P show ?thesis by blast
  qed (use P assms(2,3,5,6) outbound_step_quiet heartbeat_tick_quiet worker_quiet replay_quiet in
      \<open>auto simp: accept_def join_def newEndpoint_def Let_def outbound_stopped_def heartbeat_stopped_def split: if_splits\<close>)
qed

end
