(* ===== verification/Traces.thy ===== *)
theory Traces
  imports Crashes
begin

section \<open>Runs of the broker as lists of events\<close>

named_theorems exec "equations that evaluate concrete runs"

text \<open>
  \<open>event\<close> names every step of \<open>bstep\<close> with what the network, the clock and the scheduler chose;
  \<open>enabled\<close> is its guard and \<open>step_event\<close> its effect. \<open>run\<close> executes a list of events and is
  defined as long as every event is enabled and returns. It is the executable form of
  \<open>reachable\<close>, used below for concrete runs of a broker with a small configuration; the
  collection \<open>exec\<close> lets the simplifier evaluate them.
\<close>

datatype event =
    EAccept int
  | EInbound int bool nat decoded
  | EResume int nat
  | EOutbound int bool nat
  | EStopped nat
  | ECleanup nat
  | EHeartbeat int int nat
  | EKicked nat receipt
  | EHbStop int nat
  | ETake nat
  | EDeliver nat
  | EFinish nat
  | EPeer
  | EReplay "publish message"
  | EPeerGone
  | EJoin string

fun enabled :: "event \<Rightarrow> world \<Rightarrow> bool" where
  "enabled (EInbound now poured c d) w \<longleftrightarrow>
     c < nconns w \<and> inpos (conns w c) = InLoop \<and> (sockClosed (conns w c) \<longrightarrow> d = DecodeErr)"
| "enabled (EResume now c) w \<longleftrightarrow>
     c < nconns w \<and> (case inpos (conns w c) of InWait m rc ex r \<Rightarrow> receiptClosed w r | _ \<Rightarrow> False)"
| "enabled (EOutbound now ok c) w \<longleftrightarrow> c < nconns w \<and> outpos (conns w c) = OutLoop"
| "enabled (EStopped c) w \<longleftrightarrow> c < nconns w \<and> outpos (conns w c) = OutLoop \<and> stopClosed (conns w c)"
| "enabled (ECleanup c) w \<longleftrightarrow> c < nconns w \<and> outpos (conns w c) = OutCleanup"
| "enabled (EHeartbeat now k c) w \<longleftrightarrow> c < nconns w \<and> k \<in> set (heartbeats (conns w c))"
| "enabled (EHbStop k c) w \<longleftrightarrow>
     c < nconns w \<and> k \<in> set (heartbeats (conns w c)) \<and> heartbeatStopClosed (conns w c)"
| "enabled (EKicked c r) w \<longleftrightarrow> c < nconns w \<and> r \<in> set (kicks (conns w c)) \<and> receiptClosed w r"
| "enabled (ETake i) w \<longleftrightarrow> i < length (workers w) \<and> workers w ! i = WIdle"
| "enabled (EDeliver i) w \<longleftrightarrow>
     i < length (workers w) \<and> (case workers w ! i of WDeliver m res k r \<Rightarrow> k < slen res | _ \<Rightarrow> False)"
| "enabled (EFinish i) w \<longleftrightarrow>
     i < length (workers w) \<and> (case workers w ! i of WDeliver m res k r \<Rightarrow> k = slen res | _ \<Rightarrow> False)"
| "enabled _ w \<longleftrightarrow> True"

fun step_event :: "event \<Rightarrow> world \<Rightarrow> world res" where
  "step_event (EAccept now) w = accept now w"
| "step_event (EInbound now poured c d) w = inbound_step now poured c d w"
| "step_event (EResume now c) w = connect_resume now c w"
| "step_event (EOutbound now ok c) w = outbound_step now ok c w"
| "step_event (EStopped c) w = outbound_stopped c w"
| "step_event (ECleanup c) w = outbound_cleanup c w"
| "step_event (EHeartbeat now k c) w = heartbeat_tick now k c w"
| "step_event (EHbStop k c) w = heartbeat_stopped k c w"
| "step_event (EKicked c r) w = Ret (heartbeat_kicked c r w)"
| "step_event (ETake i) w = worker_take i w"
| "step_event (EDeliver i) w = worker_deliver i w"
| "step_event (EFinish i) w = worker_finish i w"
| "step_event EPeer w = Ret (upd_stats peerConnect w)"
| "step_event (EReplay m) w = replay_msg m w"
| "step_event EPeerGone w = Ret (upd_stats peerDisconnect w)"
| "step_event (EJoin host) w = snd (join host w)"

fun run :: "event list \<Rightarrow> world \<Rightarrow> world option" where
  "run [] w = Some w"
| "run (ev # evs) w =
     (if enabled ev w then case step_event ev w of Ret w' \<Rightarrow> run evs w' | _ \<Rightarrow> None else None)"

text \<open>The events can happen one after the other and lead to a state with the property.\<close>

definition reaches :: "event list \<Rightarrow> world \<Rightarrow> (world \<Rightarrow> bool) \<Rightarrow> bool" where
  "reaches evs w P = (case run evs w of None \<Rightarrow> False | Some w' \<Rightarrow> P w')"

lemma bstep_event: "enabled ev w \<Longrightarrow> bstep w (step_event ev w)"
  by (cases ev) (auto intro: bstep.intros split: inpos.splits wpos.splits)

lemma event_bstep: "bstep w r \<Longrightarrow> \<exists>ev. enabled ev w \<and> r = step_event ev w"
proof (induction rule: bstep.induct)
  case (b_accept w now)
  show ?case by (rule exI [of _ "EAccept now"]) simp
next
  case (b_inbound c w d now poured)
  then show ?case by (intro exI [of _ "EInbound now poured c d"]) simp
next
  case (b_resume c w m rc ex r now)
  then show ?case by (intro exI [of _ "EResume now c"]) simp
next
  case (b_outbound c w now ok)
  then show ?case by (intro exI [of _ "EOutbound now ok c"]) simp
next
  case (b_stopped c w)
  then show ?case by (intro exI [of _ "EStopped c"]) simp
next
  case (b_cleanup c w)
  then show ?case by (intro exI [of _ "ECleanup c"]) simp
next
  case (b_heartbeat c w k now)
  then show ?case by (intro exI [of _ "EHeartbeat now k c"]) simp
next
  case (b_hbstop c w k)
  then show ?case by (intro exI [of _ "EHbStop k c"]) simp
next
  case (b_kicked c w r)
  then show ?case by (intro exI [of _ "EKicked c r"]) simp
next
  case (b_take i w)
  then show ?case by (intro exI [of _ "ETake i"]) simp
next
  case (b_deliver i w m res k r)
  then show ?case by (intro exI [of _ "EDeliver i"]) simp
next
  case (b_finish i w m res r)
  then show ?case by (intro exI [of _ "EFinish i"]) simp
next
  case (b_peer w)
  show ?case by (rule exI [of _ EPeer]) simp
next
  case (b_replay w m)
  show ?case by (rule exI [of _ "EReplay m"]) simp
next
  case (b_peer_gone w)
  show ?case by (rule exI [of _ EPeerGone]) simp
next
  case (b_join w host)
  show ?case by (rule exI [of _ "EJoin host"]) simp
qed

lemma run_append: "run (es @ fs) w = Option.bind (run es w) (run fs)"
  by (induction es arbitrary: w) (auto split: res.split)

lemma run_reachable: "run evs w = Some w' \<Longrightarrow> reachable w0 w \<Longrightarrow> reachable w0 w'"
proof (induction evs arbitrary: w)
  case (Cons ev evs)
  then obtain u where u: "enabled ev w" "step_event ev w = Ret u" "run evs u = Some w'"
    by (auto split: if_splits res.splits)
  then have "reachable w0 u" using Cons.prems(2) bstep_event [of ev w] reachable.step by metis
  with u(3) show ?case by (rule Cons.IH)
qed simp

lemma reachable_iff_run: "reachable w0 w \<longleftrightarrow> (\<exists>evs. run evs w0 = Some w)"
proof
  assume "reachable w0 w"
  then show "\<exists>evs. run evs w0 = Some w"
  proof (induction rule: reachable.induct)
    case start
    show ?case by (rule exI [of _ "[]"]) simp
  next
    case (step w w')
    then obtain evs ev where "run evs w0 = Some w" "enabled ev w" "step_event ev w = Ret w'"
      using event_bstep [OF step.hyps(2)] by metis
    then have "run (evs @ [ev]) w0 = Some w'" by (simp add: run_append)
    then show ?case by blast
  qed
qed (auto intro: run_reachable reachable.start)

subsection \<open>A small broker\<close>

definition small_section :: conf where
  "small_section = \<lparr>
     cfString = (\<lambda>k d. if k = ''listen_addr'' then '':1883''
                        else if k = ''buffer_overflow_strategy'' then ''discard'' else d),
     cfBool = (\<lambda>k d. if k = ''allow_anonymous'' then True else d),
     cfInt = (\<lambda>k d. if k = ''subscriptions_workers'' then 2
                    else if k = ''subscriptions_queue_len'' then 4
                    else if k = ''client_outbound_queue_len'' then 4
                    else if k = ''client_max_subscriptions'' then 2 else d),
     cfDuration = (\<lambda>_ d. d)\<rparr>"

definition small_config :: Config where
  "small_config = state_of (LoadConfig (\<lambda>s. if s = ''broker'' then Some small_section else None))"

definition small_broker :: world where
  "small_broker = state_of (NewServer small_config doubling_env (\<lambda>_. ([], False)))"

definition connect_as :: "string \<Rightarrow> connect" where
  "connect_as i = \<lparr>ProtocolName = ''MQIsdp'', ProtocolVersion = 3, ClientId = i, CleanSession = True,
     KeepAliveTimer = 0, WillFlag = False, UsernameFlag = False, PasswordFlag = False,
     Username = '''', Password = ''''\<rparr>"

definition got :: "nat \<Rightarrow> publish message \<Rightarrow> event" where
  "got c m = EInbound 100 True c (Decoded m)"

definition says :: "string \<Rightarrow> qos \<Rightarrow> bool \<Rightarrow> payload \<Rightarrow> publish" where
  "says t q r p = \<lparr>Header = \<lparr>DupFlag = False, QosLevel = q, Retain = r\<rparr>, TopicName = t, MessageId = 7, Payload = p\<rparr>"

lemma small_config_simps [exec]:
  "BuffOverflowStrategy (Broker small_config) = ''discard''" "ClientMaxSubscriptions (Broker small_config) = 2"
  "MaxConnections (Broker small_config) = 50000" "AllowAnonymousConnect (Broker small_config)"
  "\<not> EnablePresence (Broker small_config)" "SubscriptionsQueueLen (Broker small_config) = 4"
  "SubscriptionsWorkers (Broker small_config) = 2" "ClientOutboundQueueLen (Broker small_config) = 4"
  "ClientMaxPublishPerMinute (Broker small_config) = 60" "Peers small_config = zero_peers"
proof -
  have "(\<lambda>b. BuffOverflowStrategy b = ''discard'' \<and> ClientMaxSubscriptions b = 2 \<and> MaxConnections b = 50000
      \<and> AllowAnonymousConnect b \<and> \<not> EnablePresence b \<and> SubscriptionsQueueLen b = 4 \<and> SubscriptionsWorkers b = 2
      \<and> ClientOutboundQueueLen b = 4 \<and> ClientMaxPublishPerMinute b = 60) (Broker small_config)
      \<and> Peers small_config = zero_peers" by code_simp
  then show "BuffOverflowStrategy (Broker small_config) = ''discard''" "ClientMaxSubscriptions (Broker small_config) = 2"
    "MaxConnections (Broker small_config) = 50000" "AllowAnonymousConnect (Broker small_config)"
    "\<not> EnablePresence (Broker small_config)" "SubscriptionsQueueLen (Broker small_config) = 4"
    "SubscriptionsWorkers (Broker small_config) = 2" "ClientOutboundQueueLen (Broker small_config) = 4"
    "ClientMaxPublishPerMinute (Broker small_config) = 60" "Peers small_config = zero_peers" by simp_all
qed

lemmas exec_defs [exec] = accept_def inbound_step_def dispatch_def handle_connect_def
  doConnect_begin_def doConnect_end_def add_again_def add_client_def attach_store_def
  restore_session_def start_heartbeat_def resend_def after_connect_def connect_rc_def submit_def
  submitSync_def doPublish_def doSubscribe_def subscribe_one_def doUnsubscribe_def
  doPublishAck_def unsubscribe_one_def validateMessage_def authorized_def authenticate_def
  persistIn_def persistOut_def store_of_def memory_store_def submitPost_def submit_post_def
  replicate_pub_def range_keys_def sendRetain_def retain_topics_def stop_def connected_def
  onTerminate_def inbound_exit_def connect_resume_def outbound_step_def outbound_stopped_def
  outbound_cleanup_def worker_take_def worker_deliver_def worker_finish_def keep_retained_def
  new_conn_def no_conn_def NewServer_def refreshOpTime_def receive_def alloc_pub_def
  clear_retain_def set_retain_def snapshot_def stats_defs new_stats_def Clients_def chan_defs
  chan_recv_def newSubscriptions_def empty_sheap_def nil_slice_def slice_append_def slice_set_def
  slice_cap_def slice_list_def add_sub_def subs_at_def subscribers_def unsub_def unsubAll_def
  start_workers_def no_stores_def NewMemoryStore_def MemPut_def MemGet_def MemDel_def MemAll_def
  MemClose_def MemReset_def getClientStore_def newPeers_def empty_pubheap_def small_broker_def
  got_def says_def connect_as_def zero_header_def upd_conn_def upd_stats_def upd_table_def del_def
  protocolName_def protocolVersion_def maxClientIdLength_def doubling_env_def Let_def
  isWildcard_iff BufferOverflowBlock_def zero_wild_def

lemma small_broker_started: "NewServer small_config doubling_env (\<lambda>_. ([], False)) = Ret small_broker"
  by (simp add: small_broker_def NewServer_def Let_def small_config_simps)

lemma small_broker_state: "run evs small_broker = Some w \<Longrightarrow> broker_state w"
  unfolding broker_state_def using small_broker_started run_reachable [OF _ reachable.start] by blast

lemma reaches_the: "reaches evs w P \<Longrightarrow> P (the (run evs w))"
  by (auto simp: reaches_def split: option.splits)

lemma reaches_state:
  "NewServer config e ms = Ret w0 \<Longrightarrow> reaches evs w0 P \<Longrightarrow> broker_state (the (run evs w0))"
  unfolding broker_state_def reaches_def
  using run_reachable [OF _ reachable.start] by (fastforce split: option.splits)

lemmas small_broker_run = reaches_state [OF small_broker_started]

end
