(* ===== verification/Delivery.thy ===== *)
theory Delivery
  imports Traces
begin

section \<open>From a published message to the queues of its subscribers\<close>

text \<open>
  What the pieces do together: a PUBLISH of a connected client is stored, posted and
  acknowledged; a worker hands a posted message to every subscriber; a retained message reaches
  later subscribers; peers get every message once.
\<close>

subsection \<open>Concrete runs\<close>

text \<open>A broker with two clients, the second subscribed, right after the first has published.\<close>

definition two_clients :: "event list" where
  "two_clients = [EAccept 0, got 0 (Connect (connect_as ''a'')), EAccept 1, got 1 (Connect (connect_as ''b'')),
     got 1 (Subscribe zero_header 1 [\<lparr>Topic = ''t'', Qos = QosAtMostOnce\<rparr>])]"

definition posted_events :: "event list" where
  "posted_events = two_clients @ [got 0 (Publish (says ''t'' QosAtMostOnce True [1]))]"

definition posted :: world where
  "posted = the (run posted_events small_broker)"

lemma posted_run:
  "reaches posted_events small_broker (\<lambda>w.
     BuffOverflowStrategy (Broker (cf w)) \<noteq> BufferOverflowBlock \<and> 0 < length (workers w)
     \<and> buf (posts (table w)) = [\<lparr>pm = 0\<rparr>]
     \<and> \<not> (Retain (Header (pobj (heap w) 0)) \<and> PayloadSize (env w) (Payload (pobj (heap w) 0)) = 0)
     \<and> TopicName (pobj (heap w) 0) = ''t''
     \<and> buf (jobs (conns w 1)) = [\<lparr>jm = ConnAck RetCodeAccepted, jr = None\<rparr>, \<lparr>jm = SubAck 1 [QosAtMostOnce], jr = None\<rparr>]
     \<and> outpos (conns w 1) = OutLoop \<and> ccap (jobs (conns w 1)) = 4
     \<and> subN (conns w 0) + 1 \<le> ClientMaxSubscriptions (Broker (cf w)))"
  by (simp add: reaches_def posted_events_def two_clients_def exec)

lemmas posted = reaches_the [OF posted_run, folded posted_def]
  small_broker_run [OF posted_run, folded posted_def]

definition delete_events :: "event list" where
  "delete_events = two_clients @ [got 0 (Publish (says ''t'' QosAtMostOnce True []))]"

definition delete_posted :: world where
  "delete_posted = the (run delete_events small_broker)"

lemma delete_run:
  "reaches delete_events small_broker (\<lambda>w. 0 < length (workers w) \<and> workers w ! 0 = WIdle
     \<and> buf (posts (table w)) = [\<lparr>pm = 0\<rparr>]
     \<and> Retain (Header (pobj (heap w) 0)) \<and> PayloadSize (env w) (Payload (pobj (heap w) 0)) = 0
     \<and> TopicName (pobj (heap w) 0) = ''t'')"
  by (simp add: reaches_def delete_events_def two_clients_def exec)

lemmas delete_posted = reaches_the [OF delete_run, folded delete_posted_def]

definition retained_events :: "event list" where
  "retained_events = posted_events @ [ETake 0, EDeliver 0, EFinish 0]"

definition retained_world :: world where
  "retained_world = the (run retained_events small_broker)"

lemma retained_run:
  "reaches retained_events small_broker (\<lambda>w. BuffOverflowStrategy (Broker (cf w)) \<noteq> BufferOverflowBlock
     \<and> retained (table w) ''t'' = Some \<lparr>rm = says ''t'' QosAtMostOnce True [1], rwild = zero_wild\<rparr>
     \<and> \<not> isWildcard ''t'' \<and> 0 < room 0 w
     \<and> inpos (conns w 1) = InLoop \<and> flag (conns w 1) \<noteq> None \<and> nodes w = []
     \<and> length (buf (posts (table w))) < ccap (posts (table w)))"
  by (simp add: reaches_def retained_events_def posted_events_def two_clients_def exec room_def queue_def)

lemmas retained_world = reaches_the [OF retained_run, folded retained_world_def]
  small_broker_run [OF retained_run, folded retained_world_def]

definition peers_config :: Config where
  "peers_config = small_config\<lparr>Peers := (Peers small_config)\<lparr>QueueLen := 3\<rparr>\<rparr>"

definition peers_broker :: world where
  "peers_broker = state_of (NewServer peers_config doubling_env (\<lambda>_. ([], False)))"

definition peers_events :: "event list" where
  "peers_events = [EJoin ''p1'', EJoin ''p2'']"

definition with_peers :: world where
  "with_peers = the (run peers_events peers_broker)"

lemma peers_run:
  "reaches peers_events peers_broker (\<lambda>w. map fst (nodes w) = [''p1'', ''p2'']
     \<and> list_all (\<lambda>(h, p). PBuffOverflowStrategy (ecf p) \<noteq> BufferOverflowBlock) (nodes w)
     \<and> buf (posts (table w)) = [] \<and> 0 < ccap (posts (table w)) \<and> \<not> closed (posts (table w)))"
  by (simp add: reaches_def peers_events_def peers_broker_def peers_config_def exec join_def newEndpoint_def
      zero_peers_def)

lemma peers_broker_started: "NewServer peers_config doubling_env (\<lambda>_. ([], False)) = Ret peers_broker"
  by (simp add: peers_broker_def peers_config_def NewServer_def Let_def small_config_simps)

lemmas with_peers = reaches_the [OF peers_run, folded with_peers_def]
  reaches_state [OF peers_broker_started peers_run, folded with_peers_def]

subsection \<open>A worker\<close>

lemma count_list_subscribers:
  assumes "subs_wf s" "subscribers e t s = (res, s')"
  shows "0 < count_list (slice_list (sarrs s') res) (Some c) \<longleftrightarrow> c \<in> receivers (table_of s) t"
proof -
  have "0 < count_list (slice_list (sarrs s') res) (Some c) \<longleftrightarrow> c \<in> lookup_conns e t s"
    using assms(2) by (simp add: lookup_conns_def count_list_0_iff flip: neq0_conv)
  with lookup_conns_receivers [OF assms(1)] show ?thesis by simp
qed

lemma table_of_posts [simp]: "table_of (s\<lparr>posts := ch\<rparr>) = table_of s"
  by (simp add: table_of_def exact_def entries_def)

text \<open>What handlers and workers leave alone: the configuration, the connections that exist, and
  what the outbound goroutines have done.\<close>

definition same_wires :: "world \<Rightarrow> world \<Rightarrow> bool" where
  "same_wires w w' \<longleftrightarrow> cf w' = cf w \<and> env w' = env w \<and> nconns w' = nconns w
     \<and> (\<forall>d. outpos (conns w' d) = outpos (conns w d) \<and> wire (conns w' d) = wire (conns w d))"

lemma same_but_queues_wires: "same_but_queues w w' \<Longrightarrow> same_wires w w'"
  unfolding same_but_queues_def same_wires_def
  by (metis incomingConn.select_convs incomingConn.update_convs(6) incomingConn.surjective)

lemma worker_round:
  assumes inv: "inv w" and "BuffOverflowStrategy (Broker (cf w)) \<noteq> BufferOverflowBlock"
    and "i < length (workers w)" and "buf (posts (table w)) = po # rest"
    and "msg = pobj (heap w) (pm po)" and "\<not> (Retain (Header msg) \<and> PayloadSize (env w) (Payload msg) = 0)"
  shows "\<exists>w'. run_post i w = Ret w'
    \<and> (\<forall>c. \<exists>n. queue c w' = queue c w @ replicate n (Publish (pm po))
           \<and> (0 < n \<longleftrightarrow> c \<in> receivers (table_of (table w)) (TopicName msg) \<and> 0 < room c w))
    \<and> pobj (heap w') (pm po) = set_retain False msg
    \<and> retained (table w') = (if Retain (Header msg)
         then (retained (table w))(TopicName msg \<mapsto> \<lparr>rm = set_retain True msg, rwild = zero_wild\<rparr>)
         else retained (table w))
    \<and> buf (posts (table w')) = rest \<and> same_wires w w'"
proof -
  from inv have wf: "subs_wf (table w)" by (simp add: inv_def)
  define ch where "ch = (posts (table w))\<lparr>buf := rest\<rparr>"
  have recv: "chan_recv (posts (table w)) = Some (Some po, ch)"
    using assms(4) by (simp add: chan_recv_def ch_def)
  obtain res t where sub: "subscribers (env w) (TopicName msg) ((table w)\<lparr>posts := ch\<rparr>) = (res, t)"
    by (rule prod.exhaust)
  have wf': "subs_wf ((table w)\<lparr>posts := ch\<rparr>)" using wf by simp
  note spec = subscribers_spec [OF wf' sub]
  let ?w = "w\<lparr>table := t, heap := clear_retain (pm po) (heap w)\<rparr>"
  have "conns_ok ?w" using inv_conns_ok [OF inv] by (simp add: conns_ok_def)
  moreover have "\<not> conn_blocking ?w" using assms(2) by (simp add: conn_blocking_def)
  ultimately obtain u where u: "deliveries (pm po) (slice_list (sarrs t) res) ?w = Ret u" "same_but_queues ?w u"
    "\<And>c. queue c u = queue c ?w @ replicate (min (count_list (slice_list (sarrs t) res) (Some c)) (room c ?w)) (Publish (pm po))"
    using deliveries_discard by metis
  have q: "queue c ?w = queue c w" "room c ?w = room c w" for c by (simp_all add: queue_def room_def)
  let ?w' = "(if Retain (Header msg) then keep_retained (pm po) u else u)\<lparr>workers := (workers w)[i := WIdle]\<rparr>"
  have "run_post i w = Ret ?w'"
    using run_post_Ret [OF wf assms(3) recv _ _ u(1)] sub assms(5,6) by (simp add: Let_def)
  moreover have "0 < min (count_list (slice_list (sarrs t) res) (Some c)) (room c w)
      \<longleftrightarrow> c \<in> receivers (table_of (table w)) (TopicName msg) \<and> 0 < room c w" for c
    using count_list_subscribers [OF wf' sub] by simp
  moreover have "queue c ?w' = queue c u" for c by (simp add: queue_def keep_retained_def Let_def)
  moreover have "heap u = clear_retain (pm po) (heap w)" "table u = t"
    using u(2) by (simp_all add: same_but_queues_def)
  moreover have "same_wires w ?w'"
    using same_but_queues_wires [OF u(2)] by (simp add: same_wires_def keep_retained_def Let_def)
  ultimately show ?thesis
    using u(3) spec(7,8) assms(5) unfolding q
    by (intro exI [of _ ?w']) (auto simp: keep_retained_def Let_def ch_def intro!: exI)
qed



lemma length_filter_update:
  "i < length xs \<Longrightarrow> P (xs ! i) \<Longrightarrow> \<not> P y \<Longrightarrow> Suc (length (filter P (xs[i := y]))) = length (filter P xs)"
proof (induction xs arbitrary: i)
  case (Cons x xs)
  then show ?case by (cases i) auto
qed simp

text \<open>C26: a worker does not survive a request to delete a retained message (an empty payload with
  the retain flag set): whichever worker takes it removes the retained message of the topic and
  ends, so that the broker has one worker less from then on; the message itself is delivered to
  nobody.\<close>

theorem retain_delete_ends_the_worker:
  assumes "i < length (workers w)" and "workers w ! i = WIdle" and "buf (posts (table w)) = po # rest"
    and "msg = pobj (heap w) (pm po)" and "Retain (Header msg)" and "PayloadSize (env w) (Payload msg) = 0"
  shows "\<exists>w'. worker_take i w = Ret w' \<and> Suc (live_workers w') = live_workers w
    \<and> retained (table w') = (retained (table w))(TopicName msg := None) \<and> conns w' = conns w"
proof -
  have "chan_recv (posts (table w)) = Some (Some po, (posts (table w))\<lparr>buf := rest\<rparr>)"
    using assms(3) by (simp add: chan_recv_def)
  note eq = worker_take_delete [OF this]
  have "Suc (length (filter (\<lambda>p. p \<noteq> WExited) ((workers w)[i := WExited])))
      = length (filter (\<lambda>p. p \<noteq> WExited) (workers w))"
    using assms(1,2) by (intro length_filter_update) simp_all
  with eq [of i] assms show ?thesis by (simp add: live_workers_def)
qed

theorem retain_delete_ends_the_worker_witness:
  "\<exists>w'. worker_take 0 delete_posted = Ret w' \<and> Suc (live_workers w') = live_workers delete_posted
    \<and> retained (table w') = (retained (table delete_posted))(''t'' := None) \<and> conns w' = conns delete_posted"
  using retain_delete_ends_the_worker [of 0 delete_posted "\<lparr>pm = 0\<rparr>" "[]"] delete_posted by simp

lemma replicate_few: "replicate 2 x = [x, x]" "replicate 4 x = [x, x, x, x]"
  by (simp_all add: numeral_eq_Suc)

text \<open>Two such requests stop the small broker, which has two workers: from then on published
  messages pile up in the queue of posts, and once its four places are taken the next PUBLISH
  blocks the goroutine that reads from its client.\<close>

theorem two_retain_deletes_stop_delivery:
  "reaches (two_clients
          @ replicate 2 (got 0 (Publish (says ''t'' QosAtMostOnce True []))) @ [ETake 0, ETake 1]
          @ replicate 4 (got 0 (Publish (says ''t'' QosAtMostOnce False [1])))) small_broker
     (\<lambda>w. live_workers w = 0 \<and> length (buf (posts (table w))) = 4
       \<and> (case step_event (got 0 (Publish (says ''t'' QosAtMostOnce False [1]))) w of Block _ \<Rightarrow> True | _ \<Rightarrow> False))"
  by (simp add: reaches_def exec two_clients_def live_workers_def replicate_few)

subsection \<open>Retained messages\<close>



subsection \<open>Peers\<close>

definition enqueue :: "ptr message \<Rightarrow> endpoint \<Rightarrow> endpoint" where
  "enqueue m p = (if ealive p \<and> length (buf (ejobs p)) < ccap (ejobs p)
     then p\<lparr>ejobs := (ejobs p)\<lparr>buf := buf (ejobs p) @ [\<lparr>jm = m, jr = None\<rparr>]\<rparr>\<rparr> else p)"

lemma replicate_pub_enqueues:
  assumes "inv w"
    and "\<And>h p. map_of (nodes w) h = Some p \<Longrightarrow> PBuffOverflowStrategy (ecf p) \<noteq> BufferOverflowBlock"
  shows "\<exists>ns. replicate_pub m w = Ret (w\<lparr>nodes := ns\<rparr>)
    \<and> (\<forall>h. map_of ns h = map_option (enqueue (Publish m)) (map_of (nodes w) h))"
proof -
  let ?ks = "range_keys (env w) (map fst (nodes w))"
  have "nodes_inv (nodes w)" using assms(1) by (simp add: inv_def)
  then have sub: "ep_submit (Publish m) p = Ret (enqueue (Publish m) p)"
    if "map_of (nodes w) h = Some p" for h p
    using assms(2) [OF that] that
    by (auto simp: nodes_inv_def ep_submit_def enqueue_def chan_trysend_def)
  have dom: "set ?ks = dom (map_of (nodes w))" by (simp add: dom_map_of_conv_image_fst)
  have dist: "distinct ?ks" using \<open>nodes_inv (nodes w)\<close> by (simp add: nodes_inv_def)
  obtain ns where ns: "forG ?ks (\<lambda>k. ep_at k (ep_submit (Publish m))) w = Ret (w\<lparr>nodes := ns\<rparr>)"
    "\<And>k. map_of ns k = (if k \<in> set ?ks then map_option (enqueue (Publish m)) (map_of (nodes w) k)
                            else map_of (nodes w) k)"
    using forG_ep_at [where f = "ep_submit (Publish m)" and g = "enqueue (Publish m)",
        OF dist equalityD1 [OF dom]] sub by blast
  have "map_of ns h = map_option (enqueue (Publish m)) (map_of (nodes w) h)" for h
    unfolding ns(2) dom by (auto simp: dom_def)
  with ns(1) show ?thesis by (auto simp: replicate_pub_def)
qed

text \<open>C28: replication hands a message to every peer exactly once, whatever order the map of peers
  is visited in: in any state the broker can be in, if no endpoint uses the blocking strategy, it
  returns, every endpoint that is up and has room has the message once at the end of its queue, the
  others are unchanged, and so is the rest of the broker.\<close>

theorem replicate_reaches_every_peer_once:
  assumes "broker_state w"
    and "\<And>h p. map_of (nodes w) h = Some p \<Longrightarrow> PBuffOverflowStrategy (ecf p) \<noteq> BufferOverflowBlock"
  shows "\<exists>ns. replicate_pub m w = Ret (w\<lparr>nodes := ns\<rparr>)
    \<and> (\<forall>h. map_of ns h = map_option (enqueue (Publish m)) (map_of (nodes w) h))"
  using replicate_pub_enqueues [of w m] broker_state_inv [OF assms(1)] assms(2) by blast

theorem replicate_reaches_every_peer_once_witness:
  "\<exists>ns. replicate_pub 0 with_peers = Ret (with_peers\<lparr>nodes := ns\<rparr>)
    \<and> (\<forall>h. map_of ns h = map_option (enqueue (Publish 0)) (map_of (nodes with_peers) h))
    \<and> map fst (nodes with_peers) = [''p1'', ''p2'']"
proof -
  have "PBuffOverflowStrategy (ecf p) \<noteq> BufferOverflowBlock"
    if "map_of (nodes with_peers) h = Some p" for h p
    using map_of_SomeD [OF that] with_peers(1) by (auto simp: list_all_iff)
  then have "\<exists>ns. replicate_pub 0 with_peers = Ret (with_peers\<lparr>nodes := ns\<rparr>)
    \<and> (\<forall>h. map_of ns h = map_option (enqueue (Publish 0)) (map_of (nodes with_peers) h))"
    by (intro replicate_reaches_every_peer_once with_peers(2))
  with with_peers(1) show ?thesis by simp
qed

text \<open>A message a peer has replicated to this broker is posted for local delivery once, as it
  came, at the end of the queue of posts, and is not sent on to any peer: no message travels more
  than one hop and replication cannot loop. Other messages from a peer are ignored.\<close>

theorem replay_does_not_replicate:
  assumes "length (buf (posts (table w))) < ccap (posts (table w))" and "\<not> closed (posts (table w))"
  shows "\<exists>w'. replay_msg m w = Ret w' \<and> nodes w' = nodes w \<and> conns w' = conns w
    \<and> map (\<lambda>po. pobj (heap w') (pm po)) (drop (length (buf (posts (table w)))) (buf (posts (table w'))))
        = (case m of Publish pub \<Rightarrow> [pub] | _ \<Rightarrow> [])
    \<and> take (length (buf (posts (table w)))) (buf (posts (table w'))) = buf (posts (table w))"
  using assms
  by (cases m) (auto simp: replay_msg_def receive_def alloc_pub_def submitPost_def submit_post_def chan_send_def)

theorem replay_does_not_replicate_witness:
  "\<exists>w'. replay_msg (Publish (says ''t'' QosAtMostOnce True [1])) with_peers = Ret w' \<and> nodes w' = nodes with_peers
    \<and> map (\<lambda>po. pobj (heap w') (pm po)) (buf (posts (table w'))) = [says ''t'' QosAtMostOnce True [1]]"
  using replay_does_not_replicate [of with_peers "Publish (says ''t'' QosAtMostOnce True [1])"] with_peers(1)
  by auto

subsection \<open>A PUBLISH of a connected client\<close>

lemma submitPost_Ret:
  assumes "inv w" "length (buf (posts (table w))) < ccap (posts (table w))"
  shows "submitPost p w = Ret (w\<lparr>table := (table w)\<lparr>posts := (posts (table w))\<lparr>buf := buf (posts (table w)) @ [\<lparr>pm = p\<rparr>]\<rparr>\<rparr>\<rparr>)"
  using assms by (simp add: inv_def submitPost_def submit_post_def chan_send_def)

lemma put_store_frame [simp]:
  "table (put_store a s w) = table w" "heap (put_store a s w) = heap w" "cf (put_store a s w) = cf w"
  "nodes (put_store a s w) = nodes w" "env (put_store a s w) = env w" "nconns (put_store a s w) = nconns w"
  "workers (put_store a s w) = workers w"
  by (cases a; cases s; simp)+

lemma persistIn_publish:
  assumes "store_of c w = Some s"
  shows "\<exists>w1 s1. persistIn c (Publish p) w = Ret w1 \<and> store_of c w1 = Some s1 \<and> w1 = put_store (cstore (conns w c)) (Some s1) w
    \<and> s1 = (if QosLevel (Header (pobj (heap w) p)) = QosAtLeastOnce
             then MemPut (ibound_mid2key (MessageId (pobj (heap w) p))) (Publish p) s else s)"
  using assms by (auto simp: persistIn_def store_of_def memory_store_def)

lemma store_of_submit: "submit d m w = Ret w' \<Longrightarrow> store_of c w' = store_of c w"
  using submit_simps(5) [of d m w] submit_conn_simps(4) [of d m w c] by (simp add: store_of_def)

lemma publish_effect:
  assumes iB: "inv w" "B w" and "inpos (conns w c) = InLoop" and "flag (conns w c) \<noteq> None"
    and "BuffOverflowStrategy (Broker (cf w)) \<noteq> BufferOverflowBlock" and "nodes w = []"
    and "length (buf (posts (table w))) < ccap (posts (table w))" and "msg = pobj (heap w) p"
  shows "\<exists>w' s s'. doPublish True c p w = Ret w'
    \<and> buf (posts (table w')) = buf (posts (table w)) @ [\<lparr>pm = p\<rparr>]
    \<and> store_of c w = Some s \<and> store_of c w' = Some s'
    \<and> s' = (if QosLevel (Header msg) = QosAtLeastOnce
             then MemPut (ibound_mid2key (MessageId msg)) (Publish p) s else s)
    \<and> queue c w' = queue c w @
        (if QosLevel (Header msg) = QosAtLeastOnce \<and> 0 < room c w then [PubAck zero_header (MessageId msg)] else [])
    \<and> (\<forall>d. d \<noteq> c \<longrightarrow> queue d w' = queue d w)
    \<and> table w' = (table w)\<lparr>posts := (posts (table w))\<lparr>buf := buf (posts (table w)) @ [\<lparr>pm = p\<rparr>]\<rparr>\<rparr>
    \<and> heap w' = heap w \<and> workers w' = workers w \<and> (\<forall>d. d \<noteq> c \<longrightarrow> room d w' = room d w) \<and> same_wires w w'"
proof -
  from iB have Z: "Z c w" using assms(3,4) by (intro Z_I)
  then obtain s where s: "store_of c w = Some s" using owns_store by (auto simp: Z_def Q_def)
  obtain w1 s1 where w1: "persistIn c (Publish p) w = Ret w1" "store_of c w1 = Some s1"
    "w1 = put_store (cstore (conns w c)) (Some s1) w"
    and s1: "s1 = (if QosLevel (Header msg) = QosAtLeastOnce
             then MemPut (ibound_mid2key (MessageId msg)) (Publish p) s else s)"
    using persistIn_publish [OF s, of p] assms(8) by auto
  have inv1: "inv w1" using keeps_Ret [OF keeps_persist(1) iB(1) w1(1)] .
  let ?w2 = "w1\<lparr>table := (table w1)\<lparr>posts := (posts (table w1))\<lparr>buf := buf (posts (table w1)) @ [\<lparr>pm = p\<rparr>]\<rparr>\<rparr>\<rparr>"
  have post: "submitPost p w1 = Ret ?w2" using submitPost_Ret [OF inv1] assms(7) by (simp add: w1(3))
  have repl: "replicate_pub p ?w2 = Ret ?w2"
    using assms(6) range_keys_def by (simp add: replicate_pub_def w1(3) range_keys_def)
  have "conns_ok ?w2" "\<not> conn_blocking ?w2"
    using inv_conns_ok [OF inv1] assms(5) by (simp_all add: conns_ok_def conn_blocking_def w1(3))
  then obtain w3 where w3: "submit c (PubAck zero_header (MessageId msg)) ?w2 = Ret w3"
    "queue c w3 = queue c ?w2 @ (if 0 < room c ?w2 then [PubAck zero_header (MessageId msg)] else [])"
    "\<And>d. d \<noteq> c \<Longrightarrow> queue d w3 = queue d ?w2 \<and> room d w3 = room d ?w2"
    using submit_discard [of ?w2 c "PubAck zero_header (MessageId msg)"] by auto
  have q: "queue d ?w2 = queue d w" "room d ?w2 = room d w" for d
    by (simp_all add: queue_def room_def w1(3))
  have st: "store_of c ?w2 = Some s1" using w1(2) by (simp add: store_of_def)
  have st3: "store_of c w3 = Some s1" "table w3 = table ?w2"
    using st store_of_submit [OF w3(1)] submit_Ret_frame(1) [OF w3(1)] by simp_all
  let ?w' = "if QosLevel (Header msg) = QosAtLeastOnce then w3 else ?w2"
  have "doPublish True c p w = Ret ?w'"
    using assms(4,8) w1(1) post repl w3(1) by (auto simp: doPublish_def authorized_def w1(3) split: if_splits)
  moreover have sbq: "same_but_queues ?w2 ?w'" using submit_same [OF w3(1)] by simp
  moreover have "same_wires ?w2 ?w'" using sbq by (rule same_but_queues_wires)
  moreover have "same_wires w ?w2" by (simp add: same_wires_def w1(3))
  ultimately show ?thesis
    using s s1 st st3 w3(2,3) q
    by (intro exI [of _ ?w'] exI [of _ s] exI [of _ s1])
      (auto simp: same_wires_def same_but_queues_def w1(3))
qed



end
