(* ===== verification/Connections.thy ===== *)
theory Connections
  imports Delivery
begin

section \<open>The life of a connection\<close>

text \<open>
  CONNECT and its return code, the restored session, SUBSCRIBE and UNSUBSCRIBE seen on the
  abstract table, the outbound goroutine, the keep-alive goroutine and the clean-up at the end.
\<close>

subsection \<open>Concrete runs\<close>

definition served_events :: "event list" where
  "served_events = two_clients @ [got 0 (Publish (says ''t'' QosAtLeastOnce False [1])), ETake 0, EDeliver 0,
     EFinish 0, EOutbound 5 True 1, EOutbound 6 True 1, EOutbound 7 True 1]"

definition served :: world where
  "served = the (run served_events small_broker)"

lemma served_run:
  "reaches served_events small_broker (\<lambda>w. BuffOverflowStrategy (Broker (cf w)) \<noteq> BufferOverflowBlock
     \<and> alive (conns w 1) \<and> \<not> Option.is_none (store_of 1 w) \<and> room 1 w = 4)"
  by (simp add: reaches_def served_events_def two_clients_def exec room_def queue_def)

lemmas served = reaches_the [OF served_run, folded served_def]
  small_broker_run [OF served_run, folded served_def]

definition leaving_events :: "event list" where
  "leaving_events = two_clients @ [got 1 Disconnect, EOutbound 5 True 1, EOutbound 6 True 1, EOutbound 7 True 1]"

definition leaving :: world where
  "leaving = the (run leaving_events small_broker)"

lemma leaving_run:
  "reaches leaving_events small_broker (\<lambda>w.
     outpos (conns w 1) = OutCleanup \<and> flag (conns w 1) = Some (connect_as ''b''))"
  by (simp add: reaches_def leaving_events_def two_clients_def exec)

lemmas leaving = reaches_the [OF leaving_run, folded leaving_def]
  small_broker_run [OF leaving_run, folded leaving_def]

subsection \<open>CONNECT\<close>

text \<open>The return code of a CONNECT, as a decision list: too many connections come before
  missing credentials, these before a bad client id, and that before a wrong protocol; the client is
  accepted exactly when none of the four holds. The code for a bad user name or password is never
  returned.\<close>

theorem connect_rc_is_a_decision_list:
  "connect_rc b n m =
     (if 0 < MaxConnections b \<and> MaxConnections b < n then RetCodeServerUnavailable
      else if \<not> AllowAnonymousConnect b \<and>
              \<not> (UsernameFlag m \<and> Username m \<noteq> '''' \<and> PasswordFlag m \<and> Password m \<noteq> '''')
           then RetCodeNotAuthorized
      else if ClientId m = '''' \<or> 23 < length (ClientId m) then RetCodeIdentifierRejected
      else if (ProtocolName m, ProtocolVersion m) = (''MQIsdp'', 3) then RetCodeAccepted
      else RetCodeUnacceptableProtocolVersion)"
  by (auto simp: connect_rc_def Let_def authenticate_def protocolName_def protocolVersion_def
      maxClientIdLength_def)

subsection \<open>The restored session\<close>

definition resent :: "world \<Rightarrow> MemoryStore \<Rightarrow> string \<Rightarrow> ptr message list" where
  "resent w s key =
     (case MemGet key s of
        Some (Publish p) \<Rightarrow> if QosLevel (Header (pobj (heap w) p)) = QosAtLeastOnce then [Publish p] else []
      | Some (PubAck h mid) \<Rightarrow> if QosLevel h = QosAtLeastOnce then [PubAck h mid] else []
      | _ \<Rightarrow> [])"

lemma forG_single: "forG [x] f s = f x s"
  by (simp add: forG_def seqG_single)

lemma resend_eq:
  "key \<noteq> [] \<Longrightarrow> store_of c w = Some s \<Longrightarrow> resend c key w = forG (resent w s key) (submit c) w"
  by (auto simp: resend_def resent_def forG_single simp del: forG_Cons split: option.split message.split)

lemma resend_loop:
  assumes "\<And>k. k \<in> set ks \<Longrightarrow> k \<noteq> []" and "store_of c w = Some s"
  shows "forG ks (resend c) w = forG (concat (map (resent w s) ks)) (submit c) w"
  using assms
proof (induction ks arbitrary: w)
  case (Cons k ks)
  have one: "resend c k w = forG (resent w s k) (submit c) w" using Cons.prems by (intro resend_eq) auto
  have fr: "heap u = heap v \<and> store_of c u = store_of c v" if "forG ms (submit c) v = Ret u" for ms u v
    using that
  proof (induction ms arbitrary: v)
    case (Cons m ms)
    then obtain x where "submit c m v = Ret x" "forG ms (submit c) x = Ret u"
      by (cases "submit c m v") auto
    with Cons.IH [of x] submit_Ret_frame(3) store_of_submit show ?case by metis
  qed simp
  show ?case
  proof (cases "forG (resent w s k) (submit c) w")
    case (Ret u)
    have "heap u = heap w" using fr [OF Ret] by simp
    then have "resent u s = resent w s" by (intro ext) (simp add: resent_def split: option.split message.split)
    moreover have "forG ks (resend c) u = forG (concat (map (resent u s) ks)) (submit c) u"
      using Cons.prems fr [OF Ret] by (intro Cons.IH) auto
    ultimately show ?thesis by (simp add: one Ret forG_append)
  qed (simp_all add: one forG_append)
qed simp

text \<open>C15: a client that connects without a clean session gets the unfinished messages of its
  store: in any state the broker can be in, for a live connection under the strategy \<^verbatim>\<open>discard\<close>, the
  loop returns and appends to the queue, in the order in which the store lists its keys, every
  stored message of QoS 1, as far as there is room; the store keeps them. A clean session empties
  the store and queues nothing.\<close>

theorem session_is_restored_from_the_store:
  assumes "broker_state w" and "BuffOverflowStrategy (Broker (cf w)) \<noteq> BufferOverflowBlock"
    and "alive (conns w c)" and "store_of c w = Some s"
  shows "\<exists>w' s'. restore_session c m w = Ret w' \<and> store_of c w' = Some s'
    \<and> queue c w' = queue c w @
        (if CleanSession m then [] else take (room c w) (concat (map (resent w s) (MemAll (env w) s))))
    \<and> (\<forall>k. MemGet k s' = (if CleanSession m then None else MemGet k s))"
proof (cases "CleanSession m")
  case True
  obtain a where a: "cstore (conns w c) = Some a" using assms(4) by (auto simp: store_of_def)
  let ?w = "put_store (Some a) (Some (MemReset s)) w"
  have "restore_session c m w = Ret ?w" using True assms(4) a by (simp add: restore_session_def)
  moreover have "store_of c ?w = Some (MemReset s)" using a by (simp add: store_of_def)
  moreover have "queue c ?w = queue c w" by (simp add: queue_def)
  ultimately show ?thesis using True by (auto simp: MemGet_def MemReset_def)
next
  case False
  have inv: "inv w" using broker_state_inv [OF assms(1)] by simp
  have ok: "store_ok s" using store_of_ok [OF inv assms(4)] .
  let ?ms = "concat (map (resent w s) (MemAll (env w) s))"
  have "k \<noteq> []" if "k \<in> set (MemAll (env w) s)" for k
    using ok that by (auto simp: store_ok_def MemAll_eq MemGet_def map_of_eq_None_iff dest!: key_ok_nonempty)
  then have loop: "restore_session c m w = forG ?ms (submit c) w"
    using False assms(4) by (simp add: restore_session_def resend_loop)
  have k: "conn_inv (conns w c)" using inv by simp
  then obtain t where t: "forG ?ms (submit c) w = Ret t"
    "queue c t = queue c w @ take (ccap (jobs (conns w c)) - length (queue c w)) ?ms"
    using cq.discard_batch [of w c ?ms] assms(2,3)
    by (auto simp: conn_blocking_def conn_inv_def chan_wf_def)
  have "store_of c u = store_of c v" if "forG ms (submit c) v = Ret u" for ms u v
    using that
  proof (induction ms arbitrary: v)
    case (Cons x ms)
    then show ?case by (cases "submit c x v") (auto dest: store_of_submit)
  qed simp
  with t(1) assms(4) have "store_of c t = Some s" by metis
  with False loop t assms(3) show ?thesis by (auto simp: room_def)
qed

theorem session_is_restored_from_the_store_witness:
  "\<exists>w' s'. restore_session 1 ((connect_as ''b'')\<lparr>CleanSession := False\<rparr>) served = Ret w' \<and> store_of 1 w' = Some s'
    \<and> queue 1 w' = queue 1 served @ take 4 (concat (map (resent served (the (store_of 1 served)))
        (MemAll (env served) (the (store_of 1 served)))))"
proof -
  have "store_of 1 served = Some (the (store_of 1 served))"
    using served(1) by (auto simp: Option.is_none_def)
  from session_is_restored_from_the_store [OF served(2) _ _ this,
      of "(connect_as ''b'')\<lparr>CleanSession := False\<rparr>"] served(1)
  show ?thesis by auto
qed

subsection \<open>SUBSCRIBE, UNSUBSCRIBE\<close>

lemma unsub_table:
  "subs_wf s \<Longrightarrow> table_of (unsub f c s) = spec_op (Unsub f c) (table_of s)"
  using table_of_op [of s _ "Unsub f c"] by simp

lemma add_sub_table:
  "subs_wf s \<Longrightarrow> table_of (add_sub e f c s) = spec_op (Sub f c) (table_of s)"
  using table_of_op [of s e "Sub f c"] by simp

lemma subscribe_loop_within:
  assumes "subs_wf (table w)" and "subN (conns w c) + int (length ts) \<le> ClientMaxSubscriptions (Broker (cf w))"
  shows "\<exists>w'. forG ts (subscribe_one c) w = Ret w' \<and> subs_wf (table w')
    \<and> table_of (table w') = fold spec_op (map (\<lambda>tq. Sub (Topic tq) c) ts) (table_of (table w))
    \<and> (\<forall>d. d \<noteq> c \<longrightarrow> conns w' d = conns w d) \<and> cf w' = cf w \<and> retained (table w') = retained (table w)
    \<and> conns w' c = (conns w c)\<lparr>subN := subN (conns w c) + int (length ts)\<rparr>"
  using assms
proof (induction ts arbitrary: w)
  case (Cons tq ts)
  let ?w = "upd_table (add_sub (env w) (Topic tq) c) (upd_conn c (\<lambda>this. this\<lparr>subN := subN (conns w c) + 1\<rparr>) w)"
  have one: "subscribe_one c tq w = Ret ?w"
    using Cons.prems by (simp add: subscribe_one_eq Let_def)
  have "\<exists>w'. forG ts (subscribe_one c) ?w = Ret w' \<and> subs_wf (table w')
    \<and> table_of (table w') = fold spec_op (map (\<lambda>tq. Sub (Topic tq) c) ts) (table_of (table ?w))
    \<and> (\<forall>d. d \<noteq> c \<longrightarrow> conns w' d = conns ?w d) \<and> cf w' = cf ?w \<and> retained (table w') = retained (table ?w)
    \<and> conns w' c = (conns ?w c)\<lparr>subN := subN (conns ?w c) + int (length ts)\<rparr>"
    using Cons.prems by (intro Cons.IH) (simp_all add: add_sub_spec)
  with one Cons.prems(1) show ?case
    by (simp add: add_sub_table add_sub_spec add.assoc)
qed simp

lemma unsubscribe_loop:
  assumes "subs_wf (table w)"
  shows "\<exists>w'. forG ts (\<lambda>t w. Ret (unsubscribe_one c t w)) w = Ret w' \<and> subs_wf (table w')
    \<and> table_of (table w') = fold spec_op (map (\<lambda>t. Unsub t c) ts) (table_of (table w))
    \<and> (\<forall>d. d \<noteq> c \<longrightarrow> conns w' d = conns w d) \<and> cf w' = cf w
    \<and> conns w' c = (conns w c)\<lparr>subN := subN (conns w c) - int (length ts)\<rparr>"
  using assms
proof (induction ts arbitrary: w)
  case (Cons t ts)
  let ?w = "unsubscribe_one c t w"
  have "\<exists>w'. forG ts (\<lambda>t w. Ret (unsubscribe_one c t w)) ?w = Ret w' \<and> subs_wf (table w')
    \<and> table_of (table w') = fold spec_op (map (\<lambda>t. Unsub t c) ts) (table_of (table ?w))
    \<and> (\<forall>d. d \<noteq> c \<longrightarrow> conns w' d = conns ?w d) \<and> cf w' = cf ?w
    \<and> conns w' c = (conns ?w c)\<lparr>subN := subN (conns ?w c) - int (length ts)\<rparr>"
    using Cons.prems by (intro Cons.IH) (simp add: unsubscribe_one_def unsub_spec)
  with Cons.prems show ?case by (simp add: unsubscribe_one_def unsub_table diff_diff_eq)
qed simp



subsection \<open>The outbound goroutine\<close>

lemma outbound_round:
  assumes B: "B w" and "buf (jobs (conns w c)) = j # js" and "outpos (conns w c) = OutLoop"
  shows "\<exists>w'. outbound_step now ok c w = Ret w'
    \<and> buf (jobs (conns w' c)) = js
    \<and> wire (conns w' c) = wire (conns w c) @ (if ok then [snapshot (heap w) (jm j)] else [])
    \<and> (\<forall>r. receiptClosed w' r \<longleftrightarrow> receiptClosed w r \<or> jr j = Some r)
    \<and> (outpos (conns w' c) = OutLoop \<longleftrightarrow> ok \<and> jm j \<noteq> Disconnect)
    \<and> (\<forall>d. d \<noteq> c \<longrightarrow> conns w' d = conns w d)
    \<and> store_of c w' = map_option (\<lambda>s.
        (case jm j of
           Publish p \<Rightarrow> if QosLevel (Header (pobj (heap w) p)) = QosAtLeastOnce
                        then MemPut (obound_mid2key (MessageId (pobj (heap w) p))) (Publish p) s else s
         | PubAck h mid \<Rightarrow> MemDel (ibound_mid2key mid) s
         | _ \<Rightarrow> s)) (store_of c w)
    \<and> heap w' = heap w \<and> nconns w' = nconns w \<and> table w' = table w"
proof -
  let ?ch = "(jobs (conns w c))\<lparr>buf := js\<rparr>"
  let ?w = "upd_conn c (\<lambda>this. this\<lparr>jobs := ?ch\<rparr>) w"
  have recv: "chan_recv (jobs (conns w c)) = Some (Some j, ?ch)" using assms(2) by (simp add: chan_recv_def)
  have "j \<in> set (buf (jobs (conns w c)))" using assms(2) by simp
  then have own: "needs_store (jm j) \<Longrightarrow> owns w c" using R_queued [OF B_R [OF B]] by blast
  have st: "store_of c ?w = store_of c w" by (simp add: store_of_def)
  define f where "f s = (case jm j of
           Publish p \<Rightarrow> if QosLevel (Header (pobj (heap w) p)) = QosAtLeastOnce
                        then MemPut (obound_mid2key (MessageId (pobj (heap w) p))) (Publish p) s else s
         | PubAck h mid \<Rightarrow> MemDel (ibound_mid2key mid) s
         | _ \<Rightarrow> s)" for s
  have pers: "persistOut c (jm j) ?w = Ret (put_store (cstore (conns w c)) (map_option f (store_of c w)) ?w)"
  proof (cases "store_of c w")
    case None
    then have "\<not> needs_store (jm j)" using own owns_store by fastforce
    with None show ?thesis by (cases "jm j") (simp_all add: persistOut_def st)
  next
    case (Some s)
    then show ?thesis by (cases "jm j") (auto simp: persistOut_def st f_def memory_store_def)
  qed
  let ?w1 = "put_store (cstore (conns w c)) (map_option f (store_of c w)) ?w"
  have st1: "store_of c ?w1 = map_option f (store_of c w)"
    by (cases "cstore (conns w c)") (simp_all add: store_of_def)
  have "\<exists>w'. outbound_step now ok c w = Ret w'
    \<and> buf (jobs (conns w' c)) = js
    \<and> wire (conns w' c) = wire (conns w c) @ (if ok then [snapshot (heap w) (jm j)] else [])
    \<and> receiptClosed w' = receiptClosed (close_receipt (jr j) ?w1)
    \<and> (outpos (conns w' c) = OutLoop \<longleftrightarrow> ok \<and> jm j \<noteq> Disconnect)
    \<and> (\<forall>d. d \<noteq> c \<longrightarrow> conns w' d = conns w d)
    \<and> cstores w' = cstores ?w1 \<and> cstore (conns w' c) = cstore (conns w c)
    \<and> heap w' = heap w \<and> nconns w' = nconns w \<and> table w' = table w"
    using assms(3)
    by (cases "jr j") (auto simp: outbound_step_def recv pers Let_def refreshOpTime_def)
  then obtain w' where w': "outbound_step now ok c w = Ret w'" "buf (jobs (conns w' c)) = js"
    "wire (conns w' c) = wire (conns w c) @ (if ok then [snapshot (heap w) (jm j)] else [])"
    "receiptClosed w' = receiptClosed (close_receipt (jr j) ?w1)"
    "outpos (conns w' c) = OutLoop \<longleftrightarrow> ok \<and> jm j \<noteq> Disconnect"
    "\<forall>d. d \<noteq> c \<longrightarrow> conns w' d = conns w d"
    "cstores w' = cstores ?w1" "cstore (conns w' c) = cstore (conns w c)"
    "heap w' = heap w" "nconns w' = nconns w" "table w' = table w"
    by blast
  have "receiptClosed ?w1 = receiptClosed w"
    by (cases "cstore (conns w c)"; cases "store_of c w") simp_all
  then have rc: "receiptClosed (close_receipt (jr j) ?w1) r \<longleftrightarrow> receiptClosed w r \<or> jr j = Some r" for r
    by (cases "jr j") auto
  have "store_of c w' = map_option f (store_of c w)"
    using st1 w'(7,8) by (simp add: store_of_def)
  with w'(1-6,9-11) rc show ?thesis unfolding f_def by (intro exI [of _ w']) simp
qed

text \<open>C16: one round of the outbound goroutine: in any state the broker can be in, it takes the
  oldest job of the queue and nothing else, never panics, writes the message as it is at that moment
  when the write succeeds, closes the receipt of the job either way, and stays in its loop exactly
  when the write succeeded and the message was not a DISCONNECT. A QoS 1 message is in the store
  from then on, and a PUBACK frees the key of the message it answers.\<close>

theorem outbound_writes_in_order:
  assumes "broker_state w" and "buf (jobs (conns w c)) = j # js" and "outpos (conns w c) = OutLoop"
  shows "\<exists>w'. outbound_step now ok c w = Ret w'
    \<and> buf (jobs (conns w' c)) = js
    \<and> wire (conns w' c) = wire (conns w c) @ (if ok then [snapshot (heap w) (jm j)] else [])
    \<and> (\<forall>r. receiptClosed w' r \<longleftrightarrow> receiptClosed w r \<or> jr j = Some r)
    \<and> (outpos (conns w' c) = OutLoop \<longleftrightarrow> ok \<and> jm j \<noteq> Disconnect)
    \<and> (\<forall>d. d \<noteq> c \<longrightarrow> conns w' d = conns w d)
    \<and> store_of c w' = map_option (\<lambda>s.
        (case jm j of
           Publish p \<Rightarrow> if QosLevel (Header (pobj (heap w) p)) = QosAtLeastOnce
                        then MemPut (obound_mid2key (MessageId (pobj (heap w) p))) (Publish p) s else s
         | PubAck h mid \<Rightarrow> MemDel (ibound_mid2key mid) s
         | _ \<Rightarrow> s)) (store_of c w)"
  using outbound_round [of w c j js now ok] broker_state_inv [OF assms(1)] assms(2,3) by blast

theorem outbound_writes_in_order_witness:
  "\<exists>w'. outbound_step 5 True 1 posted = Ret w'
    \<and> buf (jobs (conns w' 1)) = [\<lparr>jm = SubAck 1 [QosAtMostOnce], jr = None\<rparr>]
    \<and> wire (conns w' 1) = wire (conns posted 1) @ [ConnAck RetCodeAccepted]"
  using outbound_writes_in_order [OF posted(2), of 1 "\<lparr>jm = ConnAck RetCodeAccepted, jr = None\<rparr>"
      "[\<lparr>jm = SubAck 1 [QosAtMostOnce], jr = None\<rparr>]" 5 True] posted(1)
  by (auto simp: snapshot_def)

subsection \<open>Keep alive\<close>



subsection \<open>The end of a connection\<close>

text \<open>C22: the clean-up at the end of the outbound goroutine: in any state the broker can be in, it
  returns, the socket is closed, no topic is delivered to the connection any more while every other
  connection keeps all its subscriptions, and the client id of the connection is no longer
  registered, whoever was registered under it.\<close>

theorem cleanup_removes_the_connection:
  assumes "broker_state w" and "outpos (conns w c) = OutCleanup" and "flag (conns w c) = Some m"
  shows "\<exists>w'. outbound_cleanup c w = Ret w' \<and> sockClosed (conns w' c)
    \<and> table_of (table w') = {(f, d) \<in> table_of (table w). d \<noteq> c}
    \<and> clients w' = (clients w)(ClientId m := None)"
proof -
  have inv: "inv w" using broker_state_inv [OF assms(1)] by simp
  then have "subs_wf (table w)" "conn_inv (conns w c)" by (simp_all add: inv_def)
  with assms(2,3) show ?thesis
    using table_of_op [of "table w" "env w" "UnsubAll c"]
    by (simp add: outbound_cleanup_def Let_def del_def conn_inv_def)
qed

theorem cleanup_removes_the_connection_witness:
  "\<exists>w'. outbound_cleanup 1 leaving = Ret w' \<and> sockClosed (conns w' 1)
    \<and> table_of (table w') = {(f, d) \<in> table_of (table leaving). d \<noteq> 1}
    \<and> clients w' = (clients leaving)(ClientId (connect_as ''b'') := None)"
  using cleanup_removes_the_connection [OF leaving(2), of 1 "connect_as ''b''"] leaving(1) by blast

text \<open>A PUBLISH seen from its arrival at the socket.\<close>

lemma inbound_publish:
  assumes "broker_state w" and "BuffOverflowStrategy (Broker (cf w)) \<noteq> BufferOverflowBlock" and "nodes w = []"
    and "inpos (conns w c) = InLoop" and "flag (conns w c) \<noteq> None"
    and "length (buf (posts (table w))) < ccap (posts (table w))"
  shows "\<exists>u p. inbound_step now True c (Decoded (Publish msg)) w = Ret u
    \<and> buf (posts (table u)) = buf (posts (table w)) @ [\<lparr>pm = p\<rparr>] \<and> pobj (heap u) p = msg
    \<and> table_of (table u) = table_of (table w) \<and> workers u = workers w
    \<and> (\<forall>d. d \<noteq> c \<longrightarrow> queue d u = queue d w \<and> room d u = room d w) \<and> same_wires w u
    \<and> queue c u = queue c w @ (if QosLevel (Header msg) = QosAtLeastOnce \<and> 0 < room c w
         then [PubAck zero_header (MessageId msg)] else [])"
proof -
  obtain p h where h: "alloc_pub msg (heap w) = (p, h)" by (rule prod.exhaust)
  then have p: "pobj h p = msg" by (auto simp: alloc_pub_def)
  let ?w = "(refreshOpTime now c (upd_stats (addIn (env w) (Publish msg)) (upd_stats messageRecv w)))\<lparr>heap := h\<rparr>"
  have "inv ?w" "B ?w"
    using broker_state_inv [OF assms(1)] by (simp_all add: refreshOpTime_def inv_upd_conn B_upd_conn)
  then obtain u where u: "doPublish True c p ?w = Ret u"
    "table u = (table ?w)\<lparr>posts := (posts (table ?w))\<lparr>buf := buf (posts (table ?w)) @ [\<lparr>pm = p\<rparr>]\<rparr>\<rparr>"
    "heap u = heap ?w" "workers u = workers ?w"
    "\<And>d. d \<noteq> c \<Longrightarrow> queue d u = queue d ?w \<and> room d u = room d ?w" "same_wires ?w u"
    "queue c u = queue c ?w @ (if QosLevel (Header msg) = QosAtLeastOnce \<and> 0 < room c ?w
       then [PubAck zero_header (MessageId msg)] else [])"
    using publish_effect [of ?w c msg p] assms(2-6) p by (auto simp: refreshOpTime_def)
  have "inbound_step now True c (Decoded (Publish msg)) w = Ret u"
    using u(1) h by (simp add: inbound_step_def Let_def receive_def dispatch_def refreshOpTime_def)
  moreover have "same_wires w u" using u(6) by (auto simp: same_wires_def refreshOpTime_def upd_conn_def)
  moreover have "queue d ?w = queue d w" "room d ?w = room d w" for d
    by (simp_all add: queue_def room_def refreshOpTime_def upd_conn_def)
  ultimately show ?thesis using u(2-5,7) p by (intro exI [of _ u] exI [of _ p]) (simp add: refreshOpTime_def)
qed

subsection \<open>Schedules that drain the queues\<close>

text \<open>The outbound goroutine, run as often as there are messages.\<close>

lemma drain:
  assumes "broker_state w" "c < nconns w" "outpos (conns w c) = OutLoop"
    and "n \<le> length (queue c w)" "Disconnect \<notin> set (take n (queue c w))"
  shows "\<exists>w'. run (replicate n (EOutbound now True c)) w = Some w' \<and> queue c w' = drop n (queue c w)
    \<and> wire (conns w' c) = wire (conns w c) @ map (snapshot (heap w)) (take n (queue c w))"
  using assms
proof (induction n arbitrary: w)
  case (Suc n)
  then obtain j js where j: "buf (jobs (conns w c)) = j # js"
    by (cases "buf (jobs (conns w c))") (simp_all add: queue_def)
  then have q: "queue c w = jm j # map jm js" by (simp add: queue_def)
  from outbound_round [of w c j js now True] broker_state_inv [OF Suc.prems(1)] j Suc.prems(3)
  obtain u where u: "outbound_step now True c w = Ret u" "buf (jobs (conns u c)) = js"
    "wire (conns u c) = wire (conns w c) @ [snapshot (heap w) (jm j)]"
    "outpos (conns u c) = OutLoop \<longleftrightarrow> jm j \<noteq> Disconnect" "heap u = heap w" "nconns u = nconns w"
    by auto
  have "bstep w (Ret u)" using b_outbound [OF Suc.prems(2,3), of now True] u(1) by simp
  then have "broker_state u" using Suc.prems(1) broker_state_step by blast
  moreover have qu: "queue c u = map jm js" using u(2) by (simp add: queue_def)
  ultimately obtain w' where "run (replicate n (EOutbound now True c)) u = Some w'" "queue c w' = drop n (queue c u)"
    "wire (conns w' c) = wire (conns u c) @ map (snapshot (heap u)) (take n (queue c u))"
    using Suc.IH [of u] Suc.prems q u(4,6) by auto
  with u Suc.prems(2,3) q qu show ?case by simp
qed simp

text \<open>A round of a worker is a run of its own events.\<close>

lemma deliver_rest_run:
  assumes "deliver_rest i n w = Ret w'" "i < length (workers w)" "workers w ! i = WDeliver m res k r" "k + n = slen res"
  shows "run (replicate n (EDeliver i)) w = Some w' \<and> i < length (workers w') \<and> workers w' ! i = WDeliver m res (slen res) r"
  using assms
proof (induction n arbitrary: w k)
  case (Suc n)
  then obtain u where u: "worker_deliver i w = Ret u" "deliver_rest i n u = Ret w'"
    by (cases "worker_deliver i w") simp_all
  let ?x = "mem (sarrs (table w)) (arr res) ! k"
  obtain v where v: "(case ?x of None \<Rightarrow> Ret w | Some c \<Rightarrow> submit c (Publish m) w) = Ret v"
    "u = v\<lparr>workers := (workers v)[i := WDeliver m res (Suc k) r]\<rparr>"
    using u(1) Suc.prems(3,4)
    by (cases "case ?x of None \<Rightarrow> Ret w | Some c \<Rightarrow> submit c (Publish m) w") (auto simp: worker_deliver_def)
  then have "workers v = workers w" by (auto split: option.splits dest: submit_Ret_frame)
  with v(2) Suc.prems have "i < length (workers u)" "workers u ! i = WDeliver m res (Suc k) r" by simp_all
  with Suc.IH [OF u(2), of "Suc k"] Suc.prems u(1) show ?case by simp
qed simp

lemma run_post_run:
  assumes "run_post i w = Ret w'" "i < length (workers w)" "workers w ! i = WIdle"
  shows "\<exists>evs. run evs w = Some w' \<and> set evs \<subseteq> {ETake i, EDeliver i, EFinish i}"
proof -
  obtain u where u: "worker_take i w = Ret u"
    using assms(1) by (cases "worker_take i w") (simp_all add: run_post_def)
  then have "run [ETake i] w = Some u" using assms(2,3) by simp
  then have take: "\<exists>evs. run evs w = Some u \<and> set evs \<subseteq> {ETake i, EDeliver i, EFinish i}" by (intro exI [of _ "[ETake i]"]) simp
  have i: "i < length (workers u)"
    using u assms(2) by (auto simp: worker_take_def Let_def split: option.splits prod.splits if_splits)
  show ?thesis
  proof (cases "workers u ! i")
    case (WDeliver m res k r)
    then have k: "k = 0"
      using u assms(2,3) by (auto simp: worker_take_def Let_def split: option.splits prod.splits if_splits)
    obtain v where v: "deliver_rest i (slen res) u = Ret v" "worker_finish i v = Ret w'"
      using assms(1) u WDeliver by (cases "deliver_rest i (slen res) u") (simp_all add: run_post_def)
    from deliver_rest_run [OF v(1) i WDeliver] k
    have "run (replicate (slen res) (EDeliver i) @ [EFinish i]) u = Some w'" using v(2) by (simp add: run_append)
    with u assms(2,3) have "run (ETake i # replicate (slen res) (EDeliver i) @ [EFinish i]) w = Some w'" by simp
    then show ?thesis by (intro exI [of _ "ETake i # replicate (slen res) (EDeliver i) @ [EFinish i]"]) auto
  qed (use assms(1) u take in \<open>auto simp: run_post_def\<close>)
qed

end
