(* ===== verification/Client.thy ===== *)
theory Client
  imports Store
begin

section \<open>The client library: \<^verbatim>\<open>broker/api.go\<close>\<close>

text \<open>
  \<open>ClientConn\<close> is the struct of the client side of a connection. The goroutines it starts are
  \<^verbatim>\<open>inboundLoop\<close> (place \<open>cinpos\<close>), \<^verbatim>\<open>outboundLoop\<close> (place \<open>coutpos\<close>) and one \<^verbatim>\<open>runKeepAlive\<close> per
  call of \<^verbatim>\<open>Connect\<close> with a keep-alive period (\<open>keepalives\<close>); the goroutines of the
  application that call its methods are \<open>users\<close>. The queue \<^verbatim>\<open>out\<close> and the channel \<^verbatim>\<open>Incoming\<close> are
  buffered; the three acknowledgement channels are not: \<^verbatim>\<open>inboundLoop\<close> stands in \<open>COffer\<close> until a
  caller takes the acknowledgement in the same step. \<^verbatim>\<open>doneChan\<close> is only ever closed. The socket is
  what has been written to it (\<open>cwire\<close>) and what has been read from it (\<open>crecv\<close>); \<open>cgot\<close> is what the
  application has read from \<^verbatim>\<open>Incoming\<close>. The flag \<^verbatim>\<open>Dump\<close> only logs and is left out.

  A call of a method is the places of \<open>upos\<close>: at the send on \<^verbatim>\<open>out\<close> (with a receipt when it is
  made by \<^verbatim>\<open>sync\<close>), at the receipt, at what the method waits for after that, returned.
\<close>

record cjob =
  cjm :: "publish message"
  cjr :: "receipt option"

datatype cinpos = CLoop | COffer "publish message" | CDone

datatype coutpos = COutLoop | COutDone

datatype kpos = KLoop | KPing | KGone

datatype uret =
    RConnect ReturnCode
  | RDisconnect
  | RSubscribe "(16 word \<times> qos list) option"
  | RUnsubscribe
  | RPublish

datatype unext = NRet uret | NConnack | NDone | NSuback | NPuback | NQos

datatype upos =
    UIdle
  | UOut "publish message" bool unext
  | UReceipt receipt unext
  | UAt unext
  | URet uret

record ClientConn =
  ccClientId :: string
  ccKeepAlive :: "16 word"
  persist :: MemoryStore
  clastOp :: int
  outq :: "cjob chan"
  Incoming :: "publish chan"
  doneClosed :: bool
  pubackClosed :: bool
  connackClosed :: bool
  subackClosed :: bool
  csockClosed :: bool
  cwire :: "publish message list"
  crecv :: "publish message list"
  cgot :: "publish list"
  crClosed :: "receipt \<Rightarrow> bool"
  cnreceipts :: nat
  cinpos :: cinpos
  coutpos :: coutpos
  users :: "upos list"
  keepalives :: "kpos list"

text \<open>A new connection, for an application with \<open>n\<close> goroutines; \<open>cid\<close> and \<open>ka\<close> are what it sets
  the exported fields to before it connects.\<close>

definition NewClientConn :: "nat \<Rightarrow> string \<Rightarrow> 16 word \<Rightarrow> nat \<Rightarrow> ClientConn" where
  "NewClientConn queueLength cid ka n = \<lparr>ccClientId = cid, ccKeepAlive = ka,
     persist = MemOpen NewMemoryStore, clastOp = 0, outq = make_chan queueLength,
     Incoming = make_chan queueLength, doneClosed = False, pubackClosed = False,
     connackClosed = False, subackClosed = False, csockClosed = False, cwire = [], crecv = [],
     cgot = [], crClosed = (\<lambda>_. False), cnreceipts = 0, cinpos = CLoop, coutpos = COutLoop,
     users = replicate n UIdle, keepalives = []\<rparr>"

subsection \<open>The methods\<close>

definition at_user :: "nat \<Rightarrow> upos \<Rightarrow> ClientConn \<Rightarrow> ClientConn" where
  "at_user i p c = c\<lparr>users := (users c)[i := p]\<rparr>"

definition cc_request :: "string \<Rightarrow> string \<Rightarrow> string \<Rightarrow> 16 word \<Rightarrow> connect" where
  "cc_request cid user pass ka = \<lparr>ProtocolName = ''MQIsdp'', ProtocolVersion = 3, ClientId = cid,
     CleanSession = True, KeepAliveTimer = ka, WillFlag = False, UsernameFlag = user \<noteq> '''',
     PasswordFlag = user \<noteq> '''', Username = user, Password = (if user \<noteq> '''' then pass else '''')\<rparr>"

text \<open>The seed of \<^verbatim>\<open>clientIdRand\<close>: the nanoseconds of the clock and four random bytes.\<close>

definition client_seed :: "nat \<Rightarrow> 8 word \<Rightarrow> 8 word \<Rightarrow> 8 word \<Rightarrow> 8 word \<Rightarrow> 64 word" where
  "client_seed ns b0 b1 b2 b3 =
     or (push_bit 32 (word_of_nat ns))
       (or (push_bit 24 (ucast b0)) (or (push_bit 16 (ucast b1)) (or (push_bit 8 (ucast b2)) (ucast b3))))"

text \<open>\<^verbatim>\<open>Connect\<close>; \<open>rnd\<close> is what \<^verbatim>\<open>clientIdRand.Int63\<close> returns.\<close>

definition cc_Connect :: "nat \<Rightarrow> string \<Rightarrow> string \<Rightarrow> nat \<Rightarrow> ClientConn \<Rightarrow> ClientConn" where
  "cc_Connect rnd user pass i c =
     (let cid = (if ccClientId c = '''' then itoa rnd else ccClientId c);
          c1 = c\<lparr>ccClientId := cid\<rparr>;
          c2 = (if ccKeepAlive c1 > 0 then c1\<lparr>keepalives := keepalives c1 @ [KLoop]\<rparr> else c1)
      in at_user i (UOut (Connect (cc_request cid user pass (ccKeepAlive c2))) True NConnack) c2)"

definition cc_Disconnect :: "nat \<Rightarrow> ClientConn \<Rightarrow> ClientConn" where
  "cc_Disconnect i = at_user i (UOut Disconnect True NDone)"

definition cc_Subscribe :: "topicqos list \<Rightarrow> nat \<Rightarrow> ClientConn \<Rightarrow> ClientConn" where
  "cc_Subscribe topics i =
     at_user i (UOut (Subscribe \<lparr>DupFlag = False, QosLevel = QosAtLeastOnce, Retain = False\<rparr> 0 topics)
       True NSuback)"

definition cc_Unsubscribe :: "16 word \<Rightarrow> string list \<Rightarrow> nat \<Rightarrow> ClientConn \<Rightarrow> ClientConn" where
  "cc_Unsubscribe mid topics i = at_user i (UOut (Unsubscribe mid topics) False (NRet RUnsubscribe))"

definition cc_Publish :: "publish \<Rightarrow> nat \<Rightarrow> ClientConn \<Rightarrow> ClientConn" where
  "cc_Publish m i =
     at_user i (UOut (Publish m) False
       (case QosLevel (Header m) of
          QosAtMostOnce \<Rightarrow> NRet RPublish
        | QosAtLeastOnce \<Rightarrow> NPuback
        | QosExactlyOnce \<Rightarrow> NQos))"

datatype ccall =
    CallConnect nat string string
  | CallDisconnect
  | CallSubscribe "topicqos list"
  | CallUnsubscribe "16 word" "string list"
  | CallPublish publish

fun cc_call :: "ccall \<Rightarrow> nat \<Rightarrow> ClientConn \<Rightarrow> ClientConn" where
  "cc_call (CallConnect rnd user pass) i c = cc_Connect rnd user pass i c"
| "cc_call CallDisconnect i c = cc_Disconnect i c"
| "cc_call (CallSubscribe ts) i c = cc_Subscribe ts i c"
| "cc_call (CallUnsubscribe mid ts) i c = cc_Unsubscribe mid ts i c"
| "cc_call (CallPublish m) i c = cc_Publish m i c"

text \<open>The send of a method, \<^verbatim>\<open>this.out <- job{m}\<close>, and \<^verbatim>\<open>sync\<close>, which makes a receipt first.\<close>

definition cc_send :: "publish message \<Rightarrow> receipt option \<Rightarrow> ClientConn \<Rightarrow> ClientConn res" where
  "cc_send m r c = map_res (\<lambda>ch. c\<lparr>outq := ch\<rparr>) (chan_send \<lparr>cjm = m, cjr = r\<rparr> (outq c))"

definition cc_sync :: "publish message \<Rightarrow> nat \<Rightarrow> unext \<Rightarrow> ClientConn \<Rightarrow> ClientConn res" where
  "cc_sync m i n c =
     bindG (cc_send m (Some (cnreceipts c)) c)
       (\<lambda>c1. Ret (at_user i (UReceipt (cnreceipts c) n) (c1\<lparr>cnreceipts := Suc (cnreceipts c)\<rparr>)))"

text \<open>What a method waits for after its send. A receive from a closed channel gives \<^verbatim>\<open>nil\<close> at once,
  and \<^verbatim>\<open>Connect\<close> reads a field of it.\<close>

fun cc_await :: "unext \<Rightarrow> nat \<Rightarrow> ClientConn \<Rightarrow> ClientConn res" where
  "cc_await (NRet v) i c = Ret (at_user i (URet v) c)"
| "cc_await NConnack i c =
     (if connackClosed c then Panic NilDeref c
      else case cinpos c of
             COffer (ConnAck rc) \<Rightarrow> Ret (at_user i (URet (RConnect rc)) (c\<lparr>cinpos := CLoop\<rparr>))
           | _ \<Rightarrow> Block c)"
| "cc_await NDone i c = (if doneClosed c then Ret (at_user i (URet RDisconnect) c) else Block c)"
| "cc_await NSuback i c =
     (if subackClosed c then Ret (at_user i (URet (RSubscribe None)) c)
      else case cinpos c of
             COffer (SubAck mid qs) \<Rightarrow>
               Ret (at_user i (URet (RSubscribe (Some (mid, qs)))) (c\<lparr>cinpos := CLoop\<rparr>))
           | _ \<Rightarrow> Block c)"
| "cc_await NPuback i c =
     (if pubackClosed c then Ret (at_user i (URet RPublish) c)
      else case cinpos c of
             COffer (PubAck h mid) \<Rightarrow> Ret (at_user i (URet RPublish) (c\<lparr>cinpos := CLoop\<rparr>))
           | _ \<Rightarrow> Block c)"
| "cc_await NQos i c = Panic (Raised ''not supported QoS'') c"

definition cc_user :: "nat \<Rightarrow> ClientConn \<Rightarrow> ClientConn res" where
  "cc_user i c =
     (case users c ! i of
        UOut m True n \<Rightarrow> cc_sync m i n c
      | UOut m False n \<Rightarrow> bindG (cc_send m None c) (\<lambda>c1. Ret (at_user i (UAt n) c1))
      | UReceipt r n \<Rightarrow> if crClosed c r then Ret (at_user i (UAt n) c) else Block c
      | UAt n \<Rightarrow> cc_await n i c
      | _ \<Rightarrow> Ret c)"

text \<open>The application reads \<^verbatim>\<open>Incoming\<close>.\<close>

definition cc_read :: "ClientConn \<Rightarrow> ClientConn res" where
  "cc_read c =
     (case chan_recv (Incoming c) of
        None \<Rightarrow> Block c
      | Some (None, ch) \<Rightarrow> Ret c
      | Some (Some m, ch) \<Rightarrow> Ret (c\<lparr>Incoming := ch, cgot := cgot c @ [m]\<rparr>))"

subsection \<open>The goroutines\<close>

definition cc_refreshOpTime :: "int \<Rightarrow> ClientConn \<Rightarrow> ClientConn" where
  "cc_refreshOpTime now c = c\<lparr>clastOp := now\<rparr>"

text \<open>The deferred function of \<^verbatim>\<open>inboundLoop\<close>.\<close>

definition cc_in_exit :: "ClientConn \<Rightarrow> ClientConn res" where
  "cc_in_exit =
     seqG
      [\<lambda>c. map_res (\<lambda>ch. c\<lparr>outq := ch\<rparr>) (chan_close (outq c)),
       \<lambda>c. map_res (\<lambda>ch. c\<lparr>Incoming := ch\<rparr>) (chan_close (Incoming c)),
       \<lambda>c. if connackClosed c then Panic CloseOfClosed c else Ret (c\<lparr>connackClosed := True\<rparr>),
       \<lambda>c. if subackClosed c then Panic CloseOfClosed c else Ret (c\<lparr>subackClosed := True\<rparr>),
       \<lambda>c. if pubackClosed c then Panic CloseOfClosed c else Ret (c\<lparr>pubackClosed := True\<rparr>),
       \<lambda>c. Ret (c\<lparr>cinpos := CDone\<rparr>)]"

text \<open>One round of \<^verbatim>\<open>inboundLoop\<close>, up to the send of a message it hands on; \<open>None\<close> is a decoding
  error, at the end of the stream or not.\<close>

definition cc_in_step :: "int \<Rightarrow> publish message option \<Rightarrow> ClientConn \<Rightarrow> ClientConn res" where
  "cc_in_step now d c =
     (case d of
        None \<Rightarrow> cc_in_exit c
      | Some m \<Rightarrow>
          let c1 = cc_refreshOpTime now (c\<lparr>crecv := crecv c @ [m]\<rparr>) in
          case m of
            Publish p \<Rightarrow> Ret (c1\<lparr>cinpos := COffer m\<rparr>)
          | PubAck h mid \<Rightarrow> Ret (c1\<lparr>cinpos := COffer m\<rparr>)
          | ConnAck rc \<Rightarrow> Ret (c1\<lparr>cinpos := COffer m\<rparr>)
          | SubAck mid qs \<Rightarrow> Ret (c1\<lparr>cinpos := COffer m\<rparr>)
          | Disconnect \<Rightarrow> cc_in_exit c1
          | PingResp \<Rightarrow> Ret c1
          | _ \<Rightarrow> Ret c1)"

text \<open>The send \<^verbatim>\<open>this.Incoming <- m\<close>.\<close>

definition cc_push :: "ClientConn \<Rightarrow> ClientConn res" where
  "cc_push c =
     (case cinpos c of
        COffer (Publish p) \<Rightarrow>
          bindG (map_res (\<lambda>ch. c\<lparr>Incoming := ch\<rparr>) (chan_send p (Incoming c)))
            (\<lambda>c1. Ret (c1\<lparr>cinpos := CLoop\<rparr>))
      | _ \<Rightarrow> Ret c)"

definition cc_out_exit :: "ClientConn \<Rightarrow> ClientConn res" where
  "cc_out_exit c =
     (if doneClosed c then Panic CloseOfClosed (c\<lparr>csockClosed := True\<rparr>)
      else Ret (c\<lparr>csockClosed := True, doneClosed := True, coutpos := COutDone\<rparr>))"

definition cc_close_receipt :: "receipt option \<Rightarrow> ClientConn \<Rightarrow> ClientConn" where
  "cc_close_receipt r c =
     (case r of None \<Rightarrow> c | Some k \<Rightarrow> c\<lparr>crClosed := (crClosed c)(k := True)\<rparr>)"

text \<open>One round of \<^verbatim>\<open>outboundLoop\<close>; \<open>ok\<close>: the write succeeds.\<close>

definition cc_out_step :: "int \<Rightarrow> bool \<Rightarrow> ClientConn \<Rightarrow> ClientConn res" where
  "cc_out_step now ok c =
     (case chan_recv (outq c) of
        None \<Rightarrow> Block c
      | Some (None, ch) \<Rightarrow> cc_out_exit c
      | Some (Some j, ch) \<Rightarrow>
          let c1 = c\<lparr>outq := ch, cwire := cwire c @ (if ok then [cjm j] else [])\<rparr>;
              c2 = cc_close_receipt (cjr j) c1
          in if \<not> ok then cc_out_exit c2
             else let c3 = cc_refreshOpTime now c2
                  in if cjm j = Disconnect then cc_out_exit c3 else Ret c3)"

text \<open>\<^verbatim>\<open>runKeepAlive\<close> sleeps this long, then takes whichever of the tick and \<^verbatim>\<open>doneChan\<close> is ready
  (either, when both are).\<close>

definition keepalive_sleep :: "int \<Rightarrow> int \<Rightarrow> 16 word \<Rightarrow> int" where
  "keepalive_sleep now lastOp ka =
     (let interval = uint ka; idle = now - lastOp in if idle < interval then interval else idle)"

definition cc_tick :: "nat \<Rightarrow> ClientConn \<Rightarrow> ClientConn" where
  "cc_tick k c = c\<lparr>keepalives := (keepalives c)[k := KPing]\<rparr>"

definition cc_ping :: "nat \<Rightarrow> ClientConn \<Rightarrow> ClientConn res" where
  "cc_ping k c =
     bindG (cc_send PingReq None c) (\<lambda>c1. Ret (c1\<lparr>keepalives := (keepalives c1)[k := KLoop]\<rparr>))"

definition cc_kdone :: "nat \<Rightarrow> ClientConn \<Rightarrow> ClientConn" where
  "cc_kdone k c = c\<lparr>keepalives := (keepalives c)[k := KGone]\<rparr>"

lemmas cc_call_defs = cc_Connect_def cc_Disconnect_def cc_Subscribe_def cc_Unsubscribe_def cc_Publish_def

subsection \<open>All of them together\<close>

definition between_calls :: "upos \<Rightarrow> bool" where
  "between_calls p \<longleftrightarrow> (case p of UIdle \<Rightarrow> True | URet _ \<Rightarrow> True | _ \<Rightarrow> False)"

inductive cstep :: "ClientConn \<Rightarrow> ClientConn res \<Rightarrow> bool" where
  c_call: "i < length (users c) \<Longrightarrow> between_calls (users c ! i) \<Longrightarrow> cstep c (Ret (cc_call op i c))"
| c_user: "i < length (users c) \<Longrightarrow> \<not> between_calls (users c ! i) \<Longrightarrow> cstep c (cc_user i c)"
| c_read: "cstep c (cc_read c)"
| c_in: "cinpos c = CLoop \<Longrightarrow> csockClosed c \<longrightarrow> d = None \<Longrightarrow> cstep c (cc_in_step now d c)"
| c_push: "cinpos c = COffer (Publish p) \<Longrightarrow> cstep c (cc_push c)"
| c_out: "coutpos c = COutLoop \<Longrightarrow> cstep c (cc_out_step now ok c)"
| c_tick: "k < length (keepalives c) \<Longrightarrow> keepalives c ! k = KLoop \<Longrightarrow> cstep c (Ret (cc_tick k c))"
| c_ping: "k < length (keepalives c) \<Longrightarrow> keepalives c ! k = KPing \<Longrightarrow> cstep c (cc_ping k c)"
| c_kdone: "k < length (keepalives c) \<Longrightarrow> keepalives c ! k = KLoop \<Longrightarrow> doneClosed c \<Longrightarrow>
    cstep c (Ret (cc_kdone k c))"

inductive creachable :: "ClientConn \<Rightarrow> ClientConn \<Rightarrow> bool" for c0 where
  cstart: "creachable c0 c0"
| cmore: "creachable c0 c \<Longrightarrow> cstep c (Ret c') \<Longrightarrow> creachable c0 c'"

text \<open>The states a client can be in.\<close>

definition client_state :: "ClientConn \<Rightarrow> bool" where
  "client_state c \<longleftrightarrow> (\<exists>q cid ka n. creachable (NewClientConn q cid ka n) c)"

subsection \<open>The seed of the client identifiers\<close>

lemma client_seed_parts:
  "ucast (client_seed ns b0 b1 b2 b3) = b3" "ucast (drop_bit 8 (client_seed ns b0 b1 b2 b3)) = b2"
  "ucast (drop_bit 16 (client_seed ns b0 b1 b2 b3)) = b1" "ucast (drop_bit 24 (client_seed ns b0 b1 b2 b3)) = b0"
  by (rule bit_word_eqI, auto simp: client_seed_def bit_simps dest: bit_imp_le_length)+

lemma client_seed_clock:
  "drop_bit 32 (client_seed ns b0 b1 b2 b3) = take_bit 32 (word_of_nat ns)"
  by (rule bit_word_eqI) (auto simp: client_seed_def bit_simps dest: bit_imp_le_length)

text \<open>Different clocks or different bytes give different seeds.\<close>

lemma client_seed_inj:
  assumes "client_seed ns b0 b1 b2 b3 = client_seed ns' c0 c1 c2 c3" "ns < 10 ^ 9" "ns' < 10 ^ 9"
  shows "ns = ns' \<and> b0 = c0 \<and> b1 = c1 \<and> b2 = c2 \<and> b3 = c3"
proof -
  have *: "unat (take_bit 32 (word_of_nat n :: 64 word)) = n" if "n < 10 ^ 9" for n
    using that by (simp add: unsigned_take_bit_eq unsigned_of_nat take_bit_nat_eq_self)
  have "ns = ns'" using client_seed_clock [of ns b0 b1 b2 b3] client_seed_clock [of ns' c0 c1 c2 c3] assms * by metis
  then show ?thesis using client_seed_parts [of ns b0 b1 b2 b3] client_seed_parts [of ns' c0 c1 c2 c3] assms(1) by metis
qed

subsection \<open>Invariants\<close>

text \<open>Channels: everything \<^verbatim>\<open>inboundLoop\<close> closes is closed exactly when it has ended, and the
  same for \<^verbatim>\<open>outboundLoop\<close>.\<close>

definition chans_ok :: "ClientConn \<Rightarrow> bool" where
  "chans_ok c \<longleftrightarrow> chan_wf (outq c) \<and> chan_wf (Incoming c)
     \<and> (closed (outq c) \<longleftrightarrow> cinpos c = CDone) \<and> (closed (Incoming c) \<longleftrightarrow> cinpos c = CDone)
     \<and> (connackClosed c \<longleftrightarrow> cinpos c = CDone) \<and> (subackClosed c \<longleftrightarrow> cinpos c = CDone)
     \<and> (pubackClosed c \<longleftrightarrow> cinpos c = CDone)
     \<and> (doneClosed c \<longleftrightarrow> coutpos c = COutDone) \<and> (csockClosed c \<longleftrightarrow> coutpos c = COutDone)"

text \<open>Receipts: those in the queue are open and all different; a caller at a receipt waits for one
  that is in the queue or closed.\<close>

definition queued_receipts :: "ClientConn \<Rightarrow> receipt list" where
  "queued_receipts c = concat (map (\<lambda>j. case cjr j of None \<Rightarrow> [] | Some r \<Rightarrow> [r]) (buf (outq c)))"

definition receipts_ok :: "ClientConn \<Rightarrow> bool" where
  "receipts_ok c \<longleftrightarrow> distinct (queued_receipts c)
     \<and> (\<forall>r \<in> set (queued_receipts c). r < cnreceipts c \<and> \<not> crClosed c r)
     \<and> (\<forall>r. crClosed c r \<longrightarrow> r < cnreceipts c)
     \<and> (\<forall>r n. UReceipt r n \<in> set (users c) \<longrightarrow> crClosed c r \<or> r \<in> set (queued_receipts c))"

text \<open>Published messages: read by the application, in \<^verbatim>\<open>Incoming\<close>, at the send.\<close>

fun pub_of :: "'p message \<Rightarrow> 'p list" where
  "pub_of (Publish p) = [p]"
| "pub_of _ = []"

definition offered :: "ClientConn \<Rightarrow> publish list" where
  "offered c = (case cinpos c of COffer m \<Rightarrow> pub_of m | _ \<Rightarrow> [])"

definition stream_ok :: "ClientConn \<Rightarrow> bool" where
  "stream_ok c \<longleftrightarrow> concat (map pub_of (crecv c)) = cgot c @ buf (Incoming c) @ offered c"

lemma at_user_simps [simp]:
  "outq (at_user i p c) = outq c" "Incoming (at_user i p c) = Incoming c" "cinpos (at_user i p c) = cinpos c"
  "coutpos (at_user i p c) = coutpos c" "connackClosed (at_user i p c) = connackClosed c"
  "subackClosed (at_user i p c) = subackClosed c" "pubackClosed (at_user i p c) = pubackClosed c"
  "doneClosed (at_user i p c) = doneClosed c" "csockClosed (at_user i p c) = csockClosed c"
  "crecv (at_user i p c) = crecv c" "cgot (at_user i p c) = cgot c" "crClosed (at_user i p c) = crClosed c"
  "cnreceipts (at_user i p c) = cnreceipts c" "users (at_user i p c) = (users c)[i := p]"
  "cwire (at_user i p c) = cwire c" "keepalives (at_user i p c) = keepalives c"
  "queued_receipts (at_user i p c) = queued_receipts c" "offered (at_user i p c) = offered c"
  by (simp_all add: at_user_def queued_receipts_def offered_def)

lemma cc_send_cases:
  "cc_send m r c = (if closed (outq c) then Panic SendOnClosed c
     else if length (buf (outq c)) < ccap (outq c)
     then Ret (c\<lparr>outq := (outq c)\<lparr>buf := buf (outq c) @ [\<lparr>cjm = m, cjr = r\<rparr>]\<rparr>\<rparr>) else Block c)"
  by (simp add: cc_send_def chan_send_def)

lemma cc_in_exit_Ret:
  assumes "chans_ok c" "cinpos c \<noteq> CDone"
  shows "cc_in_exit c = Ret (c\<lparr>outq := (outq c)\<lparr>closed := True\<rparr>, Incoming := (Incoming c)\<lparr>closed := True\<rparr>,
     connackClosed := True, subackClosed := True, pubackClosed := True, cinpos := CDone\<rparr>)"
  using assms by (simp add: cc_in_exit_def chans_ok_def chan_close_def)

lemma cc_out_exit_Ret:
  assumes "chans_ok c" "coutpos c = COutLoop"
  shows "cc_out_exit c = Ret (c\<lparr>csockClosed := True, doneClosed := True, coutpos := COutDone\<rparr>)"
  using assms by (simp add: cc_out_exit_def chans_ok_def)

text \<open>What a round of each loop does, given the channel invariant.\<close>

lemma chans_ok_idle [simp]:
  "chans_ok (c\<lparr>clastOp := t\<rparr>) = chans_ok c" "chans_ok (c\<lparr>crecv := ms\<rparr>) = chans_ok c"
  "chans_ok (c\<lparr>cwire := ms\<rparr>) = chans_ok c" "chans_ok (c\<lparr>crClosed := f\<rparr>) = chans_ok c"
  "chans_ok (c\<lparr>cgot := g\<rparr>) = chans_ok c" "chans_ok (c\<lparr>cnreceipts := n\<rparr>) = chans_ok c"
  "chans_ok (c\<lparr>users := us\<rparr>) = chans_ok c" "chans_ok (c\<lparr>keepalives := ks\<rparr>) = chans_ok c"
  "chans_ok (c\<lparr>ccClientId := cid\<rparr>) = chans_ok c" "chans_ok (at_user i p c) = chans_ok c"
  by (simp_all add: chans_ok_def)

lemma chans_ok_dequeue: "chans_ok c \<Longrightarrow> buf (outq c) = j # js \<Longrightarrow> chans_ok (c\<lparr>outq := (outq c)\<lparr>buf := js\<rparr>\<rparr>)"
  by (simp add: chans_ok_def chan_wf_def)

lemma cc_out_step_Ret:
  assumes "chans_ok c" "coutpos c = COutLoop" "buf (outq c) = j # js"
  shows "cc_out_step now ok c =
    (let c1 = cc_close_receipt (cjr j) (c\<lparr>outq := (outq c)\<lparr>buf := js\<rparr>, cwire := cwire c @ (if ok then [cjm j] else [])\<rparr>);
         c2 = (if ok then c1\<lparr>clastOp := now\<rparr> else c1)
     in Ret (if ok \<and> cjm j \<noteq> Disconnect then c2
             else c2\<lparr>csockClosed := True, doneClosed := True, coutpos := COutDone\<rparr>))"
proof -
  have "chans_ok (cc_close_receipt (cjr j) (c\<lparr>outq := (outq c)\<lparr>buf := js\<rparr>, cwire := w\<rparr>))" for w
    using chans_ok_dequeue [OF assms(1,3)] by (simp add: cc_close_receipt_def split: option.split)
  moreover have "coutpos (cc_close_receipt (cjr j) (c\<lparr>outq := (outq c)\<lparr>buf := js\<rparr>, cwire := w\<rparr>)) = COutLoop" for w
    using assms(2) by (simp add: cc_close_receipt_def split: option.split)
  moreover have "c\<lparr>outq := (outq c)\<lparr>buf := js\<rparr>\<rparr> = c\<lparr>outq := (outq c)\<lparr>buf := js\<rparr>, cwire := cwire c\<rparr>" by simp
  ultimately show ?thesis
    using assms(3) by (simp only: cc_out_step_def chan_recv_def Let_def list.case option.case prod.case
        cc_out_exit_Ret chans_ok_idle) (simp add: cc_refreshOpTime_def cc_out_exit_Ret)
qed

text \<open>Which steps a client can make, by their effect. \<open>stay c us\<close>: the places \<open>us\<close> of the callers
  differ from the current ones only where a caller moved to no receipt, and from a receipt only when
  that is closed.\<close>

definition at_receipt :: "upos \<Rightarrow> bool" where
  "at_receipt p \<longleftrightarrow> (\<exists>r n. p = UReceipt r n)"

definition stay :: "ClientConn \<Rightarrow> upos list \<Rightarrow> bool" where
  "stay c us \<longleftrightarrow> length us = length (users c)
     \<and> (\<forall>i < length us. us ! i \<noteq> users c ! i \<longrightarrow>
          \<not> at_receipt (us ! i) \<and> (\<forall>r n. users c ! i = UReceipt r n \<longrightarrow> crClosed c r))"

lemma stay_refl [simp]: "stay c (users c)"
  by (simp add: stay_def)

lemma stay_at:
  "\<not> at_receipt p \<Longrightarrow> (\<And>r n. users c ! i = UReceipt r n \<Longrightarrow> crClosed c r) \<Longrightarrow> stay c ((users c)[i := p])"
  unfolding stay_def by (metis length_list_update nth_list_update_eq nth_list_update_neq)

lemma stay_receipts: "stay c us \<Longrightarrow> UReceipt r n \<in> set us \<Longrightarrow> UReceipt r n \<in> set (users c)"
  by (fastforce simp: stay_def at_receipt_def in_set_conv_nth)

lemma stay_waits:
  "stay c us \<Longrightarrow> users c ! i = UReceipt r n \<Longrightarrow> \<not> crClosed c r \<Longrightarrow> i < length (users c) \<Longrightarrow> us ! i = UReceipt r n"
  by (auto simp: stay_def)

inductive ceffect :: "ClientConn \<Rightarrow> ClientConn \<Rightarrow> bool" for c where
  e_move: "stay c us \<Longrightarrow> ceffect c (c\<lparr>ccClientId := cid, keepalives := ks, users := us\<rparr>)"
| e_ack: "stay c us \<Longrightarrow> cinpos c = COffer m \<Longrightarrow> pub_of m = [] \<Longrightarrow> ceffect c (c\<lparr>cinpos := CLoop, users := us\<rparr>)"
| e_send: "stay c us \<Longrightarrow> \<not> closed (outq c) \<Longrightarrow> length (buf (outq c)) < ccap (outq c) \<Longrightarrow> cjr j = None \<Longrightarrow>
    ceffect c (c\<lparr>outq := (outq c)\<lparr>buf := buf (outq c) @ [j]\<rparr>, users := us, keepalives := ks\<rparr>)"
| e_sync: "\<not> closed (outq c) \<Longrightarrow> length (buf (outq c)) < ccap (outq c) \<Longrightarrow> cjr j = Some (cnreceipts c) \<Longrightarrow>
    \<not> at_receipt (users c ! i) \<Longrightarrow>
    ceffect c (c\<lparr>outq := (outq c)\<lparr>buf := buf (outq c) @ [j]\<rparr>, cnreceipts := Suc (cnreceipts c),
      users := (users c)[i := UReceipt (cnreceipts c) n]\<rparr>)"
| e_read: "buf (Incoming c) = m # ms \<Longrightarrow> ceffect c (c\<lparr>Incoming := (Incoming c)\<lparr>buf := ms\<rparr>, cgot := cgot c @ [m]\<rparr>)"
| e_recv: "cinpos c = CLoop \<Longrightarrow> pos = COffer m \<or> (pos = CLoop \<and> pub_of m = []) \<Longrightarrow>
    ceffect c (c\<lparr>crecv := crecv c @ [m], clastOp := now, cinpos := pos\<rparr>)"
| e_in_exit: "cinpos c = CLoop \<Longrightarrow> concat (map pub_of ms) = [] \<Longrightarrow>
    ceffect c (c\<lparr>crecv := crecv c @ ms, clastOp := now, outq := (outq c)\<lparr>closed := True\<rparr>,
      Incoming := (Incoming c)\<lparr>closed := True\<rparr>, connackClosed := True, subackClosed := True,
      pubackClosed := True, cinpos := CDone\<rparr>)"
| e_push: "cinpos c = COffer (Publish p) \<Longrightarrow> length (buf (Incoming c)) < ccap (Incoming c) \<Longrightarrow>
    ceffect c (c\<lparr>Incoming := (Incoming c)\<lparr>buf := buf (Incoming c) @ [p]\<rparr>, cinpos := CLoop\<rparr>)"
| e_out: "coutpos c = COutLoop \<Longrightarrow> buf (outq c) = j # js \<Longrightarrow>
    f = (case cjr j of None \<Rightarrow> crClosed c | Some r \<Rightarrow> (crClosed c)(r := True)) \<Longrightarrow>
    ceffect c (c\<lparr>outq := (outq c)\<lparr>buf := js\<rparr>, cwire := ms, crClosed := f, clastOp := now\<rparr>)"
| e_out_last: "coutpos c = COutLoop \<Longrightarrow> buf (outq c) = j # js \<Longrightarrow>
    f = (case cjr j of None \<Rightarrow> crClosed c | Some r \<Rightarrow> (crClosed c)(r := True)) \<Longrightarrow>
    ceffect c (c\<lparr>outq := (outq c)\<lparr>buf := js\<rparr>, cwire := ms, crClosed := f, clastOp := now,
      csockClosed := True, doneClosed := True, coutpos := COutDone\<rparr>)"
| e_out_exit: "coutpos c = COutLoop \<Longrightarrow> ceffect c (c\<lparr>csockClosed := True, doneClosed := True, coutpos := COutDone\<rparr>)"

lemma e_users: "stay c us \<Longrightarrow> ceffect c (c\<lparr>users := us\<rparr>)"
  using e_move [where ks = "keepalives c" and cid = "ccClientId c"] by fastforce

lemma e_recv_loop:
  "cinpos c = CLoop \<Longrightarrow> pub_of m = [] \<Longrightarrow> ceffect c (c\<lparr>crecv := crecv c @ [m], clastOp := now\<rparr>)"
proof -
  assume "cinpos c = CLoop" "pub_of m = []"
  then have "ceffect c (c\<lparr>crecv := crecv c @ [m], clastOp := now, cinpos := cinpos c\<rparr>)"
    by (intro e_recv) simp_all
  moreover have "c\<lparr>crecv := crecv c @ [m], clastOp := now, cinpos := cinpos c\<rparr> = c\<lparr>crecv := crecv c @ [m], clastOp := now\<rparr>"
    by simp
  ultimately show ?thesis by (simp only:)
qed

lemma e_same: "ceffect c c"
  using e_users [of c "users c"] by simp

lemma cc_await_effect:
  assumes "cc_await n i c = Ret c'" "\<not> at_receipt (users c ! i)"
  shows "ceffect c c'"
proof -
  have st: "stay c ((users c)[i := URet v])" for v
    using assms(2) by (intro stay_at) (auto simp: at_receipt_def)
  show ?thesis
    using assms(1) e_users [OF st] e_ack [OF st]
    by (cases n) (auto simp: at_user_def split: if_splits cinpos.splits message.splits)
qed

lemma cc_user_effect:
  assumes "cc_user i c = Ret c'"
  shows "ceffect c c'"
proof (cases "users c ! i")
  case (UOut m b n)
  then have no: "\<not> at_receipt (users c ! i)" by (simp add: at_receipt_def)
  have st: "stay c ((users c)[i := UAt n])"
    using no by (intro stay_at) (auto simp: at_receipt_def)
  show ?thesis
  proof (cases b)
    case True
    from assms UOut True
      e_sync [where j = "\<lparr>cjm = m, cjr = Some (cnreceipts c)\<rparr>" and n = n, OF _ _ _ no]
    show ?thesis by (auto simp: cc_user_def cc_sync_def cc_send_cases at_user_def split: if_splits)
  next
    case False
    from assms UOut False e_send [OF st, where j = "\<lparr>cjm = m, cjr = None\<rparr>" and ks = "keepalives c"]
    show ?thesis by (auto simp: cc_user_def cc_send_cases at_user_def split: if_splits)
  qed
next
  case (UReceipt r n)
  then have "crClosed c r \<Longrightarrow> stay c ((users c)[i := UAt n])"
    by (intro stay_at) (auto simp: at_receipt_def)
  with assms UReceipt show ?thesis by (auto simp: cc_user_def at_user_def e_users split: if_splits)
next
  case (UAt n)
  with assms cc_await_effect show ?thesis by (auto simp: cc_user_def at_receipt_def)
qed (use assms e_same in \<open>auto simp: cc_user_def\<close>)

lemma cc_in_effect:
  assumes "chans_ok c" "cinpos c = CLoop" "cc_in_step now d c = Ret c'"
  shows "ceffect c c'"
proof (cases d)
  case None
  with assms e_in_exit [OF assms(2), where ms = "[]" and now = "clastOp c"] show ?thesis
    by (simp add: cc_in_step_def cc_in_exit_Ret)
next
  case (Some m)
  let ?c = "c\<lparr>crecv := crecv c @ [m], clastOp := now\<rparr>"
  have "cc_in_exit ?c = Ret (?c\<lparr>outq := (outq c)\<lparr>closed := True\<rparr>, Incoming := (Incoming c)\<lparr>closed := True\<rparr>,
     connackClosed := True, subackClosed := True, pubackClosed := True, cinpos := CDone\<rparr>)"
    using cc_in_exit_Ret [of ?c] assms by simp
  with Some assms e_in_exit [OF assms(2), where ms = "[m]" and now = now] e_recv [OF assms(2), where m = m and now = now]
    e_recv_loop [OF assms(2), of m now] show ?thesis
    by (cases m) (auto simp: cc_in_step_def cc_refreshOpTime_def)
qed

lemma cc_out_effect:
  assumes "chans_ok c" "coutpos c = COutLoop" "cc_out_step now ok c = Ret c'"
  shows "ceffect c c'"
proof (cases "buf (outq c)")
  case Nil
  with assms e_out_exit [of c] show ?thesis
    by (auto simp: cc_out_step_def chan_recv_def cc_out_exit_Ret split: if_splits)
next
  case (Cons j js)
  note e = e_out [OF assms(2) Cons refl] e_out_last [OF assms(2) Cons refl]
  show ?thesis
    using assms(3) e [where ms = "cwire c @ [cjm j]" and now = now] e [where ms = "cwire c" and now = "clastOp c"]
    unfolding cc_out_step_Ret [OF assms(1,2) Cons]
    by (cases "cjr j"; cases ok) (auto simp: Let_def cc_close_receipt_def)
qed

lemma cstep_effect:
  assumes "cstep c (Ret c')" "chans_ok c"
  shows "ceffect c c'"
  using assms(1)
proof cases
  case (c_call i op)
  then have "stay c ((users c)[i := UOut m b n])" for m b n
    by (intro stay_at) (auto simp: at_receipt_def between_calls_def)
  from e_move [OF this] e_move [OF this, where ks = "keepalives c"] e_users [OF this] c_call show ?thesis
    by (cases op) (auto simp: cc_call_defs Let_def at_user_def)
next
  case (c_user i)
  then show ?thesis by (metis cc_user_effect)
next
  case c_read
  then show ?thesis
    using e_same [of c] e_read [of c] by (auto simp: cc_read_def chan_recv_def split: list.splits if_splits)
next
  case (c_in d now)
  with assms(2) show ?thesis by (metis cc_in_effect)
next
  case (c_push p)
  with e_push [of c p] show ?thesis by (auto simp: cc_push_def chan_send_def split: if_splits)
next
  case (c_out now ok)
  with assms(2) show ?thesis by (metis cc_out_effect)
next
  case (c_ping k)
  with e_send [OF stay_refl, where j = "\<lparr>cjm = PingReq, cjr = None\<rparr>" and ks = "(keepalives c)[k := KLoop]"] show ?thesis
    by (auto simp: cc_ping_def cc_send_cases split: if_splits)
next
  case (c_tick k)
  with e_move [OF stay_refl [of c], where cid = "ccClientId c"] show ?thesis by (simp add: cc_tick_def)
next
  case (c_kdone k)
  with e_move [OF stay_refl [of c], where cid = "ccClientId c"] show ?thesis by (simp add: cc_kdone_def)
qed

lemma ceffect_chans: "ceffect c c' \<Longrightarrow> chans_ok c \<Longrightarrow> chans_ok c'"
  by (induction rule: ceffect.induct) (auto simp: chans_ok_def chan_wf_def)

lemma ceffect_receipts: "ceffect c c' \<Longrightarrow> receipts_ok c \<Longrightarrow> receipts_ok c'"
proof (induction rule: ceffect.induct)
  case (e_sync j i n)
  have "UReceipt r m \<in> set ((users c)[i := UReceipt (cnreceipts c) n]) \<Longrightarrow>
      UReceipt r m \<in> set (users c) \<or> r = cnreceipts c" for r m
    using set_update_subset_insert by fastforce
  with e_sync show ?case
    by (auto simp: receipts_ok_def queued_receipts_def less_Suc_eq dest: less_imp_neq) blast
next
  case (e_out j js f ms now)
  then show ?case by (cases "cjr j") (auto simp: receipts_ok_def queued_receipts_def)
next
  case (e_out_last j js f ms now)
  then show ?case by (cases "cjr j") (auto simp: receipts_ok_def queued_receipts_def)
qed (auto simp: receipts_ok_def queued_receipts_def, (blast dest: stay_receipts)+)

lemma ceffect_stream: "ceffect c c' \<Longrightarrow> stream_ok c \<Longrightarrow> stream_ok c'"
  by (induction rule: ceffect.induct) (auto simp: stream_ok_def offered_def)

definition cinv :: "ClientConn \<Rightarrow> bool" where
  "cinv c \<longleftrightarrow> chans_ok c \<and> receipts_ok c \<and> stream_ok c"

lemma cinv_step: "cinv c \<Longrightarrow> cstep c (Ret c') \<Longrightarrow> cinv c'"
  unfolding cinv_def using cstep_effect ceffect_chans ceffect_receipts ceffect_stream by blast

lemma cinv_reachable: "creachable c0 c \<Longrightarrow> cinv c0 \<Longrightarrow> cinv c"
  by (induction rule: creachable.induct) (auto intro: cinv_step)

lemma cinv_new: "cinv (NewClientConn q cid ka n)"
  by (auto simp: cinv_def NewClientConn_def chans_ok_def receipts_ok_def stream_ok_def queued_receipts_def
      offered_def make_chan_def chan_wf_def)

lemma client_state_cinv: "client_state c \<Longrightarrow> cinv c"
  unfolding client_state_def using cinv_reachable cinv_new by blast

subsection \<open>Runs as lists of events\<close>

datatype cevent =
    CCall nat ccall
  | CUser nat
  | CRead
  | CIn int "publish message option"
  | CPush
  | COut int bool
  | CTick nat
  | CPing nat
  | CKdone nat

fun cenabled :: "cevent \<Rightarrow> ClientConn \<Rightarrow> bool" where
  "cenabled (CCall i op) c \<longleftrightarrow> i < length (users c) \<and> between_calls (users c ! i)"
| "cenabled (CUser i) c \<longleftrightarrow> i < length (users c) \<and> \<not> between_calls (users c ! i)"
| "cenabled CRead c \<longleftrightarrow> True"
| "cenabled (CIn now d) c \<longleftrightarrow> cinpos c = CLoop \<and> (csockClosed c \<longrightarrow> d = None)"
| "cenabled CPush c \<longleftrightarrow> (case cinpos c of COffer (Publish p) \<Rightarrow> True | _ \<Rightarrow> False)"
| "cenabled (COut now ok) c \<longleftrightarrow> coutpos c = COutLoop"
| "cenabled (CTick k) c \<longleftrightarrow> k < length (keepalives c) \<and> keepalives c ! k = KLoop"
| "cenabled (CPing k) c \<longleftrightarrow> k < length (keepalives c) \<and> keepalives c ! k = KPing"
| "cenabled (CKdone k) c \<longleftrightarrow> k < length (keepalives c) \<and> keepalives c ! k = KLoop \<and> doneClosed c"

fun cstep_event :: "cevent \<Rightarrow> ClientConn \<Rightarrow> ClientConn res" where
  "cstep_event (CCall i op) c = Ret (cc_call op i c)"
| "cstep_event (CUser i) c = cc_user i c"
| "cstep_event CRead c = cc_read c"
| "cstep_event (CIn now d) c = cc_in_step now d c"
| "cstep_event CPush c = cc_push c"
| "cstep_event (COut now ok) c = cc_out_step now ok c"
| "cstep_event (CTick k) c = Ret (cc_tick k c)"
| "cstep_event (CPing k) c = cc_ping k c"
| "cstep_event (CKdone k) c = Ret (cc_kdone k c)"

fun crun :: "cevent list \<Rightarrow> ClientConn \<Rightarrow> ClientConn option" where
  "crun [] c = Some c"
| "crun (ev # evs) c =
     (if cenabled ev c then case cstep_event ev c of Ret c' \<Rightarrow> crun evs c' | _ \<Rightarrow> None else None)"

lemma cstep_cevent: "cenabled ev c \<Longrightarrow> cstep c (cstep_event ev c)"
  by (cases ev) (auto intro: cstep.intros split: cinpos.splits message.splits)

lemma crun_reachable: "crun evs c = Some c' \<Longrightarrow> creachable c0 c \<Longrightarrow> creachable c0 c'"
proof (induction evs arbitrary: c)
  case (Cons ev evs)
  then obtain u where u: "cenabled ev c" "cstep_event ev c = Ret u" "crun evs u = Some c'"
    by (auto split: if_splits res.splits)
  then have "creachable c0 u" using Cons.prems(2) cstep_cevent [of ev c] cmore by metis
  with u(3) show ?case by (rule Cons.IH)
qed simp

definition creaches :: "cevent list \<Rightarrow> ClientConn \<Rightarrow> (ClientConn \<Rightarrow> bool) \<Rightarrow> bool" where
  "creaches evs c P = (case crun evs c of None \<Rightarrow> False | Some c' \<Rightarrow> P c')"

lemma creaches_the: "creaches evs c P \<Longrightarrow> P (the (crun evs c))"
  by (auto simp: creaches_def split: option.splits)

lemma creaches_state:
  "creaches evs (NewClientConn q cid ka n) P \<Longrightarrow> client_state (the (crun evs (NewClientConn q cid ka n)))"
  unfolding client_state_def creaches_def using crun_reachable [OF _ cstart] by (fastforce split: option.splits)

lemmas cc_exec = NewClientConn_def make_chan_def MemOpen_def NewMemoryStore_def cc_call_defs at_user_def
  cc_user_def cc_sync_def cc_send_cases cc_read_def cc_in_step_def cc_in_exit_def cc_refreshOpTime_def
  cc_push_def cc_out_step_def cc_out_exit_def cc_close_receipt_def cc_tick_def cc_ping_def cc_kdone_def
  between_calls_def chan_recv_def chan_send_def chan_close_def cc_request_def Let_def

subsection \<open>Properties\<close>

text \<open>C11: published messages reach the application of a client in the order in which the broker sent
  them, each exactly once: in every state a client can be in, the messages decoded from the socket are
  those the application has read, then those in \<^verbatim>\<open>Incoming\<close>, then the one its inbound goroutine is
  about to put there; and neither queue exceeds its capacity.\<close>

theorem client_stream_in_order:
  assumes "client_state c"
  shows "concat (map pub_of (crecv c)) = cgot c @ buf (Incoming c) @ offered c
    \<and> length (buf (Incoming c)) \<le> ccap (Incoming c) \<and> length (buf (outq c)) \<le> ccap (outq c)"
  using client_state_cinv [OF assms] by (simp add: cinv_def stream_ok_def chans_ok_def chan_wf_def)

definition hello :: "8 word \<Rightarrow> publish" where
  "hello b = \<lparr>Header = zero_header, TopicName = ''t'', MessageId = 0, Payload = [b]\<rparr>"

definition two_messages :: ClientConn where
  "two_messages = the (crun [CIn 1 (Some (Publish (hello 1))), CPush, CIn 2 (Some PingResp),
     CIn 3 (Some (Publish (hello 2))), CRead] (NewClientConn 4 ''a'' 0 1))"

lemma two_messages_run:
  "creaches [CIn 1 (Some (Publish (hello 1))), CPush, CIn 2 (Some PingResp), CIn 3 (Some (Publish (hello 2))), CRead]
     (NewClientConn 4 ''a'' 0 1) (\<lambda>c. concat (map pub_of (crecv c)) = [hello 1, hello 2])"
  by (simp add: creaches_def cc_exec)

lemmas two_messages = creaches_the [OF two_messages_run, folded two_messages_def]
  creaches_state [OF two_messages_run, folded two_messages_def]

theorem client_stream_in_order_witness:
  "cgot two_messages @ buf (Incoming two_messages) @ offered two_messages = [hello 1, hello 2]"
  using client_stream_in_order [OF two_messages(2)] two_messages(1) by simp

lemma cc_await_panics: "panics (cc_await n i c) \<longleftrightarrow> n = NQos \<or> (n = NConnack \<and> connackClosed c)"
  by (cases n) (auto split: cinpos.split message.split)

lemma cc_user_panics:
  assumes "chans_ok c"
  shows "panics (cc_user i c) \<longleftrightarrow>
    (case users c ! i of
       UOut m b n \<Rightarrow> cinpos c = CDone
     | UAt n \<Rightarrow> n = NQos \<or> (n = NConnack \<and> cinpos c = CDone)
     | _ \<Rightarrow> False)"
  using assms
  by (auto simp: cc_user_def cc_sync_def cc_send_cases chans_ok_def cc_await_panics split: upos.split bool.split)

lemma cc_loops_quiet:
  assumes "chans_ok c"
  shows "cinpos c = CLoop \<Longrightarrow> \<not> panics (cc_in_step now d c)" "coutpos c = COutLoop \<Longrightarrow> \<not> panics (cc_out_step now ok c)"
proof -
  assume "cinpos c = CLoop"
  with assms have "\<not> panics (cc_in_exit c)" "\<not> panics (cc_in_exit (c\<lparr>crecv := ms, clastOp := now\<rparr>))" for ms
    using cc_in_exit_Ret [of "c\<lparr>crecv := ms, clastOp := now\<rparr>"] by (simp_all add: cc_in_exit_Ret)
  then show "\<not> panics (cc_in_step now d c)"
    by (auto simp: cc_in_step_def cc_refreshOpTime_def Let_def split: option.split message.split)
next
  assume "coutpos c = COutLoop"
  with assms show "\<not> panics (cc_out_step now ok c)"
    by (cases "buf (outq c)") (simp_all add: cc_out_step_Ret Let_def, simp add: cc_out_step_def chan_recv_def cc_out_exit_Ret)
qed

text \<open>C10: when a client panics, exactly: in every state a client can be in, some step panics if and
  only if the inbound goroutine has ended (the connection is gone) while a caller is about to send, or
  waits for a CONNACK, or a keep-alive goroutine is about to send a ping; or a caller has published at
  QoS 2. The two loops and the reading of \<^verbatim>\<open>Incoming\<close> never panic.\<close>

theorem client_panics_iff:
  assumes "client_state c"
  shows "(\<exists>p c'. cstep c (Panic p c')) \<longleftrightarrow>
      (cinpos c = CDone \<and> (\<exists>i < length (users c). (\<exists>m b n. users c ! i = UOut m b n) \<or> users c ! i = UAt NConnack))
    \<or> (cinpos c = CDone \<and> (\<exists>k < length (keepalives c). keepalives c ! k = KPing))
    \<or> (\<exists>i < length (users c). users c ! i = UAt NQos)"
  (is "?l \<longleftrightarrow> ?a \<or> ?b \<or> ?q")
proof
  have ok: "chans_ok c" using client_state_cinv [OF assms] by (simp add: cinv_def)
  assume ?l
  then obtain p c' where "cstep c (Panic p c')" by blast
  then show "?a \<or> ?b \<or> ?q"
  proof cases
    case (c_user i)
    then have "panics (cc_user i c)" by (metis panics.simps(1))
    with c_user(2) show ?thesis by (auto simp: cc_user_panics [OF ok] split: upos.splits)
  next
    case (c_in d now)
    with cc_loops_quiet [OF ok] show ?thesis by (metis panics.simps(1))
  next
    case (c_out now ok')
    with cc_loops_quiet [OF ok] show ?thesis by (metis panics.simps(1))
  qed (use ok in \<open>auto simp: chans_ok_def cc_read_def cc_push_def chan_recv_def chan_send_def cc_ping_def
      cc_send_cases split: list.splits if_splits\<close>)
next
  have ok: "chans_ok c" using client_state_cinv [OF assms] by (simp add: cinv_def)
  assume "?a \<or> ?b \<or> ?q"
  then consider (user) i where "i < length (users c)" "\<not> between_calls (users c ! i)" "panics (cc_user i c)"
    | (ping) k where "cinpos c = CDone" "k < length (keepalives c)" "keepalives c ! k = KPing"
    by (auto simp: cc_user_panics [OF ok] between_calls_def)
  then show ?l
  proof cases
    case user
    with c_user [of i c] show ?thesis by (metis panics_iff)
  next
    case ping
    then have "cc_ping k c = Panic SendOnClosed c"
      using ok by (simp add: cc_ping_def cc_send_cases chans_ok_def)
    with ping c_ping [of k c] show ?thesis by metis
  qed
qed

definition cut_off :: ClientConn where
  "cut_off = the (crun [CCall 0 (CallConnect 7 '''' ''''), CUser 0, COut 1 True, CUser 0, CIn 2 None]
     (NewClientConn 4 '''' 0 1))"

lemma cut_off_run:
  "creaches [CCall 0 (CallConnect 7 '''' ''''), CUser 0, COut 1 True, CUser 0, CIn 2 None]
     (NewClientConn 4 '''' 0 1) (\<lambda>c. cinpos c = CDone \<and> users c = [UAt NConnack])"
  by (simp add: creaches_def cc_exec)

lemmas cut_off = creaches_the [OF cut_off_run, folded cut_off_def]
  creaches_state [OF cut_off_run, folded cut_off_def]

theorem client_panics_iff_witness: "\<exists>p c'. cstep cut_off (Panic p c')"
  using client_panics_iff [OF cut_off(2)] cut_off(1) by auto

text \<open>C19: a call that waits for its message to be sent can wait for ever: in any state a client can be
  in, once the outbound goroutine has ended (a write failed, or a DISCONNECT was sent) with the
  message of the call still in the queue, the receipt of the call is open and the caller at it in every
  later state, whatever anybody does.\<close>

theorem stranded_call_never_returns:
  assumes "client_state c" and "coutpos c = COutDone" and "r \<in> set (queued_receipts c)"
    and "i < length (users c)" and "users c ! i = UReceipt r n" and "creachable c c'"
  shows "\<not> crClosed c' r \<and> users c' ! i = UReceipt r n"
proof -
  have inv: "cinv c" by (rule client_state_cinv [OF assms(1)])
  from assms(6) have "cinv c' \<and> coutpos c' = COutDone \<and> r \<in> set (queued_receipts c')
      \<and> i < length (users c') \<and> users c' ! i = UReceipt r n"
  proof (induction rule: creachable.induct)
    case cstart
    show ?case using inv assms(2-5) by simp
  next
    case (cmore c c')
    then have open_r: "\<not> crClosed c r" by (auto simp: cinv_def receipts_ok_def)
    have "ceffect c c'" using cmore by (auto simp: cinv_def intro: cstep_effect)
    then have "coutpos c' = COutDone \<and> r \<in> set (queued_receipts c') \<and> i < length (users c')
        \<and> users c' ! i = UReceipt r n"
    proof cases
      case (e_move us ks cid)
      with cmore.IH open_r stay_waits [of c us i r n] show ?thesis by (auto simp: stay_def queued_receipts_def)
    next
      case (e_ack us m)
      with cmore.IH open_r stay_waits [of c us i r n] show ?thesis by (auto simp: stay_def queued_receipts_def)
    next
      case (e_send us j ks)
      with cmore.IH open_r stay_waits [of c us i r n] show ?thesis by (auto simp: stay_def queued_receipts_def)
    next
      case (e_sync j k m)
      then have "k \<noteq> i" using cmore.IH by (auto simp: at_receipt_def)
      with e_sync cmore.IH show ?thesis by (auto simp: queued_receipts_def)
    qed (use cmore.IH in \<open>auto simp: queued_receipts_def\<close>)
    with cmore cinv_step show ?case by blast
  qed
  then show ?thesis by (auto simp: cinv_def receipts_ok_def)
qed

definition stranded :: ClientConn where
  "stranded = the (crun [CCall 0 (CallPublish (hello 1)), CUser 0, CCall 1 (CallSubscribe []), CUser 1, COut 1 False]
     (NewClientConn 4 ''a'' 0 2))"

lemma stranded_run:
  "creaches [CCall 0 (CallPublish (hello 1)), CUser 0, CCall 1 (CallSubscribe []), CUser 1, COut 1 False]
     (NewClientConn 4 ''a'' 0 2)
     (\<lambda>c. coutpos c = COutDone \<and> 0 \<in> set (queued_receipts c) \<and> 1 < length (users c) \<and> users c ! 1 = UReceipt 0 NSuback)"
  by (simp add: creaches_def cc_exec hello_def zero_header_def queued_receipts_def numeral_2_eq_2)

lemmas stranded = creaches_the [OF stranded_run, folded stranded_def]
  creaches_state [OF stranded_run, folded stranded_def]

theorem stranded_call_never_returns_witness: "\<not> crClosed stranded 0 \<and> users stranded ! 1 = UReceipt 0 NSuback"
  using stranded_call_never_returns [OF stranded(2), of 0 1 NSuback stranded] stranded(1) cstart by blast

text \<open>C29: the data of a client stay well formed. In every state a client can be in, whatever its goroutines and its
  application do: the channels \<^verbatim>\<open>inboundLoop\<close> closes are closed exactly when it has ended, \<^verbatim>\<open>doneChan\<close> and the socket
  exactly when \<^verbatim>\<open>outboundLoop\<close> has; the receipts in the queue are all different and open; and a caller at its
  receipt waits for one that is closed or still in the queue, so that no job is ever lost.\<close>

theorem client_is_well_formed:
  assumes "client_state c"
  shows "(closed (outq c) \<longleftrightarrow> cinpos c = CDone) \<and> (closed (Incoming c) \<longleftrightarrow> cinpos c = CDone)
    \<and> (connackClosed c \<longleftrightarrow> cinpos c = CDone) \<and> (subackClosed c \<longleftrightarrow> cinpos c = CDone) \<and> (pubackClosed c \<longleftrightarrow> cinpos c = CDone)
    \<and> (doneClosed c \<longleftrightarrow> coutpos c = COutDone) \<and> (csockClosed c \<longleftrightarrow> coutpos c = COutDone)
    \<and> distinct (queued_receipts c) \<and> (\<forall>r \<in> set (queued_receipts c). \<not> crClosed c r)
    \<and> (\<forall>i < length (users c). \<forall>r n. users c ! i = UReceipt r n \<longrightarrow> crClosed c r \<or> r \<in> set (queued_receipts c))"
  using client_state_cinv [OF assms] nth_mem by (fastforce simp: cinv_def chans_ok_def receipts_ok_def)

theorem client_is_well_formed_witness:
  "csockClosed stranded \<and> \<not> crClosed stranded 0 \<and> distinct (queued_receipts stranded)"
  using client_is_well_formed [OF stranded(2)] stranded(1) by blast

end
