(* ===== verification/Link.thy ===== *)
theory Link
  imports Connections Client
begin

section \<open>A client of the library connected to the broker\<close>

text \<open>
  \<open>link\<close> is a client of \<^verbatim>\<open>broker/api.go\<close> and a broker with the number of the broker's connection to
  it. The socket delivers what one side has written to the other in order: \<open>lup\<close> and \<open>ldown\<close> are
  how many messages have arrived. The events are those of the two sides, except that a message is
  read only when it has been written.
\<close>

record link =
  lc :: ClientConn
  lw :: world
  lconn :: nat
  lup :: nat
  ldown :: nat

datatype levent =
    LC cevent
  | LB event
  | LUp int bool
  | LDown int

fun lenabled :: "levent \<Rightarrow> link \<Rightarrow> bool" where
  "lenabled (LC ev) l \<longleftrightarrow> cenabled ev (lc l) \<and> (case ev of CIn now (Some m) \<Rightarrow> False | _ \<Rightarrow> True)"
| "lenabled (LB ev) l \<longleftrightarrow>
     enabled ev (lw l) \<and> (case ev of EInbound now poured c (Decoded m) \<Rightarrow> c \<noteq> lconn l | _ \<Rightarrow> True)"
| "lenabled (LUp now poured) l \<longleftrightarrow> lup l < length (cwire (lc l))
     \<and> enabled (EInbound now poured (lconn l) (Decoded (cwire (lc l) ! lup l))) (lw l)"
| "lenabled (LDown now) l \<longleftrightarrow> ldown l < length (wire (conns (lw l) (lconn l)))
     \<and> cenabled (CIn now (Some (wire (conns (lw l) (lconn l)) ! ldown l))) (lc l)"

fun lstep :: "levent \<Rightarrow> link \<Rightarrow> link res" where
  "lstep (LC ev) l = map_res (\<lambda>c. l\<lparr>lc := c\<rparr>) (cstep_event ev (lc l))"
| "lstep (LB ev) l = map_res (\<lambda>w. l\<lparr>lw := w\<rparr>) (step_event ev (lw l))"
| "lstep (LUp now poured) l =
     map_res (\<lambda>w. l\<lparr>lw := w, lup := Suc (lup l)\<rparr>)
       (step_event (EInbound now poured (lconn l) (Decoded (cwire (lc l) ! lup l))) (lw l))"
| "lstep (LDown now) l =
     map_res (\<lambda>c. l\<lparr>lc := c, ldown := Suc (ldown l)\<rparr>)
       (cstep_event (CIn now (Some (wire (conns (lw l) (lconn l)) ! ldown l))) (lc l))"

fun lrun :: "levent list \<Rightarrow> link \<Rightarrow> link option" where
  "lrun [] l = Some l"
| "lrun (ev # evs) l =
     (if lenabled ev l then case lstep ev l of Ret l' \<Rightarrow> lrun evs l' | _ \<Rightarrow> None else None)"

definition lreaches :: "levent list \<Rightarrow> link \<Rightarrow> (link \<Rightarrow> bool) \<Rightarrow> bool" where
  "lreaches evs l P = (case lrun evs l of None \<Rightarrow> False | Some l' \<Rightarrow> P l')"

lemma lreaches_ex: "lreaches evs l P \<Longrightarrow> \<exists>evs l'. lrun evs l = Some l' \<and> P l'"
  by (auto simp: lreaches_def split: option.splits)

lemmas link_exec = lreaches_def at_user_def cc_user_def cc_sync_def cc_send_cases between_calls_def Let_def
  cc_out_step_def chan_recv_def cc_close_receipt_def cc_refreshOpTime_def cc_in_step_def

subsection \<open>The broker's side of CONNECT\<close>

text \<open>What a CONNECT does on a connection just accepted, with an id nobody has.\<close>

lemma fresh_connect:
  assumes "accept t w = Ret w1" and "0 < ClientOutboundQueueLen (Broker (cf w))"
    and "clients w (ClientId m) = None" and "CleanSession m"
  shows "\<exists>w2. inbound_step now poured (nconns w) (Decoded (Connect m)) w1 = Ret w2
    \<and> buf (jobs (conns w2 (nconns w))) = [\<lparr>jm = ConnAck (connect_rc (Broker (cf w)) (Clients (stats w1)) m), jr = None\<rparr>]
    \<and> outpos (conns w2 (nconns w)) = OutLoop \<and> wire (conns w2 (nconns w)) = [] \<and> nconns w2 = nconns w1"
proof -
  obtain a cs where a: "getClientStore (ClientId m) (cstores w) = (a, cs)" by (rule prod.exhaust)
  show ?thesis
    using assms a
    by (auto simp: accept_def Let_def inbound_step_def receive_def dispatch_def handle_connect_def doConnect_begin_def
        add_client_def doConnect_end_def add_again_def start_heartbeat_def attach_store_def restore_session_def
        store_of_def submit_def chan_send_def chan_trysend_def after_connect_def inbound_exit_def onTerminate_def
        connected_def chan_close_def new_conn_def make_chan_def refreshOpTime_def upd_conn_def upd_stats_def
        stats_defs Clients_def)
qed

text \<open>The outbound goroutine, when one message is queued.\<close>

lemma write_one:
  assumes "broker_state w" "c < nconns w" "outpos (conns w c) = OutLoop" "buf (jobs (conns w c)) = [j]"
  shows "\<exists>w'. step_event (EOutbound now True c) w = Ret w' \<and> enabled (EOutbound now True c) w
    \<and> wire (conns w' c) = wire (conns w c) @ [snapshot (heap w) (jm j)]"
proof -
  have "B w" using broker_state_inv [OF assms(1)] by simp
  from outbound_round [OF this assms(4,3), of now True] assms(2,3) show ?thesis by auto
qed

subsection \<open>Properties\<close>

definition new_link :: "nat \<Rightarrow> string \<Rightarrow> 16 word \<Rightarrow> world \<Rightarrow> nat \<Rightarrow> link" where
  "new_link q cid ka w d = \<lparr>lc = NewClientConn q cid ka 1, lw = w, lconn = d, lup = 0, ldown = 0\<rparr>"

text \<open>C20: a client of the library gets the broker's answer to its CONNECT. In any state the broker can
  be in, for a connection it has just accepted, when nobody is registered under the client's id (its own
  or the random one the library makes) and the queues of both sides have room for one message, the
  two can run so that \<^verbatim>\<open>Connect\<close> returns with the code the broker computed for the request,
  whether the client is accepted or refused.\<close>

theorem connect_returns_the_code:
  assumes "broker_state w" and "accept t w = Ret w1" and "0 < ClientOutboundQueueLen (Broker (cf w))" and "0 < q"
    and "req = cc_request (if cid = '''' then itoa rnd else cid) user pass ka" and "clients w (ClientId req) = None"
  shows "\<exists>evs l. lrun evs (new_link q cid ka w1 (nconns w)) = Some l
    \<and> users (lc l) = [URet (RConnect (connect_rc (Broker (cf w)) (Clients (stats w1)) req))]"
proof -
  let ?d = "nconns w" and ?rc = "connect_rc (Broker (cf w)) (Clients (stats w1)) req"
  have w1: "enabled (EInbound 0 True ?d (Decoded (Connect req))) w1"
    using assms(2) by (auto simp: accept_def Let_def new_conn_def split: if_splits)
  have b1: "broker_state w1" using assms(1,2) b_accept [of w t] broker_state_step by simp
  obtain w2 where w2: "inbound_step 0 True ?d (Decoded (Connect req)) w1 = Ret w2"
    "buf (jobs (conns w2 ?d)) = [\<lparr>jm = ConnAck ?rc, jr = None\<rparr>]" "outpos (conns w2 ?d) = OutLoop"
    "wire (conns w2 ?d) = []" "nconns w2 = nconns w1"
    using fresh_connect [OF assms(2,3,6), of 0 True] assms(5) by (auto simp: cc_request_def)
  have b2: "broker_state w2" using bstep_event [OF w1] w2(1) b1 broker_state_step by simp
  obtain w3 where w3: "outbound_step 0 True ?d w2 = Ret w3" "enabled (EOutbound 0 True ?d) w2"
    "wire (conns w3 ?d) = [ConnAck ?rc]"
    using write_one [OF b2 _ w2(3,2), of 0] w1 w2(4,5) by (auto simp: snapshot_def)
  let ?evs = "[LC (CCall 0 (CallConnect rnd user pass)), LC (CUser 0), LC (COut 0 True), LC (CUser 0),
    LUp 0 True, LB (EOutbound 0 True ?d), LDown 0, LC (CUser 0)]"
  have "lreaches ?evs (new_link q cid ka w1 ?d) (\<lambda>l. users (lc l) = [URet (RConnect ?rc)])"
    using assms(4,5) w1 w2(1) w3
    by (cases "cid = ''''"; cases "0 < ka")
      (simp_all add: new_link_def NewClientConn_def make_chan_def cc_Connect_def link_exec)
  then show ?thesis by (rule lreaches_ex)
qed

lemma small_broker_accepts:
  "reaches [] small_broker (\<lambda>w. accept 5 w = Ret (state_of (accept 5 w)) \<and> 0 < ClientOutboundQueueLen (Broker (cf w))
     \<and> clients w = (\<lambda>_. None))"
  by (simp add: reaches_def exec)

theorem connect_returns_the_code_witness:
  "\<exists>evs l. lrun evs (new_link 100 '''' 600 (state_of (accept 5 small_broker)) (nconns small_broker)) = Some l
    \<and> users (lc l) = [URet (RConnect (connect_rc (Broker (cf small_broker)) (Clients (stats (state_of (accept 5 small_broker))))
        (cc_request (itoa 42) '''' '''' 600)))]"
proof -
  note s = reaches_the [OF small_broker_accepts, simplified] small_broker_run [OF small_broker_accepts, simplified]
  then have "accept 5 small_broker = Ret (state_of (accept 5 small_broker))" by blast
  from connect_returns_the_code [OF s(2) this, of 100 "cc_request (itoa 42) '''' '''' 600" "''''" 42 "''''" "''''" 600] s(1)
  show ?thesis by simp
qed


definition flushed_events :: "event list" where
  "flushed_events = two_clients @ [EOutbound 5 True 0]"

definition flushed :: world where
  "flushed = the (run flushed_events small_broker)"

lemma flushed_run:
  "reaches flushed_events small_broker (\<lambda>w. BuffOverflowStrategy (Broker (cf w)) \<noteq> BufferOverflowBlock \<and> nodes w = []
     \<and> 0 < nconns w \<and> inpos (conns w 0) = InLoop \<and> flag (conns w 0) \<noteq> None \<and> \<not> sockClosed (conns w 0)
     \<and> outpos (conns w 0) = OutLoop \<and> queue 0 w = [] \<and> 0 < room 0 w
     \<and> length (buf (posts (table w))) < ccap (posts (table w)))"
  by (simp add: reaches_def flushed_events_def two_clients_def exec room_def queue_def)

lemmas flushed = reaches_the [OF flushed_run, folded flushed_def]
  small_broker_run [OF flushed_run, folded flushed_def]


end
