(* ===== verification/Chat.thy ===== *)
theory Chat
  imports Client
begin

section \<open>The chat program: \<^verbatim>\<open>cmd/fchat/main.go\<close>\<close>

text \<open>
  A command line program on top of the client library. \<open>chat\<close> is its global variables, with what it
  has printed (\<open>screen\<close>) and the methods of the library it has called (\<open>ccalls\<close>, to be run by
  \<open>cc_call\<close>). Two goroutines share it: \<^verbatim>\<open>cliLoop\<close> reads lines from the terminal and publishes
  them, \<^verbatim>\<open>subLoop\<close> takes messages from \<^verbatim>\<open>Incoming\<close>, notes who sent them and prints a
  translation. In \<open>cliLoop\<close> the argument \<open>inbox\<close> is the schedule: its \<open>n\<close>-th entry holds the messages
  \<^verbatim>\<open>subLoop\<close> handles before the \<open>n\<close>-th read of the terminal.

  The terminal is the characters typed until it is closed. The translation service is the
  parameter \<open>webapi\<close>: what a GET of a URL gives (an error, or a body or an error while reading it, with
  the status) and how the elapsed time is printed. The colours and the clock of the printed lines
  are left out.
\<close>

subsection \<open>Strings and bytes\<close>

definition bytes_of :: "string \<Rightarrow> payload" where
  "bytes_of s = map (\<lambda>c. of_nat (of_char c)) s"

definition string_of :: "payload \<Rightarrow> string" where
  "string_of p = map (\<lambda>b. char_of (unat b)) p"

text \<open>\<^verbatim>\<open>strings.SplitN\<close> with the limit 2.\<close>

fun split_n2 :: "string \<Rightarrow> char \<Rightarrow> string list" where
  "split_n2 [] sep = [[]]"
| "split_n2 (c # cs) sep =
     (if c = sep then [[], cs]
      else (case split_n2 cs sep of p # ps \<Rightarrow> (c # p) # ps | [] \<Rightarrow> []))"

text \<open>\<^verbatim>\<open>url.QueryEscape\<close>.\<close>

definition hex_digit :: "nat \<Rightarrow> char" where
  "hex_digit d = (if d < 10 then char_of (48 + d) else char_of (55 + d))"

definition unreserved :: "char \<Rightarrow> bool" where
  "unreserved c \<longleftrightarrow>
     (let n = (of_char c :: nat) in
        48 \<le> n \<and> n \<le> 57 \<or> 65 \<le> n \<and> n \<le> 90 \<or> 97 \<le> n \<and> n \<le> 122 \<or> c \<in> set ''-_.~'')"

definition escape_char :: "char \<Rightarrow> string" where
  "escape_char c =
     (if unreserved c then [c]
      else if c = CHR '' '' then ''+''
      else [CHR ''%'', hex_digit (of_char c div 16), hex_digit (of_char c mod 16)])"

definition query_escape :: "string \<Rightarrow> string" where
  "query_escape s = concat (map escape_char s)"

text \<open>\<^verbatim>\<open>bufio.Reader.ReadString\<close> up to a newline; \<open>None\<close> at the end of the input, where a partial
  line is dropped with the error.\<close>

definition newline :: char where "newline = CHR 0x0A"

fun read_string :: "string \<Rightarrow> (string \<times> string) option" where
  "read_string [] = None"
| "read_string (c # cs) =
     (if c = newline then Some ([c], cs)
      else (case read_string cs of None \<Rightarrow> None | Some (l, r) \<Rightarrow> Some (c # l, r)))"

subsection \<open>State\<close>

datatype shown =
    Prompt string
  | Help
  | Who "string list"
  | Whoami string
  | Rtt int
  | Received string string
  | Translated string string
  | Joined string
  | ReadErr

record chat =
  chat_user :: string
  chat_topic :: string
  netRtt :: int
  onlineUsers :: "string list"
  screen :: "shown list"
  ccalls :: "ccall list"

record webapi =
  http_get :: "string \<Rightarrow> string + ((string + string) \<times> nat \<times> string)"
  elapsed :: "string \<Rightarrow> string"

definition display :: "shown \<Rightarrow> chat \<Rightarrow> chat" where
  "display x c = c\<lparr>screen := screen c @ [x]\<rparr>"

definition call_cc :: "ccall \<Rightarrow> chat \<Rightarrow> chat" where
  "call_cc k c = c\<lparr>ccalls := ccalls c @ [k]\<rparr>"

subsection \<open>Setting up\<close>

text \<open>The flags: without a user name the program prints its usage and exits with status 0.\<close>

definition fchat_init :: "string \<Rightarrow> nat + chat" where
  "fchat_init u =
     (if u = '''' then Inl 0
      else Inr \<lparr>chat_user = u, chat_topic = ''funplus'', netRtt = 0, onlineUsers = [], screen = [], ccalls = []\<rparr>)"

definition chat_publish :: "chat \<Rightarrow> string \<Rightarrow> publish" where
  "chat_publish c text =
     \<lparr>Header = zero_header, TopicName = chat_topic c, MessageId = 0, Payload = bytes_of (chat_user c @ '':'' @ text)\<rparr>"

text \<open>\<open>rtt\<close> is the time the dialling took, \<open>None\<close> if it failed; \<open>rc\<close> is what \<^verbatim>\<open>Connect\<close> returns and \<open>rnd\<close>
  the client id it draws. The exit status is \<open>Inl\<close>.\<close>

definition setupChat :: "int option \<Rightarrow> nat \<Rightarrow> ReturnCode \<Rightarrow> chat \<Rightarrow> nat + chat" where
  "setupChat rtt rnd rc c =
     (case rtt of
        None \<Rightarrow> Inl 1
      | Some t \<Rightarrow>
          let c1 = call_cc (CallConnect rnd '''' '''') (c\<lparr>netRtt := t\<rparr>) in
          if rc \<noteq> RetCodeAccepted then Inl 1
          else
            let c2 = call_cc (CallSubscribe [\<lparr>Topic = chat_topic c1, Qos = QosAtMostOnce\<rparr>]) c1;
                c3 = display (Joined (chat_topic c2)) c2
            in Inr (call_cc (CallPublish (chat_publish c3
                 (chat_user c3 @ '' joined in chatroom['' @ chat_topic c3 @ '']''))) c3))"

subsection \<open>The loops\<close>

definition translate :: "webapi \<Rightarrow> string \<Rightarrow> string" where
  "translate web q =
     (case http_get web (''http://translate.funplusgame.com/api/translate?q='' @ query_escape q
         @ ''&source=en&target=zh-CN&profanity=off'') of
        Inl err \<Rightarrow> err
      | Inr (body, code, status) \<Rightarrow>
          (case body of
             Inl err \<Rightarrow> err
           | Inr content \<Rightarrow>
               if code \<noteq> 200 then ''unexpected translation status: '' @ status
               else [CHR 0x27] @ q @ [CHR 0x27] @ '' in '' @ elapsed web q @ '': '' @ content))"

text \<open>One round of \<^verbatim>\<open>subLoop\<close>.\<close>

definition sub_round :: "webapi \<Rightarrow> publish \<Rightarrow> chat \<Rightarrow> chat res" where
  "sub_round web m c =
     (let text = string_of (Payload m);
          c1 = display (Received (TopicName m) text) c;
          body = split_n2 text CHR '':'' in
        if length body \<le> 0 then Panic IndexOutOfRange c1
        else
          let c2 = c1\<lparr>onlineUsers := List.insert (body ! 0) (onlineUsers c1)\<rparr> in
          if length body \<le> 1 then Panic IndexOutOfRange c2
          else Ret (display (Translated (TopicName m) (translate web (body ! 1))) c2))"

definition subLoop :: "webapi \<Rightarrow> publish list \<Rightarrow> chat \<Rightarrow> chat res" where
  "subLoop web ms = forG ms (sub_round web)"

definition handleCliCmd :: "env \<Rightarrow> string \<Rightarrow> chat \<Rightarrow> bool \<times> chat" where
  "handleCliCmd e txt c =
     (if txt = ''help'' then (True, display Help c)
      else if txt = ''w'' \<or> txt = ''who'' then (True, display (Who (range_keys e (onlineUsers c))) c)
      else if txt = ''whoami'' then (True, display (Whoami (chat_user c)) c)
      else if txt = ''rtt'' then (True, display (Rtt (netRtt c)) c)
      else (False, c))"

lemma read_string_shorter: "read_string s = Some (l, r) \<Longrightarrow> length r < length s"
  by (induction s arbitrary: l r) (auto split: if_splits option.splits prod.splits simp: less_SucI)

function cliLoop :: "env \<Rightarrow> webapi \<Rightarrow> string \<Rightarrow> publish list list \<Rightarrow> chat \<Rightarrow> chat res" where
  "cliLoop e web stdin inbox c =
     bindG (subLoop web (if inbox = [] then [] else hd inbox) c) (\<lambda>c0.
       let c1 = display (Prompt (chat_topic c0)) c0 in
       (case read_string stdin of
          None \<Rightarrow> Ret (display ReadErr c1)
        | Some (line, rest) \<Rightarrow>
            let text = butlast line in
            if text = '''' then cliLoop e web rest (tl inbox) c1
            else
              (case handleCliCmd e text c1 of
                 (True, c2) \<Rightarrow> cliLoop e web rest (tl inbox) c2
               | (False, c2) \<Rightarrow> cliLoop e web rest (tl inbox) (call_cc (CallPublish (chat_publish c2 text)) c2))))"
  by pat_completeness auto
termination
  by (relation "measure (\<lambda>(e, web, stdin, inbox, c). length stdin)") (auto dest: read_string_shorter)

declare cliLoop.simps [simp del]

text \<open>\<^verbatim>\<open>main\<close>, from the flags on.\<close>

definition fchat_main ::
  "env \<Rightarrow> webapi \<Rightarrow> string \<Rightarrow> int option \<Rightarrow> nat \<Rightarrow> ReturnCode \<Rightarrow> string \<Rightarrow> publish list list \<Rightarrow> nat + chat res" where
  "fchat_main e web u rtt rnd rc stdin inbox =
     (case fchat_init u of
        Inl n \<Rightarrow> Inl n
      | Inr c \<Rightarrow> (case setupChat rtt rnd rc c of Inl n \<Rightarrow> Inl n | Inr c1 \<Rightarrow> Inr (cliLoop e web stdin inbox c1)))"

subsection \<open>Lemmas\<close>

lemma string_of_bytes [simp]: "string_of (bytes_of s) = s"
proof -
  have "char_of (unat (of_nat (of_char c) :: 8 word)) = c" for c
  proof -
    have "unat (of_nat (of_char c) :: 8 word) = of_char c mod 256" by (simp add: unat_of_nat)
    then show ?thesis by simp
  qed
  then show ?thesis by (simp add: bytes_of_def string_of_def comp_def)
qed

lemma split_n2_none: "sep \<notin> set s \<Longrightarrow> split_n2 s sep = [s]"
  by (induction s) auto

lemma split_n2_first: "sep \<notin> set p \<Longrightarrow> split_n2 (p @ sep # s) sep = [p, s]"
  by (induction p) auto

lemma read_string_None: "read_string s = None \<longleftrightarrow> newline \<notin> set s"
  by (induction s) (auto split: option.splits)

lemma read_string_Some:
  "read_string s = Some (l, r) \<Longrightarrow> \<exists>p. l = p @ [newline] \<and> s = p @ newline # r \<and> newline \<notin> set p"
  by (induction s arbitrary: l) (auto split: if_splits option.splits)

lemma split_first_line: "newline \<notin> set p \<Longrightarrow> str_split (p @ newline # r) newline = p # str_split r newline"
  by (induction p) auto

text \<open>A message is handled by its first colon.\<close>

definition spoken :: "publish \<Rightarrow> bool" where
  "spoken m \<longleftrightarrow> CHR '':'' \<in> set (string_of (Payload m))"

lemma sub_round_spoken:
  assumes "string_of (Payload m) = u @ CHR '':'' # t" "CHR '':'' \<notin> set u"
  shows "sub_round web m c = Ret (display (Translated (TopicName m) (translate web t))
    ((display (Received (TopicName m) (u @ CHR '':'' # t)) c)\<lparr>onlineUsers := List.insert u (onlineUsers c)\<rparr>))"
  using split_n2_first [OF assms(2), of t] assms(1) by (simp add: sub_round_def Let_def display_def)

lemma sub_round_cases:
  "if spoken m then \<exists>c'. sub_round web m c = Ret c' \<and> ccalls c' = ccalls c \<and> chat_user c' = chat_user c \<and> chat_topic c' = chat_topic c
   else \<exists>c'. sub_round web m c = Panic IndexOutOfRange c'"
proof (cases "spoken m")
  case True
  then obtain u t where "string_of (Payload m) = u @ CHR '':'' # t" "CHR '':'' \<notin> set u"
    unfolding spoken_def by (metis split_list_first)
  with True show ?thesis by (simp add: sub_round_spoken display_def)
next
  case False
  then have "split_n2 (string_of (Payload m)) CHR '':'' = [string_of (Payload m)]"
    unfolding spoken_def by (rule split_n2_none)
  with False show ?thesis by (simp add: sub_round_def Let_def)
qed

lemma subLoop_spoken:
  "\<forall>m \<in> set ms. spoken m \<Longrightarrow>
     \<exists>c'. subLoop web ms c = Ret c' \<and> ccalls c' = ccalls c \<and> chat_user c' = chat_user c \<and> chat_topic c' = chat_topic c"
proof (induction ms arbitrary: c)
  case (Cons m ms)
  then obtain c1 where c1: "sub_round web m c = Ret c1" "ccalls c1 = ccalls c" "chat_user c1 = chat_user c" "chat_topic c1 = chat_topic c"
    using sub_round_cases [of m web c] by auto
  show ?case using Cons.IH [of c1] Cons.prems c1 by (simp add: subLoop_def)
qed (simp add: subLoop_def)

text \<open>What the user typed: the complete lines, without commands and empty ones.\<close>

definition commands :: "string list" where
  "commands = [''help'', ''w'', ''who'', ''whoami'', ''rtt'']"

definition said :: "string \<Rightarrow> string list" where
  "said stdin = filter (\<lambda>t. t \<noteq> '''' \<and> t \<notin> set commands)
     (butlast (str_split stdin newline))"

lemma handleCliCmd_cases:
  obtains (cmd) c2 where "t \<in> set commands" "handleCliCmd e t c = (True, c2)"
      "ccalls c2 = ccalls c" "chat_user c2 = chat_user c" "chat_topic c2 = chat_topic c"
    | (say) "t \<notin> set commands" "handleCliCmd e t c = (False, c)"
  by (cases "t \<in> set commands")
    (auto simp: handleCliCmd_def display_def commands_def)

lemma said_none: "newline \<notin> set s \<Longrightarrow> said s = []"
  by (simp add: said_def str_split_part)

lemma said_line:
  "newline \<notin> set p \<Longrightarrow> said (p @ newline # r) =
     (if p \<noteq> '''' \<and> p \<notin> set commands then p # said r else said r)"
  by (simp add: said_def split_first_line)

lemma cliLoop_calls:
  assumes "\<forall>ms \<in> set inbox. \<forall>m \<in> set ms. spoken m"
  shows "\<exists>c'. cliLoop e web stdin inbox c = Ret c' \<and>
    ccalls c' = ccalls c @ map (\<lambda>t. CallPublish (chat_publish c t)) (said stdin)"
  using assms
proof (induction "length stdin" arbitrary: stdin inbox c rule: less_induct)
  case less
  have "\<forall>m \<in> set (if inbox = [] then [] else hd inbox). spoken m" using less.prems by (cases inbox) simp_all
  from subLoop_spoken [OF this, of web c]
  obtain c0 where c0: "subLoop web (if inbox = [] then [] else hd inbox) c = Ret c0"
    "ccalls c0 = ccalls c" "chat_user c0 = chat_user c" "chat_topic c0 = chat_topic c"
    by blast
  let ?c1 = "display (Prompt (chat_topic c0)) c0"
  have c1: "ccalls ?c1 = ccalls c" "chat_user ?c1 = chat_user c" "chat_topic ?c1 = chat_topic c"
    using c0 by (simp_all add: display_def)
  show ?case
  proof (cases "read_string stdin")
    case None
    then have "said stdin = []" using said_none read_string_None by blast
    with None c0 show ?thesis by (subst cliLoop.simps) (simp add: display_def Let_def)
  next
    case (Some lr)
    then obtain p r where s: "read_string stdin = Some (p @ [newline], r)" "stdin = p @ newline # r" "newline \<notin> set p"
      using read_string_Some by (metis prod.collapse)
    have tl: "\<forall>ms \<in> set (tl inbox). \<forall>m \<in> set ms. spoken m" using less.prems by (cases inbox) simp_all
    have IH: "\<exists>c'. cliLoop e web r (tl inbox) d = Ret c' \<and>
        ccalls c' = ccalls d @ map (\<lambda>t. CallPublish (chat_publish d t)) (said r)" for d
      using less.hyps [OF _ tl, of r d] s(2) by simp
    note line = said_line [OF s(3), of r, folded s(2)]
    have pub: "chat_publish d t = chat_publish c t" if "chat_user d = chat_user c" "chat_topic d = chat_topic c" for d t
      using that by (simp add: chat_publish_def)
    show ?thesis
    proof (cases "p = ''''")
      case True
      with IH [of ?c1] c0(1) c1 s(1) line pub [of ?c1] show ?thesis by (subst cliLoop.simps) (simp add: Let_def)
    next
      case p: False
      show ?thesis
      proof (cases rule: handleCliCmd_cases [of p e ?c1])
        case (cmd c2)
        with IH [of c2] c0(1) c1 s(1) line p pub [of c2] show ?thesis by (subst cliLoop.simps) (simp add: Let_def)
      next
        case say
        let ?c2 = "call_cc (CallPublish (chat_publish ?c1 p)) ?c1"
        have "ccalls ?c2 = ccalls c @ [CallPublish (chat_publish c p)]" "chat_user ?c2 = chat_user c" "chat_topic ?c2 = chat_topic c"
          using c1 pub [of ?c1] by (simp_all add: call_cc_def)
        with IH [of ?c2] c0(1) s(1) line p say pub [of ?c2] show ?thesis by (subst cliLoop.simps) (simp add: Let_def)
      qed
    qed
  qed
qed

subsection \<open>Properties\<close>


definition bob :: chat where
  "bob = \<lparr>chat_user = ''bob'', chat_topic = ''funplus'', netRtt = 7, onlineUsers = [], screen = [], ccalls = []\<rparr>"


text \<open>What one user types is what the others read. When a user whose name has no colon types a
  text, every chat program that receives the message adds exactly that name to its list of users and
  shows the translation of exactly that text, whatever the text contains.\<close>

theorem chat_line_round_trip:
  assumes "CHR '':'' \<notin> set (chat_user c)"
  shows "sub_round web (chat_publish c t) d = Ret (d\<lparr>onlineUsers := List.insert (chat_user c) (onlineUsers d),
    screen := screen d @ [Received (chat_topic c) (chat_user c @ '':'' @ t), Translated (chat_topic c) (translate web t)]\<rparr>)"
proof -
  have "string_of (Payload (chat_publish c t)) = chat_user c @ CHR '':'' # t" by (simp add: chat_publish_def)
  from sub_round_spoken [OF this assms] show ?thesis by (simp add: display_def chat_publish_def)
qed

theorem chat_line_round_trip_witness:
  "\<exists>d. sub_round \<lparr>http_get = (\<lambda>_. Inr (Inr ''nihao'', 200, ''200 OK'')), elapsed = (\<lambda>_. ''1ms'')\<rparr> (chat_publish bob ''a:b'') bob = Ret d
    \<and> onlineUsers d = [''bob''] \<and> last (screen d) = Translated ''funplus'' ([CHR 0x27] @ ''a:b'' @ [CHR 0x27] @ '' in 1ms: nihao'')"
  using chat_line_round_trip [of bob "\<lparr>http_get = (\<lambda>_. Inr (Inr ''nihao'', 200, ''200 OK'')), elapsed = (\<lambda>_. ''1ms'')\<rparr>" "''a:b''" bob]
  by (simp add: bob_def translate_def)

text \<open>One foreign message ends the chat program. \<^verbatim>\<open>subLoop\<close> never blocks, and it panics exactly
  when a message without a colon arrives, which any client of the broker may publish to the room.\<close>

theorem subLoop_panics_iff:
  "if \<exists>m \<in> set ms. CHR '':'' \<notin> set (string_of (Payload m)) then panics (subLoop web ms c) else returns (subLoop web ms c)"
proof (induction ms arbitrary: c)
  case (Cons m ms)
  show ?case
  proof (cases "spoken m")
    case True
    then obtain c' where "sub_round web m c = Ret c'" using sub_round_cases [of m web c] by auto
    with Cons.IH [of c'] True show ?thesis by (auto simp: subLoop_def spoken_def split: if_splits)
  next
    case False
    with sub_round_cases [of m web c] show ?thesis by (auto simp: subLoop_def spoken_def)
  qed
qed (simp add: subLoop_def)

end
