(* ===== verification/Room.thy ===== *)
theory Room
  imports Link Chat
begin

section \<open>A chat room: several clients of one broker\<close>

text \<open>
  \<open>net\<close> is a broker with a client of the library at the other end of each connection. Seen from one
  connection it is a \<open>link\<close>, and the events of a client and of its socket are those of that link; the
  other events are the broker's own. Every message the broker decodes has been written by a client
  and the other way round. On top of it run the chat programs.
\<close>

record net =
  ncl :: "nat \<Rightarrow> ClientConn"
  nw :: world
  nup :: "nat \<Rightarrow> nat"
  ndown :: "nat \<Rightarrow> nat"

definition link_of :: "nat \<Rightarrow> net \<Rightarrow> link" where
  "link_of d n = \<lparr>lc = ncl n d, lw = nw n, lconn = d, lup = nup n d, ldown = ndown n d\<rparr>"

definition put_link :: "link \<Rightarrow> net \<Rightarrow> net" where
  "put_link l n = n\<lparr>ncl := (ncl n)(lconn l := lc l), nw := lw l,
     nup := (nup n)(lconn l := lup l), ndown := (ndown n)(lconn l := ldown l)\<rparr>"

datatype nevent = NLink nat levent | NBroker event

fun decodes :: "event \<Rightarrow> bool" where
  "decodes (EInbound now poured c (Decoded m)) \<longleftrightarrow> True"
| "decodes _ \<longleftrightarrow> False"

fun at_client :: "levent \<Rightarrow> bool" where
  "at_client (LB ev) \<longleftrightarrow> False"
| "at_client _ \<longleftrightarrow> True"

fun nenabled :: "nevent \<Rightarrow> net \<Rightarrow> bool" where
  "nenabled (NLink d ev) n \<longleftrightarrow> at_client ev \<and> lenabled ev (link_of d n)"
| "nenabled (NBroker ev) n \<longleftrightarrow> \<not> decodes ev \<and> enabled ev (nw n)"

fun nstep :: "nevent \<Rightarrow> net \<Rightarrow> net res" where
  "nstep (NLink d ev) n = map_res (\<lambda>l. put_link l n) (lstep ev (link_of d n))"
| "nstep (NBroker ev) n = map_res (\<lambda>w. n\<lparr>nw := w\<rparr>) (step_event ev (nw n))"

fun nrun :: "nevent list \<Rightarrow> net \<Rightarrow> net option" where
  "nrun [] n = Some n"
| "nrun (ev # evs) n =
     (if nenabled ev n then case nstep ev n of Ret n' \<Rightarrow> nrun evs n' | _ \<Rightarrow> None else None)"

lemma nrun_append: "nrun (es @ fs) n = Option.bind (nrun es n) (nrun fs)"
  by (induction es arbitrary: n) (simp_all split: res.split)

lemma link_of_put [simp]: "lconn l = d \<Longrightarrow> link_of d (put_link l n) = l"
  by (auto simp: link_of_def put_link_def)

lemma put_put [simp]: "lconn k = lconn l \<Longrightarrow> put_link k (put_link l n) = put_link k n"
  by (simp add: put_link_def)

lemma put_link_of [simp]: "put_link (link_of d n) n = n"
  by (simp add: put_link_def link_of_def)

lemma lstep_lconn: "lstep ev l = Ret l' \<Longrightarrow> lconn l' = lconn l"
  by (cases ev) auto

text \<open>A run of one link, and a run of the broker, is a run of the net.\<close>

lemma link_run:
  assumes "lrun evs l = Some l'" "list_all at_client evs" "lconn l = d" "n = put_link l m"
  shows "nrun (map (NLink d) evs) n = Some (put_link l' n)"
  using assms
proof (induction evs arbitrary: l n)
  case (Cons ev evs)
  then obtain k where k: "lenabled ev l" "lstep ev l = Ret k" "lrun evs k = Some l'"
    by (auto split: if_splits res.splits)
  have "lconn k = d" using lstep_lconn [OF k(2)] Cons.prems(3) by simp
  moreover have "put_link k n = put_link k m" using calculation Cons.prems(3,4) by simp
  moreover have "lconn l' = d" using k(3) \<open>lconn k = d\<close>
    by (induction evs arbitrary: k) (auto split: if_splits res.splits dest: lstep_lconn)
  ultimately show ?case using Cons.IH [OF k(3), of "put_link k n"] Cons.prems k by simp
qed simp

lemma link_of_run:
  assumes "lrun evs (link_of d n) = Some l" "list_all at_client evs"
  shows "nrun (map (NLink d) evs) n = Some (put_link l n)"
  using link_run [OF assms _ put_link_of [symmetric]] by (simp add: link_of_def)

lemma broker_run:
  "run evs (nw n) = Some w \<Longrightarrow> list_all (\<lambda>ev. \<not> decodes ev) evs \<Longrightarrow> nrun (map NBroker evs) n = Some (n\<lparr>nw := w\<rparr>)"
proof (induction evs arbitrary: n)
  case (Cons ev evs)
  then obtain u where u: "enabled ev (nw n)" "step_event ev (nw n) = Ret u" "run evs u = Some w"
    by (auto split: if_splits res.splits)
  with Cons.IH [of "n\<lparr>nw := u\<rparr>"] Cons.prems show ?case by simp
qed simp

lemma lreaches_run: "lreaches evs l P \<Longrightarrow> \<exists>l'. lrun evs l = Some l' \<and> P l'"
  unfolding lreaches_def by (cases "lrun evs l") simp_all

subsection \<open>Speaking and hearing\<close>

text \<open>A publication at QoS 0, from the call of the method to the broker's handler; and a message from the broker's
  socket to the application.\<close>

lemma speak:
  assumes "coutpos c = COutLoop" "outq c = make_chan q" "0 < q" "i < length (users c)" "between_calls (users c ! i)"
    and "QosLevel (Header m) = QosAtMostOnce"
    and "enabled (EInbound 0 True a (Decoded (Publish m))) w" "inbound_step 0 True a (Decoded (Publish m)) w = Ret u"
  shows "\<exists>l. lrun [LC (CCall i (CallPublish m)), LC (CUser i), LC (CUser i), LC (COut 0 True), LUp 0 True]
      \<lparr>lc = c, lw = w, lconn = a, lup = length (cwire c), ldown = k\<rparr> = Some l
    \<and> lw l = u \<and> lconn l = a \<and> users (lc l) ! i = URet RPublish"
proof -
  have "lreaches [LC (CCall i (CallPublish m)), LC (CUser i), LC (CUser i), LC (COut 0 True), LUp 0 True]
      \<lparr>lc = c, lw = w, lconn = a, lup = length (cwire c), ldown = k\<rparr>
      (\<lambda>l. lw l = u \<and> lconn l = a \<and> users (lc l) ! i = URet RPublish)"
    using assms by (simp add: link_exec cc_Publish_def make_chan_def)
  then show ?thesis by (rule lreaches_run)
qed

lemma hear:
  assumes "cinpos c = CLoop" "\<not> csockClosed c" "buf (Incoming c) = []" "\<not> closed (Incoming c)" "0 < ccap (Incoming c)"
    and "k < length (wire (conns w b))" "wire (conns w b) ! k = Publish m"
  shows "\<exists>l. lrun [LDown 0, LC CPush, LC CRead] \<lparr>lc = c, lw = w, lconn = b, lup = j, ldown = k\<rparr> = Some l
    \<and> lw l = w \<and> lconn l = b \<and> cgot (lc l) = cgot c @ [m]"
proof -
  have "lreaches [LDown 0, LC CPush, LC CRead] \<lparr>lc = c, lw = w, lconn = b, lup = j, ldown = k\<rparr>
      (\<lambda>l. lw l = w \<and> lconn l = b \<and> cgot (lc l) = cgot c @ [m])"
    using assms by (simp add: link_exec cc_push_def cc_read_def chan_send_def)
  then show ?thesis by (rule lreaches_run)
qed

text \<open>In the broker: a posted message gets to the socket of a subscriber that has nothing else in its queue.\<close>

lemma post_is_written:
  assumes "broker_state u" and "BuffOverflowStrategy (Broker (cf u)) \<noteq> BufferOverflowBlock"
    and "i < length (workers u)" "workers u ! i = WIdle" "buf (posts (table u)) = [\<lparr>pm = p\<rparr>]" "pobj (heap u) p = m"
    and "\<not> Retain (Header m)" "b < nconns u" "outpos (conns u b) = OutLoop" "queue b u = []" "0 < room b u"
    and "b \<in> receivers (table_of (table u)) (TopicName m)"
  shows "\<exists>evs v. run evs u = Some v \<and> list_all (\<lambda>ev. \<not> decodes ev) evs
    \<and> wire (conns v b) = wire (conns u b) @ [Publish (set_retain False m)]"
proof -
  have "inv u" using broker_state_inv [OF assms(1)] by simp
  from worker_round [OF this assms(2,3,5)] assms(6,7)
  obtain v where v: "run_post i u = Ret v" "pobj (heap v) p = set_retain False m" "same_wires u v"
    "\<forall>c. \<exists>n. queue c v = queue c u @ replicate n (Publish p)
      \<and> (0 < n \<longleftrightarrow> c \<in> receivers (table_of (table u)) (TopicName m) \<and> 0 < room c u)"
    by auto
  then obtain n where n: "queue b v = replicate n (Publish p)" "0 < n" using assms(10-12) by (metis append_Nil)
  obtain evs where evs: "run evs u = Some v" "set evs \<subseteq> {ETake i, EDeliver i, EFinish i}"
    using run_post_run [OF v(1) assms(3,4)] by blast
  have bv: "broker_state v" using assms(1) run_reachable [OF evs(1)] unfolding broker_state_def by blast
  have fv: "nconns v = nconns u" "outpos (conns v b) = OutLoop" "wire (conns v b) = wire (conns u b)"
    using v(3) assms(9) by (simp_all add: same_wires_def)
  obtain w where w: "run (replicate 1 (EOutbound 0 True b)) v = Some w"
    "wire (conns w b) = wire (conns v b) @ map (snapshot (heap v)) (take 1 (queue b v))"
    using drain [OF bv, of b 1 0] fv n assms(8) by (cases n) auto
  have "wire (conns w b) = wire (conns u b) @ [Publish (set_retain False m)]"
    using w(2) fv(3) n v(2) by (cases n) (simp_all add: snapshot_def)
  moreover have "list_all (\<lambda>ev. \<not> decodes ev) (evs @ [EOutbound 0 True b])" using evs(2) by (auto simp: list_all_iff)
  ultimately show ?thesis using evs(1) w(1)
    by (intro exI [of _ "evs @ [EOutbound 0 True b]"] exI [of _ w]) (simp add: run_append)
qed

subsection \<open>Properties\<close>

text \<open>The goroutine \<open>i\<close> of the client at connection \<open>a\<close> can publish: it is between two calls, the queue of the client is empty
  and all it has written has been read; the broker reads from the connection, whose client has sent its CONNECT.\<close>

definition can_speak :: "nat \<Rightarrow> nat \<Rightarrow> net \<Rightarrow> bool" where
  "can_speak i a n \<longleftrightarrow>
     coutpos (ncl n a) = COutLoop \<and> (\<exists>q > 0. outq (ncl n a) = make_chan q)
     \<and> i < length (users (ncl n a)) \<and> between_calls (users (ncl n a) ! i) \<and> nup n a = length (cwire (ncl n a))
     \<and> a < nconns (nw n) \<and> inpos (conns (nw n) a) = InLoop \<and> flag (conns (nw n) a) \<noteq> None \<and> \<not> sockClosed (conns (nw n) a)"

text \<open>The client at connection \<open>b\<close> is subscribed to the topic, nothing is on its way to it and there is room.\<close>

definition can_hear :: "string \<Rightarrow> nat \<Rightarrow> net \<Rightarrow> bool" where
  "can_hear t b n \<longleftrightarrow>
     cinpos (ncl n b) = CLoop \<and> \<not> csockClosed (ncl n b) \<and> (\<exists>q > 0. Incoming (ncl n b) = make_chan q)
     \<and> ndown n b = length (wire (conns (nw n) b))
     \<and> b < nconns (nw n) \<and> outpos (conns (nw n) b) = OutLoop \<and> queue b (nw n) = [] \<and> 0 < room b (nw n)
     \<and> b \<in> receivers (table_of (table (nw n))) t"

text \<open>A worker of the broker is idle and no post waits.\<close>

definition calm_broker :: "world \<Rightarrow> bool" where
  "calm_broker w \<longleftrightarrow> broker_state w \<and> BuffOverflowStrategy (Broker (cf w)) \<noteq> BufferOverflowBlock \<and> nodes w = []
     \<and> buf (posts (table w)) = [] \<and> 0 < ccap (posts (table w)) \<and> WIdle \<in> set (workers w)"

lemma message_crosses:
  assumes "calm_broker (nw n)" "can_speak i a n" "can_hear (TopicName m) b n" "a \<noteq> b"
    and "QosLevel (Header m) = QosAtMostOnce" "\<not> Retain (Header m)"
  shows "\<exists>evs n'. nrun (NLink a (LC (CCall i (CallPublish m))) # evs) n = Some n'
    \<and> cgot (ncl n' b) = cgot (ncl n b) @ [set_retain False m]"
proof -
  obtain k where k: "k < length (workers (nw n))" "workers (nw n) ! k = WIdle"
    using assms(1) by (auto simp: calm_broker_def in_set_conv_nth)
  obtain u p where u: "inbound_step 0 True a (Decoded (Publish m)) (nw n) = Ret u"
    "buf (posts (table u)) = [\<lparr>pm = p\<rparr>]" "pobj (heap u) p = m" "table_of (table u) = table_of (table (nw n))"
    "workers u = workers (nw n)" "queue b u = queue b (nw n)" "room b u = room b (nw n)" "same_wires (nw n) u"
    using inbound_publish [of "nw n" a 0 m] assms(1,2,4) by (auto simp: calm_broker_def can_speak_def)
  have ev: "enabled (EInbound 0 True a (Decoded (Publish m))) (nw n)" using assms(2) by (simp add: can_speak_def)
  have "broker_state (nw n)" using assms(1) by (simp add: calm_broker_def)
  then have bu: "broker_state u" using bstep_event [OF ev] u(1) broker_state_step [of "nw n" u] by simp
  obtain q where q: "0 < q" "outq (ncl n a) = make_chan q" using assms(2) by (auto simp: can_speak_def)
  let ?speak = "[LC (CCall i (CallPublish m)), LC (CUser i), LC (CUser i), LC (COut 0 True), LUp 0 True]"
  have "\<exists>l. lrun ?speak \<lparr>lc = ncl n a, lw = nw n, lconn = a, lup = length (cwire (ncl n a)), ldown = ndown n a\<rparr> = Some l
      \<and> lw l = u \<and> lconn l = a \<and> users (lc l) ! i = URet RPublish"
    using assms(2,5) by (intro speak [OF _ q(2,1) _ _ _ ev u(1)]) (simp_all add: can_speak_def)
  then obtain l where l: "lrun ?speak (link_of a n) = Some l" "lw l = u" "lconn l = a"
    using assms(2) by (auto simp: link_of_def can_speak_def)
  have "nrun (map (NLink a) ?speak) n = Some (put_link l n)"
    by (rule link_of_run [OF l(1)]) simp
  moreover have fr: "cf u = cf (nw n)" "nconns u = nconns (nw n)" "outpos (conns u b) = outpos (conns (nw n) b)"
    "wire (conns u b) = wire (conns (nw n) b)" using u(8) by (simp_all add: same_wires_def)
  obtain evs v where v: "run evs u = Some v" "list_all (\<lambda>ev. \<not> decodes ev) evs"
    "wire (conns v b) = wire (conns (nw n) b) @ [Publish (set_retain False m)]"
    using post_is_written [OF bu, of k p m b] assms(1,3,6) u k fr by (auto simp: calm_broker_def can_hear_def)
  let ?n = "(put_link l n)\<lparr>nw := v\<rparr>"
  have "nrun (map NBroker evs) (put_link l n) = Some ?n"
    using v(1,2) l(2) by (intro broker_run) (simp_all add: put_link_def)
  moreover obtain h where h: "lrun [LDown 0, LC CPush, LC CRead] (link_of b ?n) = Some h" "lconn h = b"
    "cgot (lc h) = cgot (ncl n b) @ [set_retain False m]"
    using hear [of "ncl n b" "ndown n b" v b "set_retain False m" "nup n b"] assms(3,4) v(3) l(3)
    by (auto simp: can_hear_def make_chan_def link_of_def put_link_def)
  have "nrun (map (NLink b) [LDown 0, LC CPush, LC CRead]) ?n = Some (put_link h ?n)"
    by (rule link_of_run [OF h(1)]) simp
  ultimately have "nrun (map (NLink a) ?speak @ map NBroker evs @ map (NLink b) [LDown 0, LC CPush, LC CRead]) n = Some (put_link h ?n)"
    by (simp add: nrun_append del: nrun.simps list.map)
  moreover have "cgot (ncl (put_link h ?n) b) = cgot (ncl n b) @ [set_retain False m]"
    using h(2,3) by (simp add: put_link_def)
  ultimately show ?thesis by (auto simp del: nrun.simps)
qed

text \<open>C4: what one user types is what another one reads. Two chat programs are connected through clients of the library to
  one broker, in any state the broker can be in, with an idle worker, under the strategy \<^verbatim>\<open>discard\<close> and without peers;
  nothing is on its way between them and the second one is subscribed to the room. When the first user,
  whose name has no colon, types a line that is neither empty nor a command, the program makes one
  call of \<^verbatim>\<open>Publish\<close>, and from that call on the clients and the broker can run so that the second program reads
  exactly one message, on which it notes exactly the name of the first user and shows the translation of
  exactly the line.\<close>

theorem typed_line_is_shown:
  assumes "calm_broker (nw n)" and "can_speak i a n" and "can_hear (chat_topic al) b n" and "a \<noteq> b"
    and "CHR '':'' \<notin> set (chat_user al)" and "line \<noteq> ''''" "line \<notin> set commands" "newline \<notin> set line"
  shows "\<exists>al' call evs n' m. cliLoop e web (line @ [newline]) [] al = Ret al' \<and> ccalls al' = ccalls al @ [call]
    \<and> nrun (NLink a (LC (CCall i call)) # evs) n = Some n' \<and> cgot (ncl n' b) = cgot (ncl n b) @ [m]
    \<and> sub_round web m bo = Ret (bo\<lparr>onlineUsers := List.insert (chat_user al) (onlineUsers bo),
        screen := screen bo @ [Received (chat_topic al) (chat_user al @ '':'' @ line), Translated (chat_topic al) (translate web line)]\<rparr>)"
proof -
  let ?m = "chat_publish al line"
  have "said (line @ [newline]) = [line]" using said_line [OF assms(8), of "[]"] assms(6,7) said_none [of "[]"] by simp
  then obtain al' where al': "cliLoop e web (line @ [newline]) [] al = Ret al'" "ccalls al' = ccalls al @ [CallPublish ?m]"
    using cliLoop_calls [of "[]" e web "line @ [newline]" al] by auto
  have m: "TopicName ?m = chat_topic al" "QosLevel (Header ?m) = QosAtMostOnce" "\<not> Retain (Header ?m)" "set_retain False ?m = ?m"
    "string_of (Payload ?m) = chat_user al @ CHR '':'' # line"
    by (simp_all add: chat_publish_def zero_header_def set_retain_def)
  obtain evs n' where "nrun (NLink a (LC (CCall i (CallPublish ?m))) # evs) n = Some n'" "cgot (ncl n' b) = cgot (ncl n b) @ [?m]"
    using message_crosses [OF assms(1,2) _ assms(4) m(2,3)] assms(3) m(1,4) by metis
  moreover have "sub_round web ?m bo = Ret (bo\<lparr>onlineUsers := List.insert (chat_user al) (onlineUsers bo),
        screen := screen bo @ [Received (chat_topic al) (chat_user al @ '':'' @ line), Translated (chat_topic al) (translate web line)]\<rparr>)"
    using sub_round_spoken [OF m(5) assms(5)] m(1) by (simp add: display_def)
  ultimately show ?thesis using al' by blast
qed

definition room_events :: "event list" where
  "room_events = [EAccept 0, got 0 (Connect (connect_as ''a'')), EAccept 1, got 1 (Connect (connect_as ''b'')),
     got 1 (Subscribe zero_header 1 [\<lparr>Topic = ''funplus'', Qos = QosAtMostOnce\<rparr>]), EOutbound 5 True 1, EOutbound 6 True 1]"

definition room_world :: world where
  "room_world = the (run room_events small_broker)"

lemma room_run:
  "reaches room_events small_broker (\<lambda>w. BuffOverflowStrategy (Broker (cf w)) \<noteq> BufferOverflowBlock \<and> nodes w = []
     \<and> nconns w = 2 \<and> inpos (conns w 0) = InLoop \<and> flag (conns w 0) \<noteq> None \<and> \<not> sockClosed (conns w 0)
     \<and> buf (posts (table w)) = [] \<and> 0 < ccap (posts (table w)) \<and> WIdle \<in> set (workers w)
     \<and> outpos (conns w 1) = OutLoop \<and> 0 < room 1 w \<and> queue 1 w = []
     \<and> 1 \<in> lookup_conns (env w) ''funplus'' (table w))"
  by (simp add: reaches_def room_events_def exec room_def queue_def lookup_conns_def)

lemmas room_world = reaches_the [OF room_run, folded room_world_def]
  small_broker_run [OF room_run, folded room_world_def]

definition room_net :: net where
  "room_net = \<lparr>ncl = (\<lambda>_. NewClientConn 100 ''c'' 600 1), nw = room_world, nup = (\<lambda>_. 0),
     ndown = (\<lambda>d. length (wire (conns room_world d)))\<rparr>"

theorem typed_line_is_shown_witness:
  "\<exists>n' evs call m d. nrun (NLink 0 (LC (CCall 0 call)) # evs) room_net = Some n' \<and> cgot (ncl n' 1) = [m]
     \<and> sub_round \<lparr>http_get = (\<lambda>_. Inl ''offline''), elapsed = (\<lambda>_. ''0s'')\<rparr> m bob = Ret d \<and> onlineUsers d = [''bob'']"
proof -
  have "subs_wf (table room_world)" using broker_state_inv [OF room_world(2)] by (simp add: inv_def)
  moreover have "1 \<in> lookup_conns (env room_world) ''funplus'' (table room_world)" using room_world(1) by simp
  ultimately have rec: "1 \<in> receivers (table_of (table room_world)) ''funplus''" by (simp only: lookup_conns_receivers)
  have n: "calm_broker (nw room_net)" "can_speak 0 0 room_net" "can_hear (chat_topic bob) 1 room_net"
    using room_world rec
    by (auto simp: calm_broker_def can_speak_def can_hear_def room_net_def NewClientConn_def between_calls_def bob_def
        intro: exI [of _ 100])
  have c: "CHR '':'' \<notin> set (chat_user bob)" "''hi: all'' \<noteq> ''''" "''hi: all'' \<notin> set commands" "newline \<notin> set ''hi: all''"
    by (simp_all add: bob_def commands_def newline_def)
  have f: "cgot (ncl room_net 1) = []" "onlineUsers bob = []" "chat_user bob = ''bob''"
    by (simp_all add: room_net_def NewClientConn_def bob_def)
  let ?web = "\<lparr>http_get = (\<lambda>_. Inl ''offline''), elapsed = (\<lambda>_. ''0s'')\<rparr>"
  obtain al' call evs n' m where "nrun (NLink 0 (LC (CCall 0 call)) # evs) room_net = Some n'"
    "cgot (ncl n' 1) = cgot (ncl room_net 1) @ [m]"
    "sub_round ?web m bob = Ret (bob\<lparr>onlineUsers := List.insert (chat_user bob) (onlineUsers bob),
        screen := screen bob @ [Received (chat_topic bob) (chat_user bob @ '':'' @ ''hi: all''),
          Translated (chat_topic bob) (translate ?web ''hi: all'')]\<rparr>)"
    using typed_line_is_shown [OF n(1,2,3) zero_neq_one c, where e = doubling_env and web = ?web and bo = bob]
    by (elim exE conjE) (rule that)
  then show ?thesis using f by (intro exI conjI) (assumption | simp)+
qed

end
