(* ===== verification/Cluster.thy ===== *)
theory Cluster
  imports Delivery
begin

section \<open>Two brokers: replication from end to end\<close>

text \<open>
  The path of a replicated message, across two brokers: \<open>replicate_pub\<close> at the first
  (\<^verbatim>\<open>peers.replicate\<close>), the goroutine of its endpoint (\<^verbatim>\<open>endpoint.start\<close> and
  \<^verbatim>\<open>runSession\<close>, the steps \<open>ep_step\<close>) and \<open>replay\<close> at the second (\<^verbatim>\<open>peers.replay\<close>), which
  reads what the endpoint wrote.
\<close>

lemma enqueue_frame [simp]:
  "ecf (enqueue m p) = ecf p" "epos (enqueue m p) = epos p" "running (enqueue m p) = running p"
  "ealive (enqueue m p) = ealive p" "ccap (ejobs (enqueue m p)) = ccap (ejobs p)"
  by (simp_all add: enqueue_def)

lemma enqueue_batch:
  "ealive p \<Longrightarrow> length (buf (ejobs p)) + length ms \<le> ccap (ejobs p) \<Longrightarrow>
   fold enqueue ms p = p\<lparr>ejobs := (ejobs p)\<lparr>buf := buf (ejobs p) @ map (\<lambda>m. \<lparr>jm = m, jr = None\<rparr>) ms\<rparr>\<rparr>"
  by (induction ms arbitrary: p) (simp_all add: enqueue_def)

text \<open>A batch of published messages reaches the queue of every endpoint in order.\<close>

lemma replicate_batch:
  assumes "inv w"
    and "\<And>h p. map_of (nodes w) h = Some p \<Longrightarrow> PBuffOverflowStrategy (ecf p) \<noteq> BufferOverflowBlock"
  shows "\<exists>ns. forG ms replicate_pub w = Ret (w\<lparr>nodes := ns\<rparr>)
    \<and> (\<forall>h. map_of ns h = map_option (fold enqueue (map Publish ms)) (map_of (nodes w) h))"
  using assms
proof (induction ms arbitrary: w)
  case Nil
  show ?case by (rule exI [of _ "nodes w"]) (simp add: option.map_id0 [unfolded id_def])
next
  case (Cons m ms)
  obtain ns where ns: "replicate_pub m w = Ret (w\<lparr>nodes := ns\<rparr>)"
    "\<And>h. map_of ns h = map_option (enqueue (Publish m)) (map_of (nodes w) h)"
    using replicate_pub_enqueues [of w m] Cons.prems by blast
  have "inv (w\<lparr>nodes := ns\<rparr>)" using keeps_Ret [OF keeps_replicate Cons.prems(1) ns(1)] .
  moreover have "PBuffOverflowStrategy (ecf p) \<noteq> BufferOverflowBlock"
    if "map_of (nodes (w\<lparr>nodes := ns\<rparr>)) h = Some p" for h p
    using that Cons.prems(2) by (auto simp: ns(2))
  ultimately obtain ns' where "forG ms replicate_pub (w\<lparr>nodes := ns\<rparr>) = Ret (w\<lparr>nodes := ns'\<rparr>)"
    "\<And>h. map_of ns' h = map_option (fold enqueue (map Publish ms)) (map_of ns h)"
    using Cons.IH [of "w\<lparr>nodes := ns\<rparr>"] by auto
  with ns show ?case by (intro exI [of _ ns']) (simp add: option.map_comp o_def)
qed

text \<open>An endpoint that has not dialled yet connects and writes its queue out.\<close>

lemma ep_dials_and_forwards:
  assumes "epos p = Dialing" and "running p"
  shows "\<exists>t. ep_run e h (True # map (\<lambda>_. True) (buf (ejobs p))) \<lparr>ep = p, estats = s, ewire = []\<rparr> = Ret t
    \<and> buf (ejobs (ep t)) = [] \<and> ewire t = map (\<lambda>j. snapshot h (jm j)) (buf (ejobs p))"
  using ep_run_forwards [of "\<lparr>ep = p\<lparr>ealive := True, epos := Ranging\<rparr>, estats = s, ewire = []\<rparr>" _ e h, OF _ refl] assms
  by (auto simp: ep_step_def)

text \<open>A broker posts what it reads from a peer in the order it comes; the objects it allocates do
  not touch those already there.\<close>

lemma replay_batch:
  assumes "\<not> closed (posts (table v))"
    and "length (buf (posts (table v))) + length pubs \<le> ccap (posts (table v))"
  shows "\<exists>v' qs. replay (map Publish pubs) v = Ret v' \<and> nodes v' = nodes v \<and> conns v' = conns v
    \<and> buf (posts (table v')) = buf (posts (table v)) @ qs
    \<and> map (\<lambda>po. pobj (heap v') (pm po)) qs = pubs
    \<and> (\<forall>q < pnext (heap v). pobj (heap v') q = pobj (heap v) q)"
  using assms
proof (induction pubs arbitrary: v)
  case (Cons pub pubs)
  let ?q = "pnext (heap v)"
  let ?v = "v\<lparr>heap := snd (alloc_pub pub (heap v)), table := (table v)\<lparr>posts := (posts (table v))\<lparr>buf :=
    buf (posts (table v)) @ [\<lparr>pm = ?q\<rparr>]\<rparr>\<rparr>\<rparr>"
  have one: "replay_msg (Publish pub) v = Ret ?v"
    using Cons.prems by (simp add: replay_msg_def receive_def alloc_pub_def submitPost_def submit_post_def chan_send_def)
  obtain v' qs where *: "replay (map Publish pubs) ?v = Ret v'" "nodes v' = nodes v" "conns v' = conns v"
    "buf (posts (table v')) = buf (posts (table v)) @ [\<lparr>pm = ?q\<rparr>] @ qs"
    "map (\<lambda>po. pobj (heap v') (pm po)) qs = pubs"
    "\<And>q. q < Suc ?q \<Longrightarrow> pobj (heap v') q = pobj (snd (alloc_pub pub (heap v))) q"
    using Cons.IH [of ?v] Cons.prems by (auto simp: alloc_pub_def)
  have "pobj (heap v') ?q = pub" using *(6) [of ?q] by (simp add: alloc_pub_def)
  moreover have "pobj (heap v') q = pobj (heap v) q" if "q < ?q" for q
    using *(6) [of q] that by (simp add: alloc_pub_def)
  ultimately show ?case
    using one *(1-5) by (intro exI [of _ v'] exI [of _ "\<lparr>pm = ?q\<rparr> # qs"]) simp
qed (auto simp: upd_stats_def)


definition source_events :: "event list" where
  "source_events = [EJoin ''p1'', EReplay (Publish (says ''t'' QosAtMostOnce False [1])),
     EReplay (Publish (says ''t'' QosAtMostOnce True [2]))]"

definition source_broker :: world where
  "source_broker = the (run source_events peers_broker)"

lemma source_run:
  "reaches source_events peers_broker (\<lambda>w. (\<exists>p. nodes w = [(''p1'', p)] \<and> ealive p \<and> running p \<and> epos p = Dialing
       \<and> buf (ejobs p) = [] \<and> 2 \<le> ccap (ejobs p) \<and> PBuffOverflowStrategy (ecf p) \<noteq> BufferOverflowBlock)
     \<and> pobj (heap w) 0 = says ''t'' QosAtMostOnce False [1] \<and> pobj (heap w) 1 = says ''t'' QosAtMostOnce True [2])"
  by (simp add: reaches_def source_events_def peers_broker_def peers_config_def exec join_def newEndpoint_def
      zero_peers_def replay_msg_def receive_def)

lemmas source_broker = reaches_the [OF source_run, folded source_broker_def]
  reaches_state [OF peers_broker_started source_run, folded source_broker_def]

lemma small_broker_idle:
  "broker_state small_broker \<and> buf (posts (table small_broker)) = [] \<and> 2 \<le> ccap (posts (table small_broker))"
  using small_broker_state [of "[]"] by (simp add: exec)


end
