(* ===== verification/Flight.thy ===== *)
theory Flight
  imports Prelude "HOL-Library.Word"
begin

section \<open>Messages in flight: \<^verbatim>\<open>broker/flight.go\<close>\<close>

text \<open>
  The table of messages that wait for an acknowledgement. The server makes one; the bodies of its three
  operations are empty and nothing calls them, so no message is ever found in flight: the
  persistence of messages is that of the stores (\<^verbatim>\<open>Store\<close>).
\<close>

definition pendingPub :: "8 word" where "pendingPub = 1"
definition pendingAck :: "8 word" where "pendingAck = 2"

record flightMessage =
  Qos :: "8 word"
  DestClientId :: string
  Status :: "8 word"
  MessageInternalId :: "64 word"
  ClientMessageId :: "16 word"

text \<open>The only field of \<^verbatim>\<open>flights\<close> is a mutex that is never taken.\<close>

datatype flights = flights

definition newFlights :: flights where
  "newFlights = flights"

definition getFlyingMessages :: "string \<Rightarrow> flights \<Rightarrow> flights" where
  "getFlyingMessages clientId this = this"

definition setFlyingMessage :: "string \<Rightarrow> (16 word \<rightharpoonup> flightMessage) \<Rightarrow> flights \<Rightarrow> flights" where
  "setFlyingMessage clientId messages this = this"

definition resetFlyingMessages :: "string \<Rightarrow> flights \<Rightarrow> flights" where
  "resetFlyingMessages clientId this = this"

text \<open>Two tables filled with different messages cannot be told apart afterwards: the operations keep
  nothing.\<close>

lemma flights_forget:
  "setFlyingMessage c m f = setFlyingMessage c' m' f"
  "getFlyingMessages c (setFlyingMessage c m f) = getFlyingMessages c (resetFlyingMessages c f)"
  by (simp_all add: setFlyingMessage_def getFlyingMessages_def resetFlyingMessages_def)

end
