(* ===== verification/Reporting.thy ===== *)
theory Reporting
  imports Stats
begin

section \<open>The reporting loop and its HTTP interface: \<^verbatim>\<open>broker/stats.go\<close>\<close>

text \<open>
  \<open>stats_start\<close> is the goroutine \<^verbatim>\<open>stats.start\<close>: it creates a ticker, which panics for an interval that
  is not positive, and reports at every tick. A tick is what the runtime and the kernel say at that moment
  (\<open>sample\<close>) and the counters as they are then. The results are the lines it has logged; a division by
  zero ends the process. The percentages of CPU time are floats in the code and exact fractions here.

  \<open>handleHttpQuery\<close> is the handler of \<^verbatim>\<open>/s/{cmd}\<close>. What it reports of the process is the parameter
  \<open>process\<close>; the HTTP server and the router are third-party packages: \<open>launchHttpServ\<close> is what they are asked
  to serve.
\<close>

subsection \<open>The loop\<close>

record rusage =
  UtimeSec :: int64
  UtimeUsec :: int64
  StimeSec :: int64
  StimeUsec :: int64

record sample =
  NumGC :: nat
  PauseTotalNs :: nat
  HeapSys :: nat
  HeapAlloc :: nat
  HeapIdle :: nat
  HeapReleased :: nat
  Goroutines :: nat
  usage :: rusage

record reporter =
  lastUserTime :: int64
  lastSysTime :: int64
  lastPackets :: int64

record report =
  goroutines :: nat
  gcPauseMs :: nat
  gcRuns :: nat
  gcMean :: nat
  heapSizes :: "nat list"
  userCpuUtil :: "int \<times> int"
  sysCpuUtil :: "int \<times> int"
  throughput :: int64
  counters :: string
  byteCounts :: "int64 list"

definition new_reporter :: reporter where
  "new_reporter = \<lparr>lastUserTime = 0, lastSysTime = 0, lastPackets = 0\<rparr>"

definition cpu_time :: "int64 \<Rightarrow> int64 \<Rightarrow> int64" where
  "cpu_time sec usec = sec * 1000000000 + usec"

text \<open>A percentage, as its numerator and denominator.\<close>

definition cpu_util :: "int64 \<Rightarrow> int64 \<Rightarrow> stats \<Rightarrow> int \<times> int" where
  "cpu_util t before st = (sint (t - before) * 100, interval st)"

text \<open>One round. The order of the divisions does not matter: either of them panics.\<close>

definition stats_round :: "sample \<Rightarrow> stats \<Rightarrow> reporter \<Rightarrow> (report \<times> reporter) option" where
  "stats_round x st p =
     (let userTime = cpu_time (UtimeSec (usage x)) (UtimeUsec (usage x));
          sysTime = cpu_time (StimeSec (usage x)) (StimeUsec (usage x)) in
      case stats_tick (PauseTotalNs x) (NumGC x) (lastPackets p) st of
        None \<Rightarrow> None
      | Some (tp, mean, packets) \<Rightarrow>
          Some (\<lparr>goroutines = Goroutines x, gcPauseMs = PauseTotalNs x div 1000000, gcRuns = NumGC x, gcMean = mean,
                  heapSizes = [HeapSys x, HeapAlloc x, HeapIdle x, HeapReleased x],
                  userCpuUtil = cpu_util userTime (lastUserTime p) st, sysCpuUtil = cpu_util sysTime (lastSysTime p) st,
                  throughput = tp, counters = stats_String st, byteCounts = [inBytes st, outBytes st, replBytes st]\<rparr>,
                \<lparr>lastUserTime = userTime, lastSysTime = sysTime, lastPackets = packets\<rparr>))"

fun stats_loop :: "(sample \<times> stats) list \<Rightarrow> reporter \<Rightarrow> report list \<Rightarrow> report list res" where
  "stats_loop [] p logged = Ret logged"
| "stats_loop ((x, st) # ticks) p logged =
     (case stats_round x st p of
        None \<Rightarrow> Panic (Raised ''integer divide by zero'') logged
      | Some (r, p') \<Rightarrow> stats_loop ticks p' (logged @ [r]))"

definition stats_start :: "stats \<Rightarrow> (sample \<times> stats) list \<Rightarrow> report list res" where
  "stats_start st ticks =
     (if interval st \<le> 0 then Panic (Raised ''non-positive interval for NewTicker'') []
      else stats_loop ticks new_reporter [])"

subsection \<open>HTTP\<close>

record process =
  BuildId :: string
  callStack :: string
  numGoroutine :: nat
  memStats :: sample
  selfUsage :: rusage

datatype outval = OString string | ONumber nat | OMemory sample | OUsage rusage | OLinks "string list"

definition launchHttpServ :: "stats \<Rightarrow> (string \<times> string \<times> string \<times> string) option" where
  "launchHttpServ st =
     (if statsListenAddr st = '''' then None
      else Some (statsListenAddr st, profListenAddr st, ''/s/{cmd}'', ''GET''))"

definition links :: "string list" where
  "links = [''/s/ping'', ''/s/ver'', ''s/sys'', ''/s/stat'', ''/s/trace'']"

definition query_output :: "process \<Rightarrow> stats \<Rightarrow> string \<Rightarrow> (string \<rightharpoonup> outval)" where
  "query_output pr st cmd =
     (if cmd = ''ping'' then [''status'' \<mapsto> OString ''ok'']
      else if cmd = ''ver'' then [''ver'' \<mapsto> OString (BuildId pr)]
      else if cmd = ''trace'' then [''callstack'' \<mapsto> OString (take (2 ^ 20) (callStack pr))]
      else if cmd = ''sys'' then
        [''goroutines'' \<mapsto> ONumber (numGoroutine pr), ''memory'' \<mapsto> OMemory (memStats pr), ''rusage'' \<mapsto> OUsage (selfUsage pr)]
      else if cmd = ''stat'' then [''stats'' \<mapsto> OString (stats_String st)]
      else Map.empty)"

definition handleHttpQuery :: "process \<Rightarrow> stats \<Rightarrow> string \<Rightarrow> (string \<rightharpoonup> outval)" where
  "handleHttpQuery pr st cmd =
     (let output = (query_output pr st cmd)(''links'' \<mapsto> OLinks links) in
      if profListenAddr st \<noteq> ''''
      then output(''pprof'' \<mapsto> OString (''http://'' @ profListenAddr st @ ''/debug/pprof/''))
      else output)"

subsection \<open>Lemmas\<close>

text \<open>The CPU time: microseconds are added to nanoseconds, so that all but a thousandth of each fraction of a
  second is lost.\<close>

lemma cpu_time_loses_fractions:
  "cpu_time sec usec = (sec * 1000000000 + usec * 1000) - 999 * usec"
  by (simp add: cpu_time_def algebra_simps)

text \<open>The links lead to commands that are answered, except the one of \<^verbatim>\<open>sys\<close>, which lacks its slash.\<close>

lemma links_are_answered:
  "\<forall>l \<in> set links. (\<exists>cmd. l = ''/s/'' @ cmd \<and> query_output pr st cmd \<noteq> Map.empty) \<longleftrightarrow> l \<noteq> ''s/sys''"
  by (auto simp: links_def query_output_def)

lemma stats_round_None:
  assumes "NumGC x < 2 ^ 32"
  shows "stats_round x st p = None \<longleftrightarrow> \<bar>interval st\<bar> < 1000000000 \<or> NumGC x = 0"
  unfolding stats_round_def Let_def stats_tick_panics_iff [OF assms, of "PauseTotalNs x" "lastPackets p" st, symmetric]
  by (auto split: option.split)

lemma stats_round_packets: "stats_round x st p = Some (r, p') \<Longrightarrow> lastPackets p' = recvN st + sentN st
    \<and> throughput r = word_of_int (trunc_div (sint (recvN st + sentN st - lastPackets p)) (interval_seconds st))"
  by (auto simp: stats_round_def stats_tick_def Let_def split: if_splits)

lemma stats_loop_outcome:
  assumes "\<forall>(x, st) \<in> set ticks. NumGC x < 2 ^ 32 \<and> interval st = i" and "0 < i"
  shows "if ticks \<noteq> [] \<and> (i < 1000000000 \<or> (\<exists>(x, st) \<in> set ticks. NumGC x = 0)) then panics (stats_loop ticks p logged)
    else \<exists>rs. stats_loop ticks p logged = Ret (logged @ rs) \<and> length rs = length ticks"
  using assms
proof (induction ticks arbitrary: p logged)
  case (Cons t ticks)
  obtain x st where t: "t = (x, st)" by (cases t)
  with Cons.prems have x: "NumGC x < 2 ^ 32" "interval st = i" by auto
  show ?case
  proof (cases "stats_round x st p")
    case None
    with x stats_round_None [OF x(1), of st p] Cons.prems(2) have "i < 1000000000 \<or> NumGC x = 0" by simp
    with None t show ?thesis by auto
  next
    case (Some rp)
    then have ok: "\<not> i < 1000000000" "NumGC x \<noteq> 0" using x stats_round_None [OF x(1), of st p] Cons.prems(2) by auto
    obtain r p' where rp: "rp = (r, p')" by (cases rp)
    from Cons.IH [of p' "logged @ [r]"] Cons.prems
    have "if ticks \<noteq> [] \<and> (i < 1000000000 \<or> (\<exists>(x, st) \<in> set ticks. NumGC x = 0)) then panics (stats_loop ticks p' (logged @ [r]))
      else \<exists>rs. stats_loop ticks p' (logged @ [r]) = Ret ((logged @ [r]) @ rs) \<and> length rs = length ticks" by simp
    with ok Some t rp show ?thesis by (fastforce split: if_splits)
  qed
qed simp

subsection \<open>Properties\<close>

text \<open>C31: the reporting loop takes the process down exactly in three cases: the configured interval is not positive,
  or a tick comes and the interval is shorter than a second, or no garbage collection has run by then. In all
  other cases it logs one report for each tick. (The number of collections is a 32 bit counter, the
  interval does not change.)\<close>

theorem stats_start_panics_iff:
  assumes "\<forall>(x, s) \<in> set ticks. NumGC x < 2 ^ 32 \<and> interval s = interval st"
  shows "if interval st \<le> 0 \<or> ticks \<noteq> [] \<and> (interval st < 1000000000 \<or> (\<exists>(x, s) \<in> set ticks. NumGC x = 0))
    then panics (stats_start st ticks)
    else \<exists>rs. stats_start st ticks = Ret rs \<and> length rs = length ticks"
proof (cases "interval st \<le> 0")
  case False
  with stats_loop_outcome [OF assms, of new_reporter "[]"] show ?thesis
    by (auto simp: stats_start_def split: if_splits)
qed (simp add: stats_start_def)

definition first_tick :: "sample \<times> stats" where
  "first_tick = (\<lparr>NumGC = 0, PauseTotalNs = 5, HeapSys = 0, HeapAlloc = 0, HeapIdle = 0, HeapReleased = 0, Goroutines = 4,
     usage = \<lparr>UtimeSec = 1, UtimeUsec = 500000, StimeSec = 0, StimeUsec = 0\<rparr>\<rparr>, new_stats 60000000000 '''' '''')"

theorem stats_start_panics_iff_witness:
  "panics (stats_start (new_stats 60000000000 '''' '''') [first_tick]) \<and> panics (stats_start (new_stats 0 '''' '''') [])"
  using stats_start_panics_iff [of "[first_tick]" "new_stats 60000000000 '''' ''''"] stats_start_panics_iff [of "[]" "new_stats 0 '''' ''''"]
  by (simp add: first_tick_def new_stats_def)

end
