(* ===== verification/Startup.thy ===== *)
theory Startup
  imports Traces Reporting
begin

section \<open>Starting the daemon: \<^verbatim>\<open>broker/server.go\<close>, \<^verbatim>\<open>broker/peers.go\<close>, \<^verbatim>\<open>daemon/mhub\<close>\<close>

text \<open>
  \<open>mhub_main\<close> is \<^verbatim>\<open>main\<close> of the daemon: it loads the configuration, makes the server and starts it; a panic on
  the way is recovered and printed. The operating system is the parameter \<open>osys\<close>: the error, if any, of
  listening on an address and of loading a key pair. The command line flags are given by the
  record \<open>mhub_option\<close>; \<open>load\<close> is what the package that reads the file makes of it. The profiler and
  logging are left out.

  \<open>Start\<close> opens the two listeners and starts the accept loops; the loop for clients is the step \<open>accept\<close> of the
  broker and the one for peers is \<open>peer_accept\<close>. Neither loop ends, so that \<open>Stop\<close>, which closes \<^verbatim>\<open>Done\<close>, is never
  reached from \<^verbatim>\<open>Start\<close>.
\<close>

subsection \<open>The server\<close>

record osys =
  tcp_listen :: "string \<Rightarrow> string option"
  tls_listen :: "string \<Rightarrow> string option"
  load_key_pair :: "string \<Rightarrow> string \<Rightarrow> string option"

datatype listener = TcpListener string | TlsListener string

record Server =
  sworld :: world
  presence :: RedisStore
  listeners :: "listener list"
  DoneClosed :: bool

definition startListener :: "osys \<Rightarrow> BrokerConfig \<Rightarrow> string + listener" where
  "startListener os b =
     (if ListenAddr b \<noteq> '''' then
        (case tcp_listen os (ListenAddr b) of
           Some err \<Rightarrow> Inl err
         | None \<Rightarrow> Inr (TcpListener (ListenAddr b)))
      else
        (case load_key_pair os (TlsServerCert b) (TlsServerKey b) of
           Some err \<Rightarrow> Inl err
         | None \<Rightarrow>
             (case tls_listen os (TlsListenAddr b) of
                Some err \<Rightarrow> Inl err
              | None \<Rightarrow> Inr (TlsListener (TlsListenAddr b)))))"

text \<open>\<^verbatim>\<open>discover\<close> logs and returns.\<close>

definition discover :: "world \<Rightarrow> world" where
  "discover w = w"

definition peers_start :: "osys \<Rightarrow> string \<Rightarrow> world \<Rightarrow> (string + listener) \<times> world" where
  "peers_start os listenAddr w =
     (let w1 = discover w in
      case tcp_listen os listenAddr of
        Some err \<Rightarrow> (Inl err, w1)
      | None \<Rightarrow> (Inr (TcpListener listenAddr), w1))"

text \<open>\<^verbatim>\<open>NewServer\<close> with the part of the server that is not state of the broker.\<close>

definition new_Server :: "Config \<Rightarrow> world \<Rightarrow> Server" where
  "new_Server c w = \<lparr>sworld = w, presence = NewPresence (Redis c), listeners = [], DoneClosed = False\<rparr>"

definition Start :: "osys \<Rightarrow> Server \<Rightarrow> Server res" where
  "Start os s =
     (case startListener os (Broker (cf (sworld s))) of
        Inl err \<Rightarrow> Panic (Raised err) s
      | Inr l \<Rightarrow>
          (let s1 = s\<lparr>listeners := listeners s @ [l]\<rparr> in
           case peers_start os (PListenAddr (Peers (cf (sworld s1)))) (sworld s1) of
             (Inl err, w) \<Rightarrow> Panic (Raised err) (s1\<lparr>sworld := w\<rparr>)
           | (Inr pl, w) \<Rightarrow> Ret (s1\<lparr>sworld := w, listeners := listeners s1 @ [pl]\<rparr>)))"

definition Stop :: "Server \<Rightarrow> Server res" where
  "Stop s = (if DoneClosed s then Panic CloseOfClosed s else Ret (s\<lparr>DoneClosed := True\<rparr>))"

text \<open>A connection of a peer, from its accept to its end: \<open>ms\<close> is what it sends.\<close>

definition peer_accept :: "publish message list \<Rightarrow> world \<Rightarrow> world res" where
  "peer_accept ms w = replay ms (upd_stats peerConnect w)"

subsection \<open>The daemon\<close>

record mhub_option =
  configFile :: string
  showVersion :: bool
  crashLogFile :: string
  logFile :: string
  logLevel :: string
  cpuProf :: bool
  memProf :: bool
  blockProf :: bool

text \<open>The defaults of the flags.\<close>

definition default_option :: mhub_option where
  "default_option = \<lparr>configFile = ''etc/mhub.cf'', showVersion = False, crashLogFile = ''panic.dump'', logFile = ''stdout'',
     logLevel = ''debug'', cpuProf = False, memProf = False, blockProf = False\<rparr>"

datatype outcome = ShowedVersion | Recovered panic | WaitsForDone Server | Returned | Stuck

definition mhub_main ::
  "osys \<Rightarrow> (string \<Rightarrow> string \<Rightarrow> conf option) \<Rightarrow> env \<Rightarrow> (bool \<Rightarrow> bytes \<times> bool) \<Rightarrow> mhub_option \<Rightarrow> outcome" where
  "mhub_main os load e ms opt =
     (if showVersion opt then ShowedVersion
      else
        (case LoadConfig (load (configFile opt)) of
           Ret c \<Rightarrow>
             (case NewServer c e ms of
                Ret w \<Rightarrow>
                  (case Start os (new_Server c w) of
                     Ret s \<Rightarrow> if DoneClosed s then Returned else WaitsForDone s
                   | Panic p s \<Rightarrow> Recovered p
                   | Block s \<Rightarrow> Stuck)
              | Panic p w \<Rightarrow> Recovered p
              | Block w \<Rightarrow> Stuck)
         | Panic p c \<Rightarrow> Recovered p
         | Block c \<Rightarrow> Stuck))"

subsection \<open>Lemmas\<close>

lemma replay_keeps_peer_count:
  "replay ms w = Ret w' \<Longrightarrow> peersN (stats w') = peersN (stats w) - 1"
proof (induction ms arbitrary: w)
  case (Cons m ms)
  then obtain w1 where w1: "replay_msg m w = Ret w1" "replay ms w1 = Ret w'" by (cases "replay_msg m w") auto
  then have "stats w1 = stats w"
    by (auto simp: replay_msg_def submitPost_def split: prod.splits message.splits)
  with w1 Cons.IH show ?case by simp
qed (auto simp: upd_stats_def peerDisconnect_def)

lemma peer_accept_balanced: "peer_accept ms w = Ret w' \<Longrightarrow> peersN (stats w') = peersN (stats w)"
  unfolding peer_accept_def by (drule replay_keeps_peer_count) (simp add: upd_stats_def peerConnect_def)

lemma LoadConfig_sections:
  assumes "section ''broker'' = Some b" "section ''peers'' = Some q"
    and "\<not> (cfString b ''listen_addr'' '''' = '''' \<and> cfString b ''tls_listen_addr'' '''' = '''')"
  shows "\<exists>c. LoadConfig section = Ret c \<and> ListenAddr (Broker c) = cfString b ''listen_addr'' ''''
    \<and> TlsListenAddr (Broker c) = cfString b ''tls_listen_addr'' ''''
    \<and> (cfString b ''tls_listen_addr'' '''' \<noteq> '''' \<longrightarrow> TlsServerCert (Broker c) = cfString b ''tls_server_cert'' ''server.crt''
        \<and> TlsServerKey (Broker c) = cfString b ''tls_server_key'' ''server.key'')
    \<and> SubscriptionsQueueLen (Broker c) = cfInt b ''subscriptions_queue_len'' 500
    \<and> StatsInterval (Broker c) = cfDuration b ''stats_interval'' (10 * Minute)
    \<and> PListenAddr (Peers c) = cfString q ''listen_addr'' '':9090''"
  using assms
  by (cases "section ''redis''") (simp_all add: LoadConfig_def loadBroker_def loadPeers_def Let_def)

subsection \<open>Properties\<close>

text \<open>What the daemon needs: an address to listen on that can be opened, the plain one if it is set and the TLS one
  with its key pair otherwise, a queue length that is not negative, and the address for peers.\<close>

definition can_serve :: "osys \<Rightarrow> conf \<Rightarrow> conf \<Rightarrow> bool" where
  "can_serve os b q \<longleftrightarrow>
     (if cfString b ''listen_addr'' '''' \<noteq> '''' then tcp_listen os (cfString b ''listen_addr'' '''') = None
      else cfString b ''tls_listen_addr'' '''' \<noteq> ''''
        \<and> load_key_pair os (cfString b ''tls_server_cert'' ''server.crt'') (cfString b ''tls_server_key'' ''server.key'') = None
        \<and> tls_listen os (cfString b ''tls_listen_addr'' '''') = None)
     \<and> 0 \<le> cfInt b ''subscriptions_queue_len'' 500
     \<and> tcp_listen os (cfString q ''listen_addr'' '':9090'') = None"


definition listening :: osys where
  "listening = \<lparr>tcp_listen = (\<lambda>a. if a = '':1883'' \<or> a = '':9090'' then None else Some ''in use''),
     tls_listen = (\<lambda>_. Some ''in use''), load_key_pair = (\<lambda>_ _. Some ''no such file'')\<rparr>"

definition plain_section :: conf where
  "plain_section = empty_section\<lparr>cfString := (\<lambda>k d. if k = ''listen_addr'' then '':1883'' else d)\<rparr>"


end
