(* ===== verification/Discovery.thy ===== *)
theory Discovery
  imports Go_Strings
begin

section \<open>Finding the cluster: \<^verbatim>\<open>cluster/discovery.go\<close>\<close>

text \<open>
  A machine registers itself in etcd, tries to become the leader by creating the key \<^verbatim>\<open>_state\<close>, and
  otherwise lists the machines registered before. etcd and its client are other programs: the three
  calls the code makes are the record \<open>etcd\<close> over an arbitrary state \<open>'s\<close>, and \<open>etcd_ok\<close> is what
  its documentation says of them when the service is up. \<open>path_join\<close> is \<^verbatim>\<open>path.Join\<close>. The argument of
  \<open>Do\<close> is what \<^verbatim>\<open>url.Parse\<close> makes of the discovery URL (its path), or its failure.

  \<open>dstep\<close> is \<open>Do\<close> cut at its etcd calls, so that several machines can run at once; \<open>drun\<close> runs any
  number of them under any schedule, each with its heartbeat goroutine.
\<close>

subsection \<open>Paths\<close>

definition Sep :: char where "Sep = CHR ''/''"

text \<open>\<^verbatim>\<open>path.Clean\<close> on the elements of a path; \<open>out\<close> holds the elements kept, last first.\<close>

fun clean_parts :: "bool \<Rightarrow> string list \<Rightarrow> string list \<Rightarrow> string list" where
  "clean_parts rooted out [] = rev out"
| "clean_parts rooted out (p # ps) =
     (if p = '''' \<or> p = ''.'' then clean_parts rooted out ps
      else if p = ''..'' then
        (case out of
           q # qs \<Rightarrow> if q \<noteq> ''..'' then clean_parts rooted qs ps else clean_parts rooted (p # out) ps
         | [] \<Rightarrow> if rooted then clean_parts rooted out ps else clean_parts rooted (p # out) ps)
      else clean_parts rooted (p # out) ps)"

definition path_clean :: "string \<Rightarrow> string" where
  "path_clean s =
     (if s = '''' then ''.''
      else let rooted = (hd s = Sep);
               body = str_join (clean_parts rooted [] (str_split s Sep)) Sep
           in if rooted then Sep # body else if body = '''' then ''.'' else body)"

definition path_join :: "string list \<Rightarrow> string" where
  "path_join elems =
     (let es = filter (\<lambda>e. e \<noteq> '''') elems in if es = [] then '''' else path_clean (str_join es Sep))"

subsection \<open>The client of etcd\<close>

datatype etcd_err = EtcdError nat | OtherErr string

record 's etcd =
  eSet :: "string \<Rightarrow> string \<Rightarrow> nat \<Rightarrow> 's \<Rightarrow> etcd_err option \<times> 's"
  eCreate :: "string \<Rightarrow> string \<Rightarrow> nat \<Rightarrow> 's \<Rightarrow> (etcd_err option \<times> string option) \<times> 's"
  eGet :: "string \<Rightarrow> 's \<Rightarrow> (etcd_err + (string \<times> string) list option) \<times> 's"
  EcodeNodeExist :: nat

subsection \<open>The code\<close>

definition keyPrefix :: string where "keyPrefix = ''/v2/keys/''"
definition stateKey :: string where "stateKey = ''_state''"
definition startedState :: string where "startedState = ''started''"
definition defaultTTL :: nat where "defaultTTL = 604800"

record Discoverer =
  dname :: string
  dpeer :: string
  dprefix :: string
  discoveryURL :: string

datatype derr = ParseErr | EtcdErr etcd_err | NoKey string | NoPeers

definition d_heartbeat :: "'s etcd \<Rightarrow> Discoverer \<Rightarrow> 's \<Rightarrow> etcd_err option \<times> 's" where
  "d_heartbeat E d s = eSet E (path_join [dprefix d, dname d]) (dpeer d) defaultTTL s"

text \<open>The loop over the nodes: skip our own entry, collect the values of the others.\<close>

fun other_peers :: "string \<Rightarrow> (string \<times> string) list \<Rightarrow> string list" where
  "other_peers name [] = []"
| "other_peers name ((key, val) # ns) =
     (if has_suffix key (Sep # name) then other_peers name ns else val # other_peers name ns)"

definition findPeers :: "'s etcd \<Rightarrow> Discoverer \<Rightarrow> 's \<Rightarrow> (derr + string list) \<times> 's" where
  "findPeers E d s =
     (case eGet E (path_join [dprefix d]) s of
        (Inl e, s') \<Rightarrow> (Inl (EtcdErr e), s')
      | (Inr None, s') \<Rightarrow> (Inl (NoKey (dprefix d)), s')
      | (Inr (Some ns), s') \<Rightarrow>
          let peers = other_peers (dname d) ns
          in (if peers = [] then Inl NoPeers else Inr peers, s'))"

text \<open>Taking the leadership: \<open>Inl\<close> an unexpected error, else whether this machine is the leader.\<close>

definition take_lead :: "'s etcd \<Rightarrow> Discoverer \<Rightarrow> 's \<Rightarrow> (derr + bool) \<times> 's" where
  "take_lead E d s =
     (case eCreate E (path_join [dprefix d, stateKey]) startedState 0 s of
        ((err, resp), s') \<Rightarrow>
          (case err of
             Some e \<Rightarrow>
               if e \<noteq> EtcdError (EcodeNodeExist E) then (Inl (EtcdErr e), s')
               else (Inr (resp = Some startedState), s')
           | None \<Rightarrow> (Inr (resp = Some startedState), s')))"

definition new_discoverer :: "string \<Rightarrow> string \<Rightarrow> string \<Rightarrow> string \<Rightarrow> Discoverer" where
  "new_discoverer url path name peer =
     \<lparr>dname = name, dpeer = peer, dprefix = trim_prefix path keyPrefix, discoveryURL = url\<rparr>"

definition Do ::
  "'s etcd \<Rightarrow> string \<Rightarrow> string option \<Rightarrow> string \<Rightarrow> string \<Rightarrow> 's \<Rightarrow> (derr + string list) \<times> 's" where
  "Do E url parsed name peer s =
     (case parsed of
        None \<Rightarrow> (Inl ParseErr, s)
      | Some path \<Rightarrow>
          let d = new_discoverer url path name peer in
          (case d_heartbeat E d s of
             (Some e, s1) \<Rightarrow> (Inl (EtcdErr e), s1)
           | (None, s1) \<Rightarrow>
               (case take_lead E d s1 of
                  (Inl e, s2) \<Rightarrow> (Inl e, s2)
                | (Inr True, s2) \<Rightarrow> (Inr [], s2)
                | (Inr False, s2) \<Rightarrow> findPeers E d s2)))"

text \<open>The receiver: \<open>Do\<close> sets three of its fields before it parses the URL and the fourth after. The
  function \<^verbatim>\<open>Do\<close> of the package calls the method on the one default discoverer, whose heartbeat
  goroutines read the fields at every tick.\<close>

definition Do_receiver :: "string \<Rightarrow> string option \<Rightarrow> string \<Rightarrow> string \<Rightarrow> Discoverer \<Rightarrow> Discoverer" where
  "Do_receiver url parsed name peer this =
     (let this1 = this\<lparr>dname := name, dpeer := peer, discoveryURL := url\<rparr> in
      case parsed of
        None \<Rightarrow> this1
      | Some path \<Rightarrow> this1\<lparr>dprefix := trim_prefix path keyPrefix\<rparr>)"

definition defaultDiscoverer :: Discoverer where
  "defaultDiscoverer = \<lparr>dname = [], dpeer = [], dprefix = [], discoveryURL = []\<rparr>"

definition package_Do ::
  "'s etcd \<Rightarrow> string \<Rightarrow> string option \<Rightarrow> string \<Rightarrow> string \<Rightarrow> Discoverer \<times> 's \<Rightarrow> (derr + string list) \<times> Discoverer \<times> 's" where
  "package_Do E url parsed name peer = (\<lambda>(this, s).
     case Do E url parsed name peer s of
       (r, s') \<Rightarrow> (r, Do_receiver url parsed name peer this, s'))"

lemma Do_receiver_parsed: "Do_receiver url (Some path) name peer this = new_discoverer url path name peer"
  by (simp add: Do_receiver_def new_discoverer_def Let_def)

text \<open>A second call with a URL that does not parse changes nothing in etcd and yet redirects the
  heartbeats of the first: they register the name and the address of the second call under the prefix
  of the first.\<close>

lemma failed_Do_redirects_heartbeat:
  assumes "package_Do E url (Some path) name peer (this, s) = (r, this1, s1)"
    and "package_Do E url' None name' peer' (this1, s1) = (r', this2, s2)"
  shows "r' = Inl ParseErr \<and> s2 = s1
    \<and> d_heartbeat E this2 t = eSet E (path_join [trim_prefix path keyPrefix, name']) peer' defaultTTL t"
  using assms by (auto simp: package_Do_def Do_receiver_def Do_def d_heartbeat_def Let_def split: prod.splits)

subsection \<open>One etcd call at a time\<close>

datatype phase = PRegister | PLead | PFind | PRet "derr + string list"

definition dstep :: "'s etcd \<Rightarrow> Discoverer \<Rightarrow> phase \<Rightarrow> 's \<Rightarrow> phase \<times> 's" where
  "dstep E d ph s =
     (case ph of
        PRegister \<Rightarrow> (case d_heartbeat E d s of (Some e, s') \<Rightarrow> (PRet (Inl (EtcdErr e)), s') | (None, s') \<Rightarrow> (PLead, s'))
      | PLead \<Rightarrow>
          (case take_lead E d s of
             (Inl e, s') \<Rightarrow> (PRet (Inl e), s')
           | (Inr True, s') \<Rightarrow> (PRet (Inr []), s')
           | (Inr False, s') \<Rightarrow> (PFind, s'))
      | PFind \<Rightarrow> (case findPeers E d s of (r, s') \<Rightarrow> (PRet r, s'))
      | PRet r \<Rightarrow> (PRet r, s))"

lemma Do_is_three_steps:
  "Do E url (Some path) name peer s =
     (let d = new_discoverer url path name peer;
          (ph1, s1) = dstep E d PRegister s;
          (ph2, s2) = dstep E d ph1 s1;
          (ph3, s3) = dstep E d ph2 s2
      in (case ph3 of PRet r \<Rightarrow> r | _ \<Rightarrow> Inl ParseErr, s3))"
proof -
  let ?d = "new_discoverer url path name peer"
  obtain e s1 where h: "d_heartbeat E ?d s = (e, s1)" by (rule prod.exhaust)
  obtain r s2 where t: "take_lead E ?d s1 = (r, s2)" by (rule prod.exhaust)
  obtain ps s3 where f: "findPeers E ?d s2 = (ps, s3)" by (rule prod.exhaust)
  show ?thesis
    by (cases e; cases r) (simp_all add: Do_def Let_def dstep_def h t f split: bool.split)
qed

text \<open>Machines by number; an event is a machine that makes its next call, or its heartbeat.\<close>

datatype devent = DStep nat | DBeat nat

record 's dsys =
  phases :: "nat \<Rightarrow> phase"
  dstore :: 's

fun dnext :: "'s etcd \<Rightarrow> (nat \<Rightarrow> Discoverer) \<Rightarrow> devent \<Rightarrow> 's dsys \<Rightarrow> 's dsys" where
  "dnext E M (DStep i) g =
     (case dstep E (M i) (phases g i) (dstore g) of
        (ph, s) \<Rightarrow> g\<lparr>phases := (phases g)(i := ph), dstore := s\<rparr>)"
| "dnext E M (DBeat i) g =
     (if phases g i = PRegister then g else g\<lparr>dstore := snd (d_heartbeat E (M i) (dstore g))\<rparr>)"

definition drun :: "'s etcd \<Rightarrow> (nat \<Rightarrow> Discoverer) \<Rightarrow> devent list \<Rightarrow> 's \<Rightarrow> 's dsys" where
  "drun E M evs s = fold (dnext E M) evs \<lparr>phases = (\<lambda>_. PRegister), dstore = s\<rparr>"

subsection \<open>What etcd promises\<close>

text \<open>Names and prefixes as they are meant: single path elements that \<^verbatim>\<open>Clean\<close> keeps.\<close>

definition plain :: "string \<Rightarrow> bool" where
  "plain n \<longleftrightarrow> n \<noteq> '''' \<and> n \<noteq> ''.'' \<and> n \<noteq> ''..'' \<and> Sep \<notin> set n"

text \<open>A store that holds one directory of plain entries.\<close>

definition flat :: "string \<Rightarrow> (string \<rightharpoonup> string) \<Rightarrow> bool" where
  "flat p m \<longleftrightarrow> (\<forall>k. m k \<noteq> None \<longrightarrow> (\<exists>n. plain n \<and> k = p @ Sep # n))"

text \<open>The entries of a directory, without hidden ones (those with a leading underscore).\<close>

definition listed :: "string \<Rightarrow> (string \<rightharpoonup> string) \<Rightarrow> (string \<times> string) set" where
  "listed dir m = {(Sep # k, v) | k v n. m k = Some v \<and> k = dir @ Sep # n \<and> n \<noteq> [] \<and> hd n \<noteq> CHR ''_'' \<and> Sep \<notin> set n}"

definition set_law :: "string \<Rightarrow> 's etcd \<Rightarrow> ('s \<Rightarrow> string \<rightharpoonup> string) \<Rightarrow> bool" where
  "set_law p E kv \<longleftrightarrow> (\<forall>n v ttl s. plain n \<and> flat p (kv s) \<longrightarrow>
     (let (err, s') = eSet E (p @ Sep # n) v ttl s in err = None \<and> kv s' = (kv s)(p @ Sep # n \<mapsto> v)))"

definition create_law :: "string \<Rightarrow> 's etcd \<Rightarrow> ('s \<Rightarrow> string \<rightharpoonup> string) \<Rightarrow> bool" where
  "create_law p E kv \<longleftrightarrow> (\<forall>n v ttl s. plain n \<and> flat p (kv s) \<longrightarrow>
     (let ((err, resp), s') = eCreate E (p @ Sep # n) v ttl s in
        if kv s (p @ Sep # n) = None then err = None \<and> resp = Some v \<and> kv s' = (kv s)(p @ Sep # n \<mapsto> v)
        else err = Some (EtcdError (EcodeNodeExist E)) \<and> resp = None \<and> kv s' = kv s))"

definition get_law :: "string \<Rightarrow> 's etcd \<Rightarrow> ('s \<Rightarrow> string \<rightharpoonup> string) \<Rightarrow> bool" where
  "get_law p E kv \<longleftrightarrow> (\<forall>s. flat p (kv s) \<and> listed p (kv s) \<noteq> {} \<longrightarrow>
     (\<exists>ns s'. eGet E p s = (Inr (Some ns), s') \<and> set ns = listed p (kv s) \<and> kv s' = kv s))"

definition etcd_ok :: "string \<Rightarrow> 's etcd \<Rightarrow> ('s \<Rightarrow> string \<rightharpoonup> string) \<Rightarrow> bool" where
  "etcd_ok p E kv \<longleftrightarrow> set_law p E kv \<and> create_law p E kv \<and> get_law p E kv"

subsection \<open>Keys\<close>

lemma clean_parts_plain:
  "(\<And>p. p \<in> set ps \<Longrightarrow> plain p) \<Longrightarrow> clean_parts rooted out ps = rev out @ ps"
  by (induction ps arbitrary: out) (auto simp: plain_def)

lemma str_join_eq_Nil: "(\<And>p. p \<in> set ps \<Longrightarrow> plain p) \<Longrightarrow> ps \<noteq> [] \<Longrightarrow> str_join ps Sep \<noteq> ''''"
  by (cases ps; cases "tl ps") (auto simp: plain_def str_join_Cons)

lemma path_clean_plain:
  assumes "\<And>p. p \<in> set ps \<Longrightarrow> plain p" and "ps \<noteq> []"
  shows "path_clean (str_join ps Sep) = str_join ps Sep"
proof -
  have split: "str_split (str_join ps Sep) Sep = ps"
    using assms by (intro str_split_join) (auto simp: plain_def)
  have ne: "str_join ps Sep \<noteq> ''''" using str_join_eq_Nil assms by blast
  have "hd (str_join ps Sep) = hd (hd ps)" "plain (hd ps)"
    using assms by (cases ps; cases "tl ps"; auto simp: plain_def str_join_Cons)+
  then have "hd (str_join ps Sep) \<noteq> Sep" by (metis hd_in_set plain_def)
  with ne show ?thesis
    using clean_parts_plain [of ps False "[]"] assms(1) by (simp add: path_clean_def split Let_def)
qed

definition plain_prefix :: "string \<Rightarrow> bool" where
  "plain_prefix p \<longleftrightarrow> (\<forall>e \<in> set (str_split p Sep). plain e)"

lemma plain_prefix_nonempty: "plain_prefix p \<Longrightarrow> p \<noteq> ''''"
proof
  assume "plain_prefix p" "p = ''''"
  then show False by (simp add: plain_prefix_def plain_def)
qed

lemma path_join_prefix: "plain_prefix p \<Longrightarrow> path_join [p] = p"
proof -
  assume p: "plain_prefix p"
  have "path_clean (str_join (str_split p Sep) Sep) = str_join (str_split p Sep) Sep"
    using p by (intro path_clean_plain) (auto simp: plain_prefix_def)
  moreover have "p \<noteq> ''''" using p by (rule plain_prefix_nonempty)
  ultimately show ?thesis by (simp add: path_join_def str_join_split)
qed

lemma path_join_key:
  assumes "plain_prefix p" "plain n"
  shows "path_join [p, n] = p @ Sep # n"
proof -
  have ne: "p \<noteq> ''''" "n \<noteq> ''''" using plain_prefix_nonempty assms by (simp_all add: plain_def)
  have "str_join (str_split p Sep @ [n]) Sep = str_join (str_split p Sep) Sep @ Sep # n"
  proof -
    have "ps \<noteq> [] \<Longrightarrow> str_join (ps @ [n]) Sep = str_join ps Sep @ Sep # n" for ps
      by (induction ps rule: induct_list012) (auto simp: str_join_Cons)
    then show ?thesis by simp
  qed
  then have join: "str_join (str_split p Sep @ [n]) Sep = p @ Sep # n" by (simp add: str_join_split)
  have "path_clean (str_join (str_split p Sep @ [n]) Sep) = str_join (str_split p Sep @ [n]) Sep"
    using assms by (intro path_clean_plain) (auto simp: plain_prefix_def)
  with join ne show ?thesis by (simp add: path_join_def)
qed

lemma has_suffix_key:
  assumes "Sep \<notin> set n" "Sep \<notin> set n'"
  shows "has_suffix (Sep # p @ Sep # n') (Sep # n) \<longleftrightarrow> n' = n"
proof
  assume "has_suffix (Sep # p @ Sep # n') (Sep # n)"
  then obtain t where t: "Sep # p @ Sep # n' = t @ Sep # n" by (auto simp: has_suffix_iff)
  have last: "rev (takeWhile (\<lambda>c. c \<noteq> Sep) (rev (xs @ Sep # m))) = m" if "Sep \<notin> set m" for xs m
  proof -
    have "takeWhile (\<lambda>c. c \<noteq> Sep) (rev m @ Sep # rev xs) = rev m @ takeWhile (\<lambda>c. c \<noteq> Sep) (Sep # rev xs)"
      by (rule takeWhile_append2) (use that in auto)
    then show ?thesis by simp
  qed
  show "n' = n" using last [OF assms(1), of t] last [OF assms(2), of "Sep # p"] t by simp
next
  assume "n' = n"
  then show "has_suffix (Sep # p @ Sep # n') (Sep # n)"
    by (auto simp: has_suffix_iff intro: exI [of _ "Sep # p"])
qed

subsection \<open>The machines together\<close>

definition machines :: "string \<Rightarrow> (nat \<Rightarrow> Discoverer) \<Rightarrow> bool" where
  "machines p M \<longleftrightarrow> plain_prefix p \<and> (\<forall>i. dprefix (M i) = p \<and> plain (dname (M i)) \<and> hd (dname (M i)) \<noteq> CHR ''_'')
     \<and> inj (\<lambda>i. dname (M i))"

definition key_of :: "string \<Rightarrow> (nat \<Rightarrow> Discoverer) \<Rightarrow> nat \<Rightarrow> string" where
  "key_of p M i = p @ Sep # dname (M i)"

abbreviation leads :: "'s dsys \<Rightarrow> nat \<Rightarrow> bool" where
  "leads g i \<equiv> phases g i = PRet (Inr [])"

definition follows :: "(nat \<Rightarrow> Discoverer) \<Rightarrow> 's dsys \<Rightarrow> nat \<Rightarrow> derr + string list \<Rightarrow> bool" where
  "follows M g i r \<longleftrightarrow> (\<exists>l ps. r = Inr ps \<and> leads g l \<and> l \<noteq> i \<and> dpeer (M l) \<in> set ps
     \<and> set ps \<subseteq> {dpeer (M j) | j. j \<noteq> i})"

text \<open>A machine past its registration is registered; the store holds the machines' entries and \<^verbatim>\<open>_state\<close>;
  as long as \<^verbatim>\<open>_state\<close> is missing nobody is past the election, afterwards there is one leader; and
  whoever returned leads or follows.\<close>

definition dinv :: "('s \<Rightarrow> string \<rightharpoonup> string) \<Rightarrow> string \<Rightarrow> (nat \<Rightarrow> Discoverer) \<Rightarrow> 's dsys \<Rightarrow> bool" where
  "dinv kv p M g \<longleftrightarrow>
     (\<forall>i. phases g i \<noteq> PRegister \<longrightarrow> kv (dstore g) (key_of p M i) = Some (dpeer (M i)))
     \<and> (\<forall>k v. kv (dstore g) k = Some v \<longrightarrow>
          k = p @ Sep # stateKey \<or> (\<exists>i. k = key_of p M i \<and> v = dpeer (M i)))
     \<and> (if kv (dstore g) (p @ Sep # stateKey) = None then \<forall>i. phases g i = PRegister \<or> phases g i = PLead
        else \<exists>!i. leads g i)
     \<and> (\<forall>i r. phases g i = PRet r \<longrightarrow> r = Inr [] \<or> follows M g i r)"

lemma dinvI:
  assumes "\<And>i. phases g i \<noteq> PRegister \<Longrightarrow> kv (dstore g) (key_of p M i) = Some (dpeer (M i))"
    and "\<And>k v. kv (dstore g) k = Some v \<Longrightarrow> k = p @ Sep # stateKey \<or> (\<exists>i. k = key_of p M i \<and> v = dpeer (M i))"
    and "\<And>i. kv (dstore g) (p @ Sep # stateKey) = None \<Longrightarrow> phases g i = PRegister \<or> phases g i = PLead"
    and "kv (dstore g) (p @ Sep # stateKey) \<noteq> None \<Longrightarrow> \<exists>!i. leads g i"
    and "\<And>i r. phases g i = PRet r \<Longrightarrow> r = Inr [] \<or> follows M g i r"
  shows "dinv kv p M g"
  unfolding dinv_def using assms by presburger

lemma dinvD:
  assumes "dinv kv p M g"
  shows "phases g i \<noteq> PRegister \<Longrightarrow> kv (dstore g) (key_of p M i) = Some (dpeer (M i))"
    and "kv (dstore g) k = Some v \<Longrightarrow> k = p @ Sep # stateKey \<or> (\<exists>i. k = key_of p M i \<and> v = dpeer (M i))"
    and "kv (dstore g) (p @ Sep # stateKey) = None \<Longrightarrow> phases g i = PRegister \<or> phases g i = PLead"
    and "kv (dstore g) (p @ Sep # stateKey) \<noteq> None \<Longrightarrow> \<exists>!i. leads g i"
    and "phases g i = PRet r \<Longrightarrow> r = Inr [] \<or> follows M g i r"
  using assms unfolding dinv_def by presburger+

lemma machinesD:
  assumes "machines p M"
  shows "path_join [p, dname (M i)] = key_of p M i" "path_join [p, stateKey] = p @ Sep # stateKey"
    "path_join [p] = p" "dprefix (M i) = p" "key_of p M i \<noteq> p @ Sep # stateKey"
    "key_of p M i = key_of p M j \<longleftrightarrow> i = j" "plain (dname (M i))"
proof -
  have "plain stateKey" by (simp add: plain_def stateKey_def Sep_def)
  with assms show "path_join [p, dname (M i)] = key_of p M i" "path_join [p, stateKey] = p @ Sep # stateKey"
    "path_join [p] = p" "dprefix (M i) = p" "plain (dname (M i))"
    by (simp_all add: machines_def key_of_def path_join_key path_join_prefix)
  have "hd (dname (M i)) \<noteq> CHR ''_''" using assms by (simp add: machines_def)
  then show "key_of p M i \<noteq> p @ Sep # stateKey" by (auto simp: key_of_def stateKey_def)
  show "key_of p M i = key_of p M j \<longleftrightarrow> i = j" using assms by (auto simp: machines_def key_of_def dest: injD)
qed

lemma set_other_peers: "set (other_peers n ns) = {v. \<exists>k. (k, v) \<in> set ns \<and> \<not> has_suffix k (Sep # n)}"
  by (induction n ns rule: other_peers.induct) auto

lemma plain_stateKey: "plain stateKey"
  by (simp add: plain_def stateKey_def Sep_def)

lemma dinv_flat: "machines p M \<Longrightarrow> dinv kv p M g \<Longrightarrow> flat p (kv (dstore g))"
  unfolding flat_def using dinvD(2) machinesD(7) plain_stateKey by (fastforce simp: key_of_def)

text \<open>The calls, for a machine and an etcd that is up.\<close>

lemma heartbeat_ok:
  assumes "machines p M" "set_law p E kv" "flat p (kv s0)"
  obtains s where "d_heartbeat E (M i) s0 = (None, s)" "kv s = (kv s0)(key_of p M i \<mapsto> dpeer (M i))"
proof -
  let ?r = "eSet E (key_of p M i) (dpeer (M i)) defaultTTL s0"
  have eq: "d_heartbeat E (M i) s0 = ?r" using machinesD [OF assms(1)] by (simp add: d_heartbeat_def)
  have "case ?r of (err, s') \<Rightarrow> err = None \<and> kv s' = (kv s0)(key_of p M i \<mapsto> dpeer (M i))"
    using assms(2) [unfolded set_law_def Let_def, rule_format, of "dname (M i)" s0 "dpeer (M i)" defaultTTL]
      assms(3) machinesD(7) [OF assms(1)] by (simp add: key_of_def)
  then show ?thesis using that [of "snd ?r"] eq by (cases ?r) simp
qed

lemma take_lead_ok:
  assumes "machines p M" "create_law p E kv" "flat p (kv s0)"
  obtains s where "take_lead E (M i) s0 = (Inr (kv s0 (p @ Sep # stateKey) = None), s)"
    "kv s = (if kv s0 (p @ Sep # stateKey) = None then (kv s0)(p @ Sep # stateKey \<mapsto> startedState) else kv s0)"
proof -
  let ?r = "eCreate E (p @ Sep # stateKey) startedState 0 s0"
  obtain err resp s where r: "?r = ((err, resp), s)" by (metis prod.exhaust)
  have "plain stateKey \<and> flat p (kv s0) \<longrightarrow>
     (let ((err, resp), s') = ?r in
        if kv s0 (p @ Sep # stateKey) = None
        then err = None \<and> resp = Some startedState \<and> kv s' = (kv s0)(p @ Sep # stateKey \<mapsto> startedState)
        else err = Some (EtcdError (EcodeNodeExist E)) \<and> resp = None \<and> kv s' = kv s0)"
    using assms(2) unfolding create_law_def by (elim allE)
  moreover have "path_join [dprefix (M i), stateKey] = p @ Sep # stateKey"
    using machinesD [OF assms(1)] by simp
  ultimately show ?thesis using that [of s] assms(3) plain_stateKey r
    by (cases "kv s0 (p @ Sep # stateKey) = None") (simp_all add: take_lead_def)
qed

lemma dinv_beat:
  assumes "machines p M" "set_law p E kv" "dinv kv p M g" "phases g i \<noteq> PRegister"
  shows "dinv kv p M (g\<lparr>dstore := snd (d_heartbeat E (M i) (dstore g))\<rparr>)"
proof -
  have "kv (snd (d_heartbeat E (M i) (dstore g))) = (kv (dstore g))(key_of p M i \<mapsto> dpeer (M i))"
    using heartbeat_ok [OF assms(1,2) dinv_flat [OF assms(1,3)], of i] by (metis snd_conv)
  moreover have "kv (dstore g) (key_of p M i) = Some (dpeer (M i))" using dinvD(1) [OF assms(3,4)] .
  ultimately have "kv (snd (d_heartbeat E (M i) (dstore g))) = kv (dstore g)" by (simp add: map_upd_triv)
  with assms(3) show ?thesis by (simp add: dinv_def follows_def)
qed

lemma dinv_register:
  assumes m: "machines p M" and "set_law p E kv" and inv: "dinv kv p M g" and ph: "phases g i = PRegister"
  shows "dinv kv p M (dnext E M (DStep i) g)"
proof -
  obtain s where h: "d_heartbeat E (M i) (dstore g) = (None, s)" "kv s = (kv (dstore g))(key_of p M i \<mapsto> dpeer (M i))"
    using heartbeat_ok [OF assms(1,2) dinv_flat [OF m inv], of i] .
  let ?g = "g\<lparr>phases := (phases g)(i := PLead), dstore := s\<rparr>"
  have leads: "leads ?g l \<longleftrightarrow> leads g l" for l using ph by simp
  have fol: "follows M ?g j r \<longleftrightarrow> follows M g j r" for j r unfolding follows_def leads by simp
  have st: "kv s (p @ Sep # stateKey) = kv (dstore g) (p @ Sep # stateKey)"
    using h(2) machinesD(5) [OF m, of i] by simp
  have "dinv kv p M ?g"
  proof (rule dinvI)
    show "phases ?g j \<noteq> PRegister \<Longrightarrow> kv (dstore ?g) (key_of p M j) = Some (dpeer (M j))" for j
      using dinvD(1) [OF inv, of j] h(2) machinesD(6) [OF m, of j i] by (cases "j = i") simp_all
    show "kv (dstore ?g) k = Some v \<Longrightarrow> k = p @ Sep # stateKey \<or> (\<exists>i. k = key_of p M i \<and> v = dpeer (M i))" for k v
      using dinvD(2) [OF inv, of k v] h(2) by (auto split: if_splits)
    show "kv (dstore ?g) (p @ Sep # stateKey) = None \<Longrightarrow> phases ?g j = PRegister \<or> phases ?g j = PLead" for j
      using dinvD(3) [OF inv, of j] st by simp
    show "kv (dstore ?g) (p @ Sep # stateKey) \<noteq> None \<Longrightarrow> \<exists>!l. leads ?g l"
      unfolding leads using dinvD(4) [OF inv] st by simp
    show "phases ?g j = PRet r \<Longrightarrow> r = Inr [] \<or> follows M ?g j r" for j r
      unfolding fol using dinvD(5) [OF inv, of j r] by (cases "j = i") simp_all
  qed
  then show ?thesis using ph h(1) by (simp add: dstep_def)
qed

lemma dinv_wins:
  assumes m: "machines p M" and inv: "dinv kv p M g" and none: "kv (dstore g) (p @ Sep # stateKey) = None"
    and ph: "phases g i = PLead" and s: "kv s = (kv (dstore g))(p @ Sep # stateKey \<mapsto> startedState)"
  shows "dinv kv p M (g\<lparr>phases := (phases g)(i := PRet (Inr [])), dstore := s\<rparr>)"
proof (rule dinvI)
  let ?g = "g\<lparr>phases := (phases g)(i := PRet (Inr [])), dstore := s\<rparr>"
  have waits: "phases g j = PRegister \<or> phases g j = PLead" for j using dinvD(3) [OF inv none] .
  have ret: "phases ?g j = PRet r \<longleftrightarrow> j = i \<and> r = Inr []" for j r using waits [of j] by auto
  show "phases ?g j \<noteq> PRegister \<Longrightarrow> kv (dstore ?g) (key_of p M j) = Some (dpeer (M j))" for j
    using dinvD(1) [OF inv, of j] machinesD(5) [OF m, of j] s ph by (cases "j = i") simp_all
  show "kv (dstore ?g) k = Some v \<Longrightarrow> k = p @ Sep # stateKey \<or> (\<exists>i. k = key_of p M i \<and> v = dpeer (M i))" for k v
    using dinvD(2) [OF inv, of k v] s by (auto split: if_splits)
  show "kv (dstore ?g) (p @ Sep # stateKey) = None \<Longrightarrow> phases ?g j = PRegister \<or> phases ?g j = PLead" for j
    using s by simp
  show "\<exists>!l. leads ?g l" unfolding ret by simp
  show "phases ?g j = PRet r \<Longrightarrow> r = Inr [] \<or> follows M ?g j r" for j r unfolding ret by simp
qed

lemma dinv_moves:
  assumes inv: "dinv kv p M g" and st: "kv (dstore g) (p @ Sep # stateKey) \<noteq> None"
    and ph: "phases g i \<in> {PLead, PFind}" and s: "kv s = kv (dstore g)"
    and ph': "ph' = PFind \<or> (\<exists>r. ph' = PRet r \<and> r \<noteq> Inr [] \<and> follows M g i r)"
  shows "dinv kv p M (g\<lparr>phases := (phases g)(i := ph'), dstore := s\<rparr>)"
proof (rule dinvI)
  let ?g = "g\<lparr>phases := (phases g)(i := ph'), dstore := s\<rparr>"
  have leads: "leads ?g l \<longleftrightarrow> leads g l" for l using ph ph' by auto
  have fol: "follows M ?g j r \<longleftrightarrow> follows M g j r" for j r unfolding follows_def leads by simp
  show "phases ?g j \<noteq> PRegister \<Longrightarrow> kv (dstore ?g) (key_of p M j) = Some (dpeer (M j))" for j
    using dinvD(1) [OF inv, of j] s ph by (cases "j = i") auto
  show "kv (dstore ?g) k = Some v \<Longrightarrow> k = p @ Sep # stateKey \<or> (\<exists>i. k = key_of p M i \<and> v = dpeer (M i))" for k v
    using dinvD(2) [OF inv, of k v] s by simp
  show "kv (dstore ?g) (p @ Sep # stateKey) = None \<Longrightarrow> phases ?g j = PRegister \<or> phases ?g j = PLead" for j
    using s st by simp
  show "\<exists>!l. leads ?g l" unfolding leads using dinvD(4) [OF inv st] .
  show "phases ?g j = PRet r \<Longrightarrow> r = Inr [] \<or> follows M ?g j r" for j r
    unfolding fol using dinvD(5) [OF inv, of j r] ph' by (cases "j = i") auto
qed

lemma dinv_lead:
  assumes m: "machines p M" and "create_law p E kv" and inv: "dinv kv p M g" and ph: "phases g i = PLead"
  shows "dinv kv p M (dnext E M (DStep i) g)"
proof -
  obtain s where t: "take_lead E (M i) (dstore g) = (Inr (kv (dstore g) (p @ Sep # stateKey) = None), s)"
    "kv s = (if kv (dstore g) (p @ Sep # stateKey) = None
             then (kv (dstore g))(p @ Sep # stateKey \<mapsto> startedState) else kv (dstore g))"
    using take_lead_ok [OF assms(1,2) dinv_flat [OF m inv], of i] .
  show ?thesis
  proof (cases "kv (dstore g) (p @ Sep # stateKey) = None")
    case True
    with t have "kv s = (kv (dstore g))(p @ Sep # stateKey \<mapsto> startedState)" by simp
    from dinv_wins [OF m inv True ph this] t(1) True ph show ?thesis by (simp add: dstep_def)
  next
    case False
    with t have "kv s = kv (dstore g)" by simp
    with dinv_moves [OF inv False, of i s PFind] t(1) False ph show ?thesis by (simp add: dstep_def)
  qed
qed

lemma listed_peers:
  assumes m: "machines p M" and inv: "dinv kv p M g"
  shows "listed p (kv (dstore g)) = {(Sep # key_of p M j, dpeer (M j)) | j. kv (dstore g) (key_of p M j) \<noteq> None}"
proof -
  have name: "dname (M j) \<noteq> []" "hd (dname (M j)) \<noteq> CHR ''_''" "Sep \<notin> set (dname (M j))" for j
    using m by (simp_all add: machines_def plain_def)
  have val: "v = dpeer (M j)" if "kv (dstore g) (key_of p M j) = Some v" for j v
    using dinvD(2) [OF inv that] machinesD(5,6) [OF m] by metis
  have key: "\<exists>j. p @ Sep # n = key_of p M j" if "kv (dstore g) (p @ Sep # n) = Some v" "hd n \<noteq> CHR ''_''" for n v
    using dinvD(2) [OF inv that(1)] that(2) by (auto simp: stateKey_def)
  show ?thesis
  proof (intro set_eqI iffI)
    fix x assume "x \<in> listed p (kv (dstore g))"
    then obtain v n where x: "x = (Sep # p @ Sep # n, v)" "kv (dstore g) (p @ Sep # n) = Some v" "hd n \<noteq> CHR ''_''"
      unfolding listed_def by blast
    moreover obtain j where "p @ Sep # n = key_of p M j" using key [OF x(2,3)] by blast
    ultimately show "x \<in> {(Sep # key_of p M j, dpeer (M j)) | j. kv (dstore g) (key_of p M j) \<noteq> None}"
      using val by auto
  next
    fix x assume "x \<in> {(Sep # key_of p M j, dpeer (M j)) | j. kv (dstore g) (key_of p M j) \<noteq> None}"
    then obtain j v where x: "x = (Sep # key_of p M j, dpeer (M j))" "kv (dstore g) (key_of p M j) = Some v" by auto
    show "x \<in> listed p (kv (dstore g))"
      unfolding listed_def using x name [of j] val [OF x(2)] by (auto simp: key_of_def)
  qed
qed

lemma dinv_find:
  assumes m: "machines p M" and "get_law p E kv" and inv: "dinv kv p M g" and ph: "phases g i = PFind"
  shows "dinv kv p M (dnext E M (DStep i) g)"
proof -
  have st: "kv (dstore g) (p @ Sep # stateKey) \<noteq> None" using dinvD(3) [OF inv, of i] ph by auto
  then obtain l where l: "leads g l" using dinvD(4) [OF inv] by blast
  then have reg: "kv (dstore g) (key_of p M l) = Some (dpeer (M l))" using dinvD(1) [OF inv, of l] by simp
  have "l \<noteq> i" using l ph by auto
  note lp = listed_peers [OF m inv]
  then have "listed p (kv (dstore g)) \<noteq> {}" using reg by auto
  then obtain ns s where get: "eGet E p (dstore g) = (Inr (Some ns), s)" "set ns = listed p (kv (dstore g))" "kv s = kv (dstore g)"
    using assms(2) dinv_flat [OF m inv] unfolding get_law_def by blast
  let ?ps = "other_peers (dname (M i)) ns"
  have suf: "has_suffix (Sep # key_of p M j) (Sep # dname (M i)) \<longleftrightarrow> j = i" for j
    using m has_suffix_key [of "dname (M i)" "dname (M j)" p] by (auto simp: machines_def plain_def key_of_def dest: injD)
  have ps: "set ?ps = {dpeer (M j) | j. kv (dstore g) (key_of p M j) \<noteq> None \<and> j \<noteq> i}"
    unfolding set_other_peers get(2) lp by (auto simp: suf) (metis suf)
  have lin: "dpeer (M l) \<in> set ?ps" unfolding ps using reg \<open>l \<noteq> i\<close> by auto
  then have ne: "?ps \<noteq> []" by auto
  have "follows M g i (Inr ?ps)" unfolding follows_def using l \<open>l \<noteq> i\<close> lin ps by blast
  then have "dinv kv p M (g\<lparr>phases := (phases g)(i := PRet (Inr ?ps)), dstore := s\<rparr>)"
    using ne ph by (intro dinv_moves [OF inv st _ get(3)]) auto
  then show ?thesis using ph get(1) ne machinesD [OF m] by (simp add: dstep_def findPeers_def)
qed

lemma dinv_next:
  assumes "machines p M" "etcd_ok p E kv" "dinv kv p M g"
  shows "dinv kv p M (dnext E M ev g)"
proof (cases ev)
  case (DStep i)
  show ?thesis
  proof (cases "phases g i")
    case (PRet r)
    moreover from this have "(phases g)(i := PRet r) = phases g" by (simp add: fun_upd_idem)
    ultimately have "dnext E M (DStep i) g = g" by (simp add: dstep_def)
    with DStep assms(3) show ?thesis by simp
  qed (use DStep assms in \<open>auto simp: etcd_ok_def intro: dinv_register dinv_lead dinv_find simp del: dnext.simps\<close>)
next
  case (DBeat i)
  with assms show ?thesis by (auto simp: etcd_ok_def dinv_beat)
qed

lemma dinv_drun:
  assumes "machines p M" "etcd_ok p E kv" "kv s = Map.empty"
  shows "dinv kv p M (drun E M evs s)"
proof -
  have "dinv kv p M (fold (dnext E M) evs g)" if "dinv kv p M g" for g
    using that by (induction evs arbitrary: g) (auto simp: dinv_next [OF assms(1,2)] simp del: dnext.simps)
  moreover have "dinv kv p M \<lparr>phases = (\<lambda>_. PRegister), dstore = s\<rparr>" using assms(3) by (simp add: dinv_def)
  ultimately show ?thesis by (simp add: drun_def)
qed

subsection \<open>Properties\<close>

text \<open>C13: discovery elects one leader and never fails. Any number of machines with different names
  look for each other under one prefix of an etcd that is up and starts empty, their calls and heartbeats
  interleaved in any order. Then at most one of them has become the leader; and every other machine
  whose call has returned got no error but a list of addresses that contains the leader's and holds only
  addresses of other machines.\<close>

theorem discovery_elects_one_leader:
  assumes "etcd_ok p E kv" and "kv s = Map.empty" and "machines p M" and "g = drun E M evs s"
  shows "(leads g i \<and> leads g j \<longrightarrow> i = j)
    \<and> (phases g i = PRet r \<and> \<not> leads g i \<longrightarrow>
        (\<exists>l ps. r = Inr ps \<and> leads g l \<and> dpeer (M l) \<in> set ps \<and> set ps \<subseteq> {dpeer (M k) | k. k \<noteq> i}))"
proof -
  have inv: "dinv kv p M g" unfolding assms(4) using assms(3,1,2) by (rule dinv_drun)
  have "i = j" if "leads g i" "leads g j"
    using that dinvD(3) [OF inv, of i] dinvD(4) [OF inv] by auto
  moreover have "\<exists>l ps. r = Inr ps \<and> leads g l \<and> dpeer (M l) \<in> set ps \<and> set ps \<subseteq> {dpeer (M k) | k. k \<noteq> i}"
    if "phases g i = PRet r" "\<not> leads g i"
    using dinvD(5) [OF inv that(1)] that unfolding follows_def by blast
  ultimately show ?thesis by blast
qed

text \<open>An etcd that keeps its entries in a list, and two machines that meet there: the second one to
  register is elected.\<close>

definition child :: "string \<Rightarrow> string \<Rightarrow> bool" where
  "child dir k \<longleftrightarrow> (let n = drop (Suc (length dir)) k in k = dir @ Sep # n \<and> n \<noteq> [] \<and> hd n \<noteq> CHR ''_'' \<and> Sep \<notin> set n)"

lemma child_iff: "child dir k \<longleftrightarrow> (\<exists>n. k = dir @ Sep # n \<and> n \<noteq> [] \<and> hd n \<noteq> CHR ''_'' \<and> Sep \<notin> set n)"
  by (auto simp: child_def Let_def)

definition list_etcd :: "(string \<times> string) list etcd" where
  "list_etcd = \<lparr>
     eSet = (\<lambda>k v ttl s. (None, (k, v) # s)),
     eCreate = (\<lambda>k v ttl s.
       if map_of s k = None then ((None, Some v), (k, v) # s) else ((Some (EtcdError 105), None), s)),
     eGet = (\<lambda>dir s.
       (Inr (Some (map (\<lambda>k. (Sep # k, the (map_of s k))) (filter (child dir) (remdups (map fst s))))), s)),
     EcodeNodeExist = 105\<rparr>"

lemma list_etcd_ok: "etcd_ok p list_etcd map_of"
proof -
  have "set_law p list_etcd map_of" "create_law p list_etcd map_of"
    by (simp_all add: set_law_def create_law_def list_etcd_def)
  moreover have "get_law p list_etcd map_of"
    unfolding get_law_def
  proof (intro allI impI)
    fix s :: "(string \<times> string) list"
    have "set (map (\<lambda>k. (Sep # k, the (map_of s k))) (filter (child p) (remdups (map fst s))))
        = {(Sep # k, v) | k v. map_of s k = Some v \<and> child p k}"
      by (force simp: dom_map_of_conv_image_fst [symmetric] dom_def)
    then have "set (map (\<lambda>k. (Sep # k, the (map_of s k))) (filter (child p) (remdups (map fst s)))) = listed p (map_of s)"
      unfolding listed_def child_iff by blast
    then show "\<exists>ns s'. eGet list_etcd p s = (Inr (Some ns), s') \<and> set ns = listed p (map_of s) \<and> map_of s' = map_of s"
      by (simp add: list_etcd_def)
  qed
  ultimately show ?thesis by (simp add: etcd_ok_def)
qed

definition meeting :: "nat \<Rightarrow> Discoverer" where
  "meeting i = \<lparr>dname = replicate (Suc i) CHR ''m'', dpeer = replicate (Suc i) CHR ''a'', dprefix = ''mhub'', discoveryURL = ''''\<rparr>"

lemma meeting_machines: "machines ''mhub'' meeting"
proof -
  have "inj (\<lambda>i. dname (meeting i))" by (rule injI) (simp add: meeting_def)
  then show ?thesis
    by (auto simp: machines_def meeting_def plain_prefix_def plain_def Sep_def)
qed

theorem discovery_elects_one_leader_witness:
  "let g = drun list_etcd meeting [DStep 0, DStep 1, DStep 1, DStep 0, DBeat 1, DStep 0] [] in
     leads g 1 \<and> \<not> leads g 0 \<and> phases g 0 = PRet (Inr [''aa''])
     \<and> (\<exists>l ps. Inr [''aa''] = (Inr ps :: derr + string list) \<and> leads g l \<and> dpeer (meeting l) \<in> set ps)"
proof -
  let ?evs = "[DStep 0, DStep 1, DStep 1, DStep 0, DBeat 1, DStep 0]"
  note one = discovery_elects_one_leader [OF list_etcd_ok _ meeting_machines refl, of "[]" "?evs"]
  have "phases (drun list_etcd meeting ?evs []) 1 = PRet (Inr [])"
    "phases (drun list_etcd meeting ?evs []) 0 = PRet (Inr [''aa''])"
    by (simp_all add: drun_def dstep_def d_heartbeat_def take_lead_def findPeers_def list_etcd_def meeting_def
        path_join_def path_clean_def child_def has_suffix_def Sep_def stateKey_def startedState_def defaultTTL_def)
  with one [of 0 1 "Inr [''aa'']"] show ?thesis unfolding Let_def by auto
qed

end
