(* ===== verification/Feeder.thy ===== *)
theory Feeder
  imports Messages
begin

section \<open>The sample feeder: \<^verbatim>\<open>cmd/feeder/main.go\<close>\<close>

text \<open>
  A straight-line program on top of another MQTT library, which is not part of the repository: \<open>paho\<close> is what the
  library answers, an error of starting, subscribing and unsubscribing, and whether the receipt of
  the \<open>n\<close>-th operation that gives one is ever signalled. \<open>fcall\<close> are the calls the program makes.
\<close>

record paho =
  pahoStart :: "string option"
  pahoSubscribe :: "string \<Rightarrow> string option"
  pahoUnsubscribe :: "string \<Rightarrow> string option"
  signalled :: "nat \<Rightarrow> bool"

datatype fcall =
    FStart
  | FSubscribe string qos
  | FPublish qos string string
  | FUnsubscribe string
  | FDisconnect nat

datatype fend = FReturned | FPanicked string | FExit nat | FWaits

definition feeder_topic :: string where
  "feeder_topic = ''/go-mqtt/sample''"

definition feeder_msg :: "nat \<Rightarrow> fcall" where
  "feeder_msg i = FPublish QosAtLeastOnce feeder_topic (''this is msg #'' @ itoa i @ ''!'')"

text \<open>The loop: publish, then wait for the receipt; \<open>i\<close> counts up to 5, and the receipt of the subscription was
  number 0. The result is the number of the receipt it hangs on, if it does.\<close>

fun feed :: "paho \<Rightarrow> nat list \<Rightarrow> fcall list \<Rightarrow> nat option \<times> fcall list" where
  "feed P [] calls = (None, calls)"
| "feed P (i # ns) calls =
     (let calls1 = calls @ [feeder_msg i] in
      if signalled P (Suc i) then feed P ns calls1 else (Some (Suc i), calls1))"

definition feeder_main :: "paho \<Rightarrow> fend \<times> fcall list" where
  "feeder_main P =
     (case pahoStart P of
        Some err \<Rightarrow> (FPanicked err, [FStart])
      | None \<Rightarrow>
          (let calls = [FStart, FSubscribe feeder_topic QosAtMostOnce] in
           case pahoSubscribe P feeder_topic of
             Some err \<Rightarrow> (FExit 1, calls)
           | None \<Rightarrow>
               if \<not> signalled P 0 then (FWaits, calls)
               else
                 (case feed P [0..<5] calls of
                    (Some _, calls1) \<Rightarrow> (FWaits, calls1)
                  | (None, calls1) \<Rightarrow>
                      (let calls2 = calls1 @ [FUnsubscribe feeder_topic] in
                       case pahoUnsubscribe P feeder_topic of
                         Some err \<Rightarrow> (FExit 1, calls2)
                       | None \<Rightarrow>
                           if \<not> signalled P 6 then (FWaits, calls2)
                           else (FReturned, calls2 @ [FDisconnect 250])))))"

lemma feed_all: "\<forall>i \<in> set ns. signalled P (Suc i) \<Longrightarrow> feed P ns calls = (None, calls @ map feeder_msg ns)"
  by (induction ns arbitrary: calls) simp_all

lemma feed_None_iff: "fst (feed P ns calls) = None \<longleftrightarrow> (\<forall>i \<in> set ns. signalled P (Suc i))"
  by (induction ns arbitrary: calls) (simp_all add: Let_def)

text \<open>The program comes to its end exactly if no call fails and every receipt is signalled; it has then published five
  messages, in order, between its subscription and the end of it.\<close>

lemma feeder_returns_iff:
  "fst (feeder_main P) = FReturned \<longleftrightarrow>
     pahoStart P = None \<and> pahoSubscribe P feeder_topic = None \<and> pahoUnsubscribe P feeder_topic = None
     \<and> signalled P 0 \<and> (\<forall>i < 5. signalled P (Suc i)) \<and> signalled P 6"
  using feed_None_iff [of P "[0..<5]" "[FStart, FSubscribe feeder_topic QosAtMostOnce]"]
  by (cases "feed P [0..<5] [FStart, FSubscribe feeder_topic QosAtMostOnce]")
    (auto simp: feeder_main_def Let_def split: option.split)

lemma feeder_calls:
  assumes "fst (feeder_main P) = FReturned"
  shows "snd (feeder_main P) = [FStart, FSubscribe feeder_topic QosAtMostOnce]
    @ map feeder_msg [0..<5]
    @ [FUnsubscribe feeder_topic, FDisconnect 250]"
proof -
  have "feed P [0..<5] [FStart, FSubscribe feeder_topic QosAtMostOnce] = (None, [FStart, FSubscribe feeder_topic QosAtMostOnce]
      @ map feeder_msg [0..<5])"
    using assms by (intro feed_all) (simp add: feeder_returns_iff)
  then show ?thesis using assms by (simp add: feeder_returns_iff) (simp add: feeder_main_def Let_def del: upt_rec_numeral)
qed

end
