(* ===== verification/Buffers.thy ===== *)
theory Buffers
  imports Go_Strings "HOL-Library.Multiset"
begin

section \<open>Buffer pools: \<^verbatim>\<open>_bench/gc\<close>\<close>

text \<open>
  Three programs that measure the garbage collector. Each keeps a pool of 20 buffers and puts a buffer
  into a random slot in every round. \<^verbatim>\<open>gc_bad.go\<close> makes a new buffer every time, \<^verbatim>\<open>gc_good.go\<close> keeps
  the ones it takes out in a channel, \<^verbatim>\<open>mempool.go\<close> gives them to a goroutine that hands them out again
  and forgets those that are older than a minute.

  A buffer is its identity, the number of its allocation, and its length. What \<^verbatim>\<open>rand.Intn(n)\<close> returns is
  \<open>r mod n\<close> for a draw \<open>r\<close>; a round of \<^verbatim>\<open>main\<close> has one draw for the size and one for the slot.
  The lines the programs print are \<open>gc_line\<close> and \<open>mp_line\<close>: the statistics of the runtime are given from
  outside in every round (\<open>MemStats\<close>), and so is the text of a number of bytes, which \<^verbatim>\<open>gofmt.ByteSize\<close> makes.
  In \<^verbatim>\<open>mempool.go\<close> the goroutine is at its \<^verbatim>\<open>select\<close> between two steps, a step is one case of it together
  with what the other side does up to its next communication.

  The locale \<open>recycling\<close> is the contract that makes such a program safe: a step only drops buffers and adds
  newly allocated ones.
\<close>

record buffer =
  bid :: nat
  blen :: nat

definition makeBuffer :: "nat \<Rightarrow> nat \<Rightarrow> buffer" where
  "makeBuffer r n = \<lparr>bid = n, blen = r mod 5000000 + 5000000\<rparr>"

fun slot_bytes :: "buffer option \<Rightarrow> nat" where
  "slot_bytes None = 0"
| "slot_bytes (Some b) = blen b"

definition pool_bytes :: "buffer option list \<Rightarrow> nat" where
  "pool_bytes pool = sum_list (map slot_bytes pool)"

definition empty_pool :: "buffer option list" where
  "empty_pool = replicate 20 None"

text \<open>The draws of a round: the size, the slot.\<close>

type_synonym draws = "nat \<times> nat"

subsection \<open>\<^verbatim>\<open>gc_bad.go\<close>\<close>

record bad =
  bpool :: "buffer option list"
  bmakes :: nat

definition bad_init :: bad where
  "bad_init = \<lparr>bpool = empty_pool, bmakes = 0\<rparr>"

definition bad_round :: "draws \<Rightarrow> bad \<Rightarrow> bad" where
  "bad_round d s =
     (let b = makeBuffer (fst d) (bmakes s);
          i = snd d mod length (bpool s)
      in s\<lparr>bpool := (bpool s)[i := Some b], bmakes := bmakes s + 1\<rparr>)"

record MemStats =
  HeapSys :: nat
  HeapAlloc :: nat
  HeapIdle :: nat
  HeapReleased :: nat
  NumGC :: nat
  PauseTotalNs :: nat

definition pad :: "nat \<Rightarrow> string \<Rightarrow> string" where
  "pad n s = replicate (n - length s) (CHR '' '') @ s"

definition gc_line :: "(nat \<Rightarrow> string) \<Rightarrow> MemStats \<Rightarrow> nat \<Rightarrow> nat \<Rightarrow> string" where
  "gc_line bs m bytes makes =
     pad 10 (bs (HeapSys m)) @ '','' @ pad 10 (bs bytes) @ '','' @ pad 10 (bs (HeapAlloc m)) @ '','' @
     pad 10 (bs (HeapIdle m)) @ '','' @ pad 10 (bs (HeapReleased m)) @ '','' @ pad 10 (itoa (NumGC m)) @ '','' @
     pad 12 (itoa (PauseTotalNs m)) @ '','' @ itoa makes @ [CHR 0x0A]"

text \<open>The lines of the first rounds of \<^verbatim>\<open>main\<close>.\<close>

fun bad_main :: "(nat \<Rightarrow> string) \<Rightarrow> (draws \<times> MemStats) list \<Rightarrow> bad \<Rightarrow> string list" where
  "bad_main bs [] s = []"
| "bad_main bs ((d, m) # rs) s =
     (let s' = bad_round d s in gc_line bs m (pool_bytes (bpool s')) (bmakes s') # bad_main bs rs s')"

subsection \<open>\<^verbatim>\<open>gc_good.go\<close>\<close>

text \<open>The channel of capacity 5 is never closed; it is the list of the buffers in it.\<close>

record good =
  gpool :: "buffer option list"
  gbuffer :: "buffer list"
  gmakes :: nat

definition good_init :: good where
  "good_init = \<lparr>gpool = empty_pool, gbuffer = [], gmakes = 0\<rparr>"

definition good_take :: "nat \<Rightarrow> good \<Rightarrow> buffer \<times> good" where
  "good_take r s =
     (case gbuffer s of
        b # bs \<Rightarrow> (b, s\<lparr>gbuffer := bs\<rparr>)
      | [] \<Rightarrow> (makeBuffer r (gmakes s), s\<lparr>gmakes := gmakes s + 1\<rparr>))"

definition good_give :: "nat \<Rightarrow> good \<Rightarrow> good" where
  "good_give i s =
     (case gpool s ! i of
        None \<Rightarrow> s
      | Some p \<Rightarrow>
          if length (gbuffer s) < 5 then s\<lparr>gpool := (gpool s)[i := None], gbuffer := gbuffer s @ [p]\<rparr> else s)"

definition good_round :: "draws \<Rightarrow> good \<Rightarrow> good" where
  "good_round d s =
     (let (b, s1) = good_take (fst d) s;
          i = snd d mod length (gpool s1);
          s2 = good_give i s1
      in s2\<lparr>gpool := (gpool s2)[i := Some b]\<rparr>)"

fun good_main :: "(nat \<Rightarrow> string) \<Rightarrow> (draws \<times> MemStats) list \<Rightarrow> good \<Rightarrow> string list" where
  "good_main bs [] s = []"
| "good_main bs ((d, m) # rs) s =
     (let s' = good_round d s in gc_line bs m (pool_bytes (gpool s')) (gmakes s') # good_main bs rs s')"

subsection \<open>\<^verbatim>\<open>mempool.go\<close>\<close>

text \<open>The list of the goroutine, with the times in nanoseconds, and where \<^verbatim>\<open>main\<close> stands: before its receive from
  \<^verbatim>\<open>get\<close>, or after it with a buffer in hand.\<close>

datatype mpos = MTop | MHave buffer

record mp =
  mpool :: "buffer option list"
  mq :: "(int \<times> buffer) list"
  mmakes :: nat
  mmain :: mpos

datatype mevent = MGet int nat | MPut int nat | MTimeout int nat

text \<open>The head of the loop of the goroutine.\<close>

definition recycler_head :: "int \<Rightarrow> nat \<Rightarrow> mp \<Rightarrow> mp" where
  "recycler_head now r s =
     (if mq s = [] then s\<lparr>mq := [(now, makeBuffer r (mmakes s))], mmakes := mmakes s + 1\<rparr> else s)"

definition mp_init :: "int \<Rightarrow> nat \<Rightarrow> mp" where
  "mp_init now r = recycler_head now r \<lparr>mpool = empty_pool, mq = [], mmakes = 0, mmain = MTop\<rparr>"

definition recycler_get :: "int \<Rightarrow> nat \<Rightarrow> mp \<Rightarrow> mp" where
  "recycler_get now r s =
     (case (mmain s, mq s) of
        (MTop, (w, b) # q) \<Rightarrow> recycler_head now r (s\<lparr>mq := q, mmain := MHave b\<rparr>)
      | _ \<Rightarrow> s)"

definition recycler_give :: "int \<Rightarrow> nat \<Rightarrow> mp \<Rightarrow> mp" where
  "recycler_give now i s =
     (case mmain s of
        MTop \<Rightarrow> s
      | MHave b \<Rightarrow>
          let k = i mod length (mpool s);
              s1 = (case mpool s ! k of None \<Rightarrow> s | Some p \<Rightarrow> s\<lparr>mq := (now, p) # mq s\<rparr>)
          in s1\<lparr>mpool := (mpool s1)[k := Some b], mmain := MTop\<rparr>)"

definition recycler_timeout :: "int \<Rightarrow> nat \<Rightarrow> mp \<Rightarrow> mp" where
  "recycler_timeout now r s =
     recycler_head now r (s\<lparr>mq := filter (\<lambda>e. \<not> now - fst e > 60000000000) (mq s)\<rparr>)"

fun mp_step :: "mevent \<Rightarrow> mp \<Rightarrow> mp" where
  "mp_step (MGet now r) s = recycler_get now r s"
| "mp_step (MPut now i) s = recycler_give now i s"
| "mp_step (MTimeout now r) s = recycler_timeout now r s"

text \<open>What \<^verbatim>\<open>main\<close> prints after it has put a buffer into its slot; nothing counts \<^verbatim>\<open>frees\<close>.\<close>

definition mp_line :: "MemStats \<Rightarrow> mp \<Rightarrow> string" where
  "mp_line m s =
     itoa (HeapSys m) @ '','' @ itoa (pool_bytes (mpool s)) @ '','' @ itoa (HeapAlloc m) @ '','' @
     itoa (HeapIdle m) @ '','' @ itoa (HeapReleased m) @ '','' @ itoa (mmakes s) @ '','' @ itoa 0 @ [CHR 0x0A]"

subsection \<open>The contract\<close>

definition sized :: "buffer \<Rightarrow> bool" where
  "sized b \<longleftrightarrow> 5000000 \<le> blen b \<and> blen b < 10000000"

definition owned :: "('s \<Rightarrow> buffer list) \<Rightarrow> ('s \<Rightarrow> nat) \<Rightarrow> 's \<Rightarrow> bool" where
  "owned held made s \<longleftrightarrow> distinct (map bid (held s)) \<and> (\<forall>b \<in> set (held s). bid b < made s \<and> sized b)"

lemma makeBuffer_simps [simp]: "bid (makeBuffer r n) = n" "sized (makeBuffer r n)"
  by (simp_all add: makeBuffer_def sized_def)

lemma distinct_mset_subset:
  assumes "mset xs \<subseteq># mset ys" "distinct ys"
  shows "distinct xs"
proof -
  obtain zs where "mset ys = mset xs + mset zs" using assms(1) by (metis ex_mset subset_mset.le_iff_add)
  then have "mset ys = mset (xs @ zs)" by simp
  then have "distinct (xs @ zs)" using assms(2) mset_eq_imp_distinct_iff by blast
  then show ?thesis by simp
qed

locale recycling =
  fixes step :: "'e \<Rightarrow> 's \<Rightarrow> 's"
    and ok :: "'s \<Rightarrow> bool"
    and held :: "'s \<Rightarrow> buffer list"
    and made :: "'s \<Rightarrow> nat"
  assumes step_ok: "ok s \<Longrightarrow> ok (step e s)"
    and step_held: "ok s \<Longrightarrow>
      (\<exists>r. mset (held (step e s)) \<subseteq># mset (held s) + {#makeBuffer r (made s)#} \<and> made (step e s) = made s + 1)
      \<or> mset (held (step e s)) \<subseteq># mset (held s) \<and> made (step e s) = made s"
begin

lemma owned_step:
  assumes "ok s" and own: "owned held made s"
  shows "owned held made (step e s)"
proof -
  have sub: "owned (\<lambda>_. xs) (\<lambda>_. n) ()" if "mset xs \<subseteq># mset ys" "owned (\<lambda>_. ys) (\<lambda>_. n) ()" for xs ys n
  proof -
    have "image_mset bid (mset xs) \<subseteq># image_mset bid (mset ys)" using that(1) by (rule image_mset_subseteq_mono)
    then have "mset (map bid xs) \<subseteq># mset (map bid ys)" by simp
    moreover have "distinct (map bid ys)" using that(2) by (simp add: owned_def)
    ultimately have "distinct (map bid xs)" by (rule distinct_mset_subset)
    moreover have "set xs \<subseteq> set ys" using that(1) by (metis set_mset_mono set_mset_mset)
    ultimately show ?thesis using that(2) by (auto simp: owned_def)
  qed
  from step_held [OF assms(1), of e] show ?thesis
  proof
    assume "\<exists>r. mset (held (step e s)) \<subseteq># mset (held s) + {#makeBuffer r (made s)#} \<and> made (step e s) = made s + 1"
    then obtain r where "mset (held (step e s)) \<subseteq># mset (makeBuffer r (made s) # held s)" "made (step e s) = made s + 1" by auto
    moreover have "owned (\<lambda>_. makeBuffer r (made s) # held s) (\<lambda>_. made s + 1) ()"
      using own by (auto simp: owned_def less_Suc_eq)
    ultimately show ?thesis using sub [of "held (step e s)" "makeBuffer r (made s) # held s" "made s + 1"]
      by (simp add: owned_def)
  next
    assume "mset (held (step e s)) \<subseteq># mset (held s) \<and> made (step e s) = made s"
    with sub [of "held (step e s)" "held s" "made s"] own show ?thesis by (simp add: owned_def)
  qed
qed

lemma owned_run: "ok s \<Longrightarrow> owned held made s \<Longrightarrow> ok (fold step es s) \<and> owned held made (fold step es s)"
  by (induction es arbitrary: s) (simp_all add: owned_step step_ok)

end

subsection \<open>The three programs keep it\<close>

definition slots :: "buffer option list \<Rightarrow> buffer list" where
  "slots pool = List.map_filter id pool"

lemma slots_simps [simp]: "slots [] = []" "slots (None # p) = slots p" "slots (Some b # p) = b # slots p"
  "slots (p @ q) = slots p @ slots q"
  by (simp_all add: slots_def List.map_filter_def)

lemma slots_empty [simp]: "slots empty_pool = []" "length empty_pool = 20"
proof -
  have "slots (replicate n None) = []" for n by (induction n) simp_all
  then show "slots empty_pool = []" "length empty_pool = 20" by (simp_all add: empty_pool_def)
qed

text \<open>Filling a slot drops the buffer that was in it, if any.\<close>

lemma slots_update:
  assumes "i < length p"
  shows "mset (slots (p[i := Some b])) = mset (slots p) - (case p ! i of None \<Rightarrow> {#} | Some x \<Rightarrow> {#x#}) + {#b#}"
    and "mset (slots (p[i := None])) = mset (slots p) - (case p ! i of None \<Rightarrow> {#} | Some x \<Rightarrow> {#x#})"
    and "p ! i = Some x \<Longrightarrow> x \<in># mset (slots p)"
proof -
  have p: "p = take i p @ p ! i # drop (Suc i) p" using assms by (rule id_take_nth_drop)
  have u: "p[i := y] = take i p @ y # drop (Suc i) p" for y using assms by (simp add: upd_conv_take_nth_drop)
  have m: "mset (slots p) = mset (slots (take i p)) + (case p ! i of None \<Rightarrow> {#} | Some x \<Rightarrow> {#x#}) + mset (slots (drop (Suc i) p))"
    by (subst p) (simp split: option.split)
  show "mset (slots (p[i := Some b])) = mset (slots p) - (case p ! i of None \<Rightarrow> {#} | Some x \<Rightarrow> {#x#}) + {#b#}"
    "mset (slots (p[i := None])) = mset (slots p) - (case p ! i of None \<Rightarrow> {#} | Some x \<Rightarrow> {#x#})"
    unfolding u m by (simp_all split: option.split)
  show "p ! i = Some x \<Longrightarrow> x \<in># mset (slots p)" unfolding m by simp
qed

lemma fills:
  assumes "i < length p"
  shows "mset (slots (p[i := Some b])) \<subseteq># mset (slots p) + {#b#}"
    and "p ! i = Some x \<Longrightarrow> mset (slots (p[i := Some b])) + {#x#} = mset (slots p) + {#b#}"
    and "p ! i = Some x \<Longrightarrow> mset (slots (p[i := None])) + {#x#} = mset (slots p)"
proof -
  show "mset (slots (p[i := Some b])) \<subseteq># mset (slots p) + {#b#}"
    unfolding slots_update(1) [OF assms] by (cases "p ! i") simp_all
next
  assume x: "p ! i = Some x"
  then have "x \<in># mset (slots p)" by (rule slots_update(3) [OF assms])
  then show "mset (slots (p[i := Some b])) + {#x#} = mset (slots p) + {#b#}" "mset (slots (p[i := None])) + {#x#} = mset (slots p)"
    unfolding slots_update(1,2) [OF assms] x by simp_all
qed

definition bad_held :: "bad \<Rightarrow> buffer list" where
  "bad_held s = slots (bpool s)"

definition good_held :: "good \<Rightarrow> buffer list" where
  "good_held s = slots (gpool s) @ gbuffer s"

definition mp_held :: "mp \<Rightarrow> buffer list" where
  "mp_held s = slots (mpool s) @ (case mmain s of MTop \<Rightarrow> [] | MHave b \<Rightarrow> [b]) @ map snd (mq s)"

interpretation bad: recycling bad_round "\<lambda>s. length (bpool s) = 20" bad_held bmakes
proof
  fix s :: bad and d :: draws
  assume len: "length (bpool s) = 20"
  then show "length (bpool (bad_round d s)) = 20" by (simp add: bad_round_def Let_def)
  have "snd d mod length (bpool s) < length (bpool s)" using len by simp
  from fills(1) [OF this]
  show "(\<exists>r. mset (bad_held (bad_round d s)) \<subseteq># mset (bad_held s) + {#makeBuffer r (bmakes s)#} \<and> bmakes (bad_round d s) = bmakes s + 1)
    \<or> mset (bad_held (bad_round d s)) \<subseteq># mset (bad_held s) \<and> bmakes (bad_round d s) = bmakes s"
    by (auto simp: bad_round_def Let_def bad_held_def)
qed

text \<open>The channel of the good program never holds more than one buffer, so that a buffer taken out of the
  pool is never dropped, and all buffers ever made are in the pool or in the channel.\<close>

definition good_ok :: "good \<Rightarrow> bool" where
  "good_ok s \<longleftrightarrow> length (gpool s) = 20 \<and> length (gbuffer s) \<le> 1
     \<and> gmakes s = length (good_held s) \<and> gmakes s \<le> 21"

lemma length_slots: "length (slots p) \<le> length p"
proof (induction p)
  case (Cons x p)
  then show ?case by (cases x) simp_all
qed simp

lemma good_round_exact:
  fixes d :: draws
  assumes "good_ok s"
  defines "b \<equiv> (if gbuffer s = [] then makeBuffer (fst d) (gmakes s) else hd (gbuffer s))"
  defines "i \<equiv> snd d mod 20"
  shows "good_round d s = s\<lparr>gpool := (gpool s)[i := Some b],
    gbuffer := (case gpool s ! i of None \<Rightarrow> [] | Some p \<Rightarrow> [p]), gmakes := gmakes s + (if gbuffer s = [] then 1 else 0)\<rparr>"
proof -
  have tl: "tl (gbuffer s) = []" using assms(1) by (cases "gbuffer s") (simp_all add: good_ok_def)
  have take: "good_take (fst d) s = (b, s\<lparr>gbuffer := [], gmakes := gmakes s + (if gbuffer s = [] then 1 else 0)\<rparr>)"
    using tl by (cases "gbuffer s") (simp_all add: good_take_def b_def)
  have "length (gpool s) = 20" using assms(1) by (simp add: good_ok_def)
  then show ?thesis
    by (cases "gpool s ! i") (simp_all add: good_round_def take good_give_def i_def)
qed

lemma good_round_held:
  assumes "good_ok s"
  shows "mset (good_held (good_round d s)) =
      mset (good_held s) + (if gbuffer s = [] then {#makeBuffer (fst d) (gmakes s)#} else {#})"
proof -
  let ?i = "snd d mod 20" and ?b = "if gbuffer s = [] then makeBuffer (fst d) (gmakes s) else hd (gbuffer s)"
  have i: "?i < length (gpool s)" using assms by (simp add: good_ok_def)
  have "mset (slots ((gpool s)[?i := Some ?b])) + mset (case gpool s ! ?i of None \<Rightarrow> [] | Some p \<Rightarrow> [p])
      = mset (slots (gpool s)) + {#?b#}"
    using fills(2) [OF i, of _ ?b] slots_update(1) [OF i, of ?b] by (cases "gpool s ! ?i") simp_all
  moreover have "mset (gbuffer s) = (if gbuffer s = [] then {#} else {#hd (gbuffer s)#})"
    using assms by (cases "gbuffer s") (simp_all add: good_ok_def)
  ultimately show ?thesis by (simp add: good_round_exact [OF assms] good_held_def)
qed

lemma good_round_ok:
  assumes "good_ok s"
  shows "good_ok (good_round d s)"
proof -
  have len: "length (gpool (good_round d s)) = 20" "length (gbuffer (good_round d s)) \<le> 1"
    using assms by (simp_all add: good_round_exact [OF assms] good_ok_def split: option.split)
  have held: "length (good_held (good_round d s)) = length (good_held s) + (if gbuffer s = [] then 1 else 0)"
    using arg_cong [OF good_round_held [OF assms], of size] by (simp split: if_splits)
  have "gbuffer s = [] \<Longrightarrow> length (good_held s) \<le> 20"
    using length_slots [of "gpool s"] assms by (simp add: good_held_def good_ok_def)
  with len held assms show ?thesis by (simp add: good_round_exact [OF assms] good_ok_def split: if_splits)
qed

interpretation good: recycling good_round good_ok good_held gmakes
proof
  fix s :: good and d :: draws
  assume ok: "good_ok s"
  then show "good_ok (good_round d s)" by (rule good_round_ok)
  show "(\<exists>r. mset (good_held (good_round d s)) \<subseteq># mset (good_held s) + {#makeBuffer r (gmakes s)#} \<and> gmakes (good_round d s) = gmakes s + 1)
    \<or> mset (good_held (good_round d s)) \<subseteq># mset (good_held s) \<and> gmakes (good_round d s) = gmakes s"
    unfolding good_round_held [OF ok] by (auto simp: good_round_exact [OF ok])
qed

text \<open>The goroutine of the third program always has a buffer to offer.\<close>

definition mp_ok :: "mp \<Rightarrow> bool" where
  "mp_ok s \<longleftrightarrow> length (mpool s) = 20 \<and> mq s \<noteq> []"

lemma recycler_head_held:
  "if mq s = [] then mset (mp_held (recycler_head now r s)) = mset (mp_held s) + {#makeBuffer r (mmakes s)#}
       \<and> mmakes (recycler_head now r s) = mmakes s + 1
   else recycler_head now r s = s"
  by (simp add: recycler_head_def mp_held_def)

lemma recycler_head_ok [simp]: "mq (recycler_head now r s) \<noteq> []" "mpool (recycler_head now r s) = mpool s"
  by (simp_all add: recycler_head_def)

lemma head_law:
  assumes "mset (mp_held s1) \<subseteq># mset (mp_held s)" "mmakes s1 = mmakes s"
  shows "(\<exists>r. mset (mp_held (recycler_head now k s1)) \<subseteq># mset (mp_held s) + {#makeBuffer r (mmakes s)#}
      \<and> mmakes (recycler_head now k s1) = mmakes s + 1)
    \<or> mset (mp_held (recycler_head now k s1)) \<subseteq># mset (mp_held s) \<and> mmakes (recycler_head now k s1) = mmakes s"
proof (cases "mq s1 = []")
  case True
  then show ?thesis using recycler_head_held [of s1 now k] assms by (auto intro!: exI [of _ k])
next
  case False
  then show ?thesis using recycler_head_held [of s1 now k] assms by simp
qed

interpretation mp: recycling mp_step mp_ok mp_held mmakes
proof
  fix s :: mp and e :: mevent
  assume ok: "mp_ok s"
  show "mp_ok (mp_step e s)"
    using ok by (cases e) (auto simp: mp_ok_def recycler_get_def recycler_give_def recycler_timeout_def Let_def
        split: mpos.split list.split option.split)
  show "(\<exists>r. mset (mp_held (mp_step e s)) \<subseteq># mset (mp_held s) + {#makeBuffer r (mmakes s)#} \<and> mmakes (mp_step e s) = mmakes s + 1)
    \<or> mset (mp_held (mp_step e s)) \<subseteq># mset (mp_held s) \<and> mmakes (mp_step e s) = mmakes s"
  proof (cases e)
    case (MGet now k)
    obtain w b q where q: "mq s = (w, b) # q" using ok by (cases "mq s") (auto simp: mp_ok_def)
    show ?thesis
    proof (cases "mmain s")
      case MTop
      then show ?thesis
        using head_law [of "s\<lparr>mq := q, mmain := MHave b\<rparr>" s now k] q MGet by (simp add: recycler_get_def mp_held_def)
    next
      case (MHave c)
      then show ?thesis using MGet by (simp add: recycler_get_def)
    qed
  next
    case (MPut now k)
    show ?thesis
    proof (cases "mmain s")
      case MTop
      then show ?thesis using MPut by (simp add: recycler_give_def)
    next
      case (MHave b)
      let ?i = "k mod length (mpool s)"
      have i: "?i < length (mpool s)" using ok by (simp add: mp_ok_def)
      show ?thesis
      proof (cases "mpool s ! ?i")
        case None
        then show ?thesis using MHave MPut fills(1) [OF i, of b] by (simp add: recycler_give_def mp_held_def Let_def)
      next
        case (Some p)
        then show ?thesis using MHave MPut fills(2) [OF i Some, of b] by (simp add: recycler_give_def mp_held_def Let_def)
      qed
    qed
  next
    case (MTimeout now k)
    let ?q = "filter (\<lambda>e. \<not> now - fst e > 60000000000) (mq s)"
    have "mset (map snd ?q) \<subseteq># mset (map snd (mq s))" by (simp add: image_mset_subseteq_mono multiset_filter_subset)
    then have "mset (mp_held (s\<lparr>mq := ?q\<rparr>)) \<subseteq># mset (mp_held s)" by (simp add: mp_held_def)
    then show ?thesis using head_law [of "s\<lparr>mq := ?q\<rparr>" s now k] MTimeout by (simp add: recycler_timeout_def)
  qed
qed

lemma pool_bytes_bound:
  assumes "length p = 20" "\<forall>b \<in> set (slots p). sized b"
  shows "pool_bytes p < 200000000"
proof -
  have "slot_bytes x \<le> 9999999" if "x \<in> set p" for x
  proof (cases x)
    case (Some b)
    then have "b \<in> set (slots p)" using that by (auto simp: slots_def List.map_filter_def image_iff intro!: bexI [of _ x])
    then show ?thesis using assms(2) Some by (auto simp: sized_def)
  qed simp
  then have "pool_bytes p \<le> length p * 9999999"
    unfolding pool_bytes_def by (induction p) (simp_all add: add_mono)
  then show ?thesis using assms(1) by simp
qed

lemma bad_end:
  "distinct (map bid (bad_held (fold bad_round ds bad_init)))" "pool_bytes (bpool (fold bad_round ds bad_init)) < 200000000"
  "bmakes (fold bad_round ds bad_init) = length ds"
proof -
  have "length (bpool (fold bad_round ds bad_init)) = 20 \<and> owned bad_held bmakes (fold bad_round ds bad_init)"
    by (rule bad.owned_run) (simp_all add: bad_init_def owned_def bad_held_def)
  then show "distinct (map bid (bad_held (fold bad_round ds bad_init)))" "pool_bytes (bpool (fold bad_round ds bad_init)) < 200000000"
    using pool_bytes_bound by (simp_all add: owned_def bad_held_def)
  have "bmakes (fold bad_round ds s) = bmakes s + length ds" for s
    by (induction ds arbitrary: s) (simp_all add: bad_round_def Let_def)
  then show "bmakes (fold bad_round ds bad_init) = length ds" by (simp add: bad_init_def)
qed

lemma good_end:
  "distinct (map bid (good_held (fold good_round ds good_init)))" "pool_bytes (gpool (fold good_round ds good_init)) < 200000000"
  "good_ok (fold good_round ds good_init)"
proof -
  have "good_ok (fold good_round ds good_init) \<and> owned good_held gmakes (fold good_round ds good_init)"
    by (rule good.owned_run) (simp_all add: good_init_def good_ok_def owned_def good_held_def)
  then show "distinct (map bid (good_held (fold good_round ds good_init)))" "pool_bytes (gpool (fold good_round ds good_init)) < 200000000"
    "good_ok (fold good_round ds good_init)"
    using pool_bytes_bound by (simp_all add: owned_def good_held_def good_ok_def)
qed

lemma mp_end:
  "distinct (map bid (mp_held (fold mp_step es (mp_init now r))))" "pool_bytes (mpool (fold mp_step es (mp_init now r))) < 200000000"
proof -
  have "mp_ok (fold mp_step es (mp_init now r)) \<and> owned mp_held mmakes (fold mp_step es (mp_init now r))"
    by (rule mp.owned_run) (simp_all add: mp_init_def recycler_head_def mp_ok_def owned_def mp_held_def)
  then show "distinct (map bid (mp_held (fold mp_step es (mp_init now r))))" "pool_bytes (mpool (fold mp_step es (mp_init now r))) < 200000000"
    using pool_bytes_bound by (simp_all add: owned_def mp_held_def mp_ok_def)
qed

subsection \<open>What is printed\<close>

lemma main_lines:
  "bad_main bs rs s = map (\<lambda>k. let t = fold bad_round (map fst (take (Suc k) rs)) s in
     gc_line bs (snd (rs ! k)) (pool_bytes (bpool t)) (bmakes t)) [0..<length rs]"
  "good_main bs rs u = map (\<lambda>k. let t = fold good_round (map fst (take (Suc k) rs)) u in
     gc_line bs (snd (rs ! k)) (pool_bytes (gpool t)) (gmakes t)) [0..<length rs]"
  by (induction rs arbitrary: s u) (auto simp: Let_def map_upt_Suc simp del: upt_Suc)

text \<open>The columns \<^verbatim>\<open>bytes\<close> and \<^verbatim>\<open>makes\<close>: both programs show less than 200 million bytes in every line;
  the \<open>k\<close>-th line of \<^verbatim>\<open>gc_bad.go\<close> shows \<open>k\<close> buffers made, no line of \<^verbatim>\<open>gc_good.go\<close> shows more than 21.\<close>

lemma main_columns:
  assumes "k < length rs"
  shows "\<exists>n < 200000000. bad_main bs rs bad_init ! k = gc_line bs (snd (rs ! k)) n (Suc k)"
    and "\<exists>n < 200000000. \<exists>j \<le> 21. good_main bs rs good_init ! k = gc_line bs (snd (rs ! k)) n j"
proof -
  let ?ds = "map fst (take (Suc k) rs)"
  have "bad_main bs rs bad_init ! k
      = gc_line bs (snd (rs ! k)) (pool_bytes (bpool (fold bad_round ?ds bad_init))) (Suc k)"
    using assms bad_end(3) [of ?ds] by (simp add: main_lines Let_def)
  with bad_end(2) [of ?ds] show "\<exists>n < 200000000. bad_main bs rs bad_init ! k = gc_line bs (snd (rs ! k)) n (Suc k)"
    by blast
  have "good_main bs rs good_init ! k = gc_line bs (snd (rs ! k))
      (pool_bytes (gpool (fold good_round ?ds good_init))) (gmakes (fold good_round ?ds good_init))"
    using assms by (simp add: main_lines Let_def)
  moreover have "gmakes (fold good_round ?ds good_init) \<le> 21" using good_end(3) [of ?ds] by (simp add: good_ok_def)
  ultimately show "\<exists>n < 200000000. \<exists>j \<le> 21. good_main bs rs good_init ! k = gc_line bs (snd (rs ! k)) n j"
    using good_end(2) [of ?ds] by blast
qed

subsection \<open>Properties\<close>

text \<open>C30: no two owners ever share a buffer. In all three programs, for any random draws and any timing, all
  the buffers in the pool, in the channel or the list, and in the hand of \<^verbatim>\<open>main\<close> are different from each
  other, and the pool holds less than 200 million bytes. Moreover \<^verbatim>\<open>gc_good.go\<close> reuses what it
  made: it makes at most 21 buffers however long it runs and loses none, while \<^verbatim>\<open>gc_bad.go\<close> makes one
  in each round.\<close>

theorem buffers_are_never_shared:
  "(let s = fold bad_round ds bad_init in
      distinct (map bid (bad_held s)) \<and> pool_bytes (bpool s) < 200000000 \<and> bmakes s = length ds)
   \<and> (let s = fold good_round ds good_init in
      distinct (map bid (good_held s)) \<and> pool_bytes (gpool s) < 200000000 \<and> gmakes s \<le> 21 \<and> length (good_held s) = gmakes s)
   \<and> (let s = fold mp_step es (mp_init now r) in
      distinct (map bid (mp_held s)) \<and> pool_bytes (mpool s) < 200000000)"
  unfolding Let_def using bad_end [of ds] good_end [of ds] mp_end [of es now r] by (simp add: good_ok_def)

end
