(* ===== verification/Spec2Isabelle.thy ===== *)
theory Spec2Isabelle
  imports Room Cluster Flight Startup Discovery Feeder Buffers
begin

text \<open>
  This development verifies mhub, an MQTT broker written in Go (\<^verbatim>\<open>src/\<close>), with its client library, its
  chat program and its cluster discovery.

  \<^bold>\<open>The program.\<close> A broker (\<^verbatim>\<open>broker/server.go\<close>) accepts TCP connections. Each connection
  (\<^verbatim>\<open>broker/session.go\<close>) has an inbound goroutine that decodes messages and runs the handlers of
  \<^verbatim>\<open>broker/proto.go\<close>, an outbound goroutine that writes what is queued for the client, and a
  keep-alive goroutine. A PUBLISH is stored (\<^verbatim>\<open>store.go\<close>, \<^verbatim>\<open>memstore.go\<close>), posted to the workers of the
  subscription table (\<^verbatim>\<open>subs.go\<close>, \<^verbatim>\<open>wild.go\<close>), which queue it at every matching connection, and
  replicated to peer brokers (\<^verbatim>\<open>peers.go\<close>, \<^verbatim>\<open>endpoint.go\<close>). Counters (\<^verbatim>\<open>stats.go\<close>), presence in redis
  (\<^verbatim>\<open>presence.go\<close>, \<^verbatim>\<open>redistore.go\<close>) and the configuration (\<^verbatim>\<open>config/\<close>) stand beside it. \<^verbatim>\<open>broker/api.go\<close>
  is the client side of a connection, \<^verbatim>\<open>cmd/fchat\<close> a program that uses it, \<^verbatim>\<open>cluster/discovery.go\<close> finds the
  other machines through etcd, \<^verbatim>\<open>daemon/mhub\<close> starts everything.

  \<^bold>\<open>Conventions.\<close> A Go statement on a state \<open>'s\<close> is a function \<open>'s \<Rightarrow> 's res\<close>; \<open>Ret\<close>, \<open>Panic\<close> and \<open>Block\<close> are its
  outcomes (theory \<open>Prelude\<close>). A struct is a record with the fields of the source, a method a definition with its name,
  prefixed where two types share it. Goroutines interleave: a step relation takes one step of one of them at
  a time. Published messages and slices that are shared through pointers live in an explicit heap. Code
  outside the repository is an argument: the sizes of encoded messages, the growth of slices and the
  order of map iteration (record \<open>env\<close>), the lookups of the configuration file (\<open>conf\<close>), the rate limiter
  (an argument \<open>poured\<close> of a step), the clock, etcd (\<open>etcd\<close>, with \<open>etcd_ok\<close> for what its documentation promises), the
  operating system (\<open>osys\<close>), the translation service (\<open>webapi\<close>), random numbers.

  \<^bold>\<open>Theories.\<close>
  \<^item> \<open>Prelude\<close>, \<open>Go_Strings\<close>, \<open>Go_Chan\<close>, \<open>Go_Slice\<close>: statements and their invariants (\<open>keeps\<close>), the string functions of
    the standard library, channels with the contract \<open>outbound_queue\<close>, slices over backing arrays.
  \<^item> \<open>Wild\<close> (\<^verbatim>\<open>wild.go\<close>): the index loops over topic filters decide the declarative meaning of a filter.
  \<^item> \<open>Messages\<close> (\<^verbatim>\<open>types.go\<close> and the message structs), \<open>Store\<close> (\<^verbatim>\<open>store.go\<close>, \<^verbatim>\<open>memstore.go\<close>; contract \<open>store\<close>): keys round trip,
    QoS 1 messages are held until their PUBACK, every client id has a store of its own.
  \<^item> \<open>Config\<close> (\<^verbatim>\<open>config/\<close>), \<open>Stats\<close> and \<open>Reporting\<close> (\<^verbatim>\<open>stats.go\<close>), \<open>Presence\<close> (\<^verbatim>\<open>redistore.go\<close>, \<^verbatim>\<open>presence.go\<close>): loading, counters as
    64 bit words, the reporting loop and its HTTP handler, presence as the last event of a user.
  \<^item> \<open>Subs\<close> (\<^verbatim>\<open>subs.go\<close>; contract \<open>subscription_table\<close>): the table refines the set of accepted filters for any sequence of operations.
  \<^item> \<open>Endpoint\<close> (\<^verbatim>\<open>endpoint.go\<close>), \<open>Peers\<close> (\<^verbatim>\<open>peers.go\<close>): queues and sessions of peers, replication, replay.
  \<^item> \<open>Session\<close>, \<open>Handlers\<close>, \<open>Worker\<close>, \<open>Loops\<close> (\<^verbatim>\<open>session.go\<close>, \<^verbatim>\<open>proto.go\<close>, \<^verbatim>\<open>auth.go\<close>, \<^verbatim>\<open>subs.go\<close>, \<^verbatim>\<open>server.go\<close>): the state \<open>world\<close> of a broker, every
    handler, the goroutines, and their interleaving \<open>bstep\<close>.
  \<^item> \<open>Invariants\<close>, \<open>Safety\<close>, \<open>Crashes\<close>: the invariants of all reachable states (\<open>broker_state\<close>) and the exact set of inputs
    on which a step panics. \<open>Traces\<close>: the same steps as executable lists of events, for concrete runs.
  \<^item> \<open>Delivery\<close>, \<open>Connections\<close>: what the handlers and goroutines achieve together. \<open>Cluster\<close>: two brokers, from the
    replication of a batch of messages at one, through the goroutine of its endpoint, to the posts of the other.
  \<^item> \<open>Client\<close> (\<^verbatim>\<open>broker/api.go\<close>): the goroutines and callers of a client as a step relation \<open>cstep\<close>, with its invariant, its
    panics, and calls that never return. \<open>Link\<close>: a client and a broker joined by a socket; CONNECT and
    PUBLISH from the call to its return.
  \<^item> \<open>Startup\<close> (\<^verbatim>\<open>server.go\<close>, \<^verbatim>\<open>peers.go\<close>, \<^verbatim>\<open>daemon/mhub\<close>): from the command line to a serving broker.
  \<^item> \<open>Discovery\<close> (\<^verbatim>\<open>cluster/discovery.go\<close>): registration, election and listing, for any number of machines interleaved.
  \<^item> \<open>Chat\<close> (\<^verbatim>\<open>cmd/fchat\<close>), \<open>Feeder\<close> (\<^verbatim>\<open>cmd/feeder\<close>), \<open>Buffers\<close> (\<^verbatim>\<open>_bench/gc\<close>; contract \<open>recycling\<close>): the programs around the broker.
    \<open>Room\<close>: any number of clients and a broker joined by their sockets (\<open>net\<close>, \<open>nrun\<close>; each connection of it is a
    \<open>link\<close>), and on top of it the chat program: a line from the keyboard of one user to the screen of another.
  \<^item> \<open>Flight\<close> (\<^verbatim>\<open>flight.go\<close>): the table of messages in flight, whose operations do nothing.
  \<^item> this theory: the properties of the whole broker.

  \<^bold>\<open>Bounds and fuel.\<close> Most loops are structural recursions; the main loop of the chat program is well-founded on the unread
  input. Loops that run for ever are single rounds taken by a step relation, so that nothing
  depends on fuel; \<open>run\<close>, \<open>crun\<close>, \<open>lrun\<close> and \<open>nrun\<close> consume a list of events. Only the session loop of an
  endpoint (\<open>ep_run\<close>) has a number of rounds, and its properties say how many are enough. 64 and 16 bit
  counters and message ids are words and wrap around; Go's \<^verbatim>\<open>int\<close> is \<open>int\<close>.

  \<^bold>\<open>What is simplified.\<close> A handler runs as one step, and one that would block does not step until it can go
  through; the test of \<^verbatim>\<open>alive\<close> and the send after it are one step (the code has a race there). A send
  to a channel of capacity zero counts as blocking unless it is modelled as a rendezvous (the
  acknowledgements of the client, the channels of \<^verbatim>\<open>mempool.go\<close>). Floating point values are exact. \<^verbatim>\<open>join\<close> of a peer has
  no caller in the repository but may happen at any time. The entries of etcd do not expire during a discovery.

  The goroutine of an endpoint is started by code that is disabled, so its steps are not among those of
  \<open>bstep\<close>; \<open>Endpoint\<close> and \<open>Cluster\<close> treat it on its own.

  \<^bold>\<open>Not modelled.\<close> \<^verbatim>\<open>daemon/mlookupd\<close>, \<^verbatim>\<open>plugins\<close>: package clauses only, there is nothing to model. Logging, profiling,
  the flags of \<^verbatim>\<open>daemon/mhub\<close> that only choose them, the slow-client counters that are only logged, the
  colours and times of printed lines: output only. The generator behind the random client ids and its
  numbers are the standard library's; the seed it is given is \<open>client_seed\<close>. The test programs under
  \<^verbatim>\<open>cmd/test\<close> and the \<^verbatim>\<open>_test.go\<close> files exercise the code above and are not part of it.
\<close>

section \<open>Properties of the whole broker\<close>

subsection \<open>The invariant\<close>

text \<open>C1: in every state a broker can get into, from any configuration and under any interleaving of
  its goroutines and any behaviour of its clients: the slices of the subscription table are well
  formed and the queue of posts is open; a connection is alive exactly as long as its queue is
  open, which is exactly until its inbound goroutine ends, its queue never exceeds its capacity and
  its keep-alive channel is closed exactly when its outbound goroutine has cleaned up; every
  connection that has a subscription, a queued QoS 1 message or a completed CONNECT has a store of its
  own client id's map; and every worker in the middle of a delivery has a valid slice.\<close>

theorem broker_invariant:
  assumes "broker_state w"
  shows "subs_wf (table w) \<and> \<not> closed (posts (table w))
    \<and> (\<forall>c. (alive (conns w c) \<longleftrightarrow> \<not> closed (jobs (conns w c)))
        \<and> (inpos (conns w c) = InDone \<longleftrightarrow> closed (jobs (conns w c)))
        \<and> length (buf (jobs (conns w c))) \<le> ccap (jobs (conns w c))
        \<and> (heartbeatStopClosed (conns w c) \<longleftrightarrow> outpos (conns w c) = OutDone))
    \<and> (\<forall>c. c \<in> mentioned (table w) \<longrightarrow> owns w c)
    \<and> (\<forall>c j. j \<in> set (buf (jobs (conns w c))) \<longrightarrow> needs_store (jm j) \<longrightarrow> owns w c)
    \<and> (\<forall>c. inpos (conns w c) = InLoop \<longrightarrow> connected c w \<longrightarrow> owns w c)
    \<and> stores_wf (cstores w)
    \<and> (\<forall>i. i < length (workers w) \<longrightarrow> wpos_ok (sarrs (table w)) (workers w ! i))"
  using broker_state_inv [OF assms]
  by (auto simp: inv_def conn_inv_def B_def G_def has_store_def owns_def chan_wf_def stores_inv_def connected_def)

theorem broker_invariant_witness:
  "subs_wf (table posted) \<and> length (buf (jobs (conns posted 1))) \<le> 4 \<and> \<not> heartbeatStopClosed (conns posted 1)"
  using broker_invariant [OF posted(2)] posted(1) by (auto dest: spec [of _ 1])

subsection \<open>Crashes\<close>

definition accepted :: world where
  "accepted = the (run [EAccept 0] small_broker)"

lemma accepted_run:
  "reaches [EAccept 0] small_broker (\<lambda>w. 0 < nconns w \<and> inpos (conns w 0) = InLoop \<and> \<not> sockClosed (conns w 0)
     \<and> 0 \<le> ClientOutboundQueueLen (Broker (cf w)) \<and> 0 \<le> QueueLen (Peers (cf w))
     \<and> (\<exists>w'. inbound_step 100 True 0 (Decoded (Publish (says ''t'' QosAtMostOnce False [1]))) w = Panic NilDeref w'))"
  by (simp add: reaches_def exec zero_peers_def)

lemmas accepted = reaches_the [OF accepted_run, folded accepted_def]
  small_broker_run [OF accepted_run, folded accepted_def]

text \<open>C2: which input of a client kills the broker, exactly: in any state the broker can be in, a
  round of the inbound goroutine of a connection panics if and only if the input is one of those of
  \<open>crash_input\<close>: a PUBLISH or SUBSCRIBE before CONNECT; a PUBLISH over the rate limit on a
  connection that has been stopped; a SUBSCRIBE beyond the subscription limit on such a connection,
  or by two or more; a CONNECT with the client id of a registered connection whose inbound
  goroutine has ended; and, with presence enabled, the end of a connection that never sent
  CONNECT.\<close>

theorem client_input_crashes_iff:
  assumes "broker_state w" and "c < nconns w" and "inpos (conns w c) = InLoop"
  shows "panics (inbound_step now poured c d w) \<longleftrightarrow> crash_input poured c d w"
  using broker_state_inv [OF assms(1)] assms(2,3) by (intro inbound_step_panics) simp_all

theorem client_input_crashes_iff_witness:
  "\<not> panics (inbound_step 5 True 0 (Decoded PingReq) accepted)"
  using client_input_crashes_iff [OF accepted(2), of 0 5 True "Decoded PingReq"] accepted(1)
  by (simp add: crash_input_def Let_def)



definition crashes_with :: "event list \<Rightarrow> event \<Rightarrow> panic \<Rightarrow> bool" where
  "crashes_with evs ev p \<longleftrightarrow> reaches evs small_broker
     (\<lambda>w. enabled ev w \<and> (case step_event ev w of Panic q _ \<Rightarrow> q = p | _ \<Rightarrow> False))"

definition join_a :: "event list" where
  "join_a = [EAccept 0, got 0 (Connect (connect_as ''a''))]"

definition over_limit :: "nat \<Rightarrow> event" where
  "over_limit n = got 0 (Subscribe zero_header 1 (replicate n \<lparr>Topic = ''t'', Qos = QosAtMostOnce\<rparr>))"

definition over_rate :: event where
  "over_rate = EInbound 100 False 0 (Decoded (Publish (says ''t'' QosAtMostOnce False [1])))"


subsection \<open>From publisher to subscriber\<close>


definition ready :: world where
  "ready = the (run two_clients small_broker)"

lemma ready_run:
  "reaches two_clients small_broker (\<lambda>w. BuffOverflowStrategy (Broker (cf w)) \<noteq> BufferOverflowBlock \<and> nodes w = []
     \<and> nconns w = 2 \<and> inpos (conns w 0) = InLoop \<and> flag (conns w 0) \<noteq> None \<and> \<not> sockClosed (conns w 0)
     \<and> buf (posts (table w)) = [] \<and> 0 < ccap (posts (table w)) \<and> 0 < length (workers w) \<and> workers w ! 0 = WIdle
     \<and> outpos (conns w 1) = OutLoop \<and> 0 < room 1 w \<and> Disconnect \<notin> set (queue 1 w)
     \<and> 1 \<in> lookup_conns (env w) ''t'' (table w)
     \<and> PayloadSize (env w) [1] \<noteq> 0)"
  by (simp add: reaches_def two_clients_def exec room_def queue_def lookup_conns_def)

lemmas ready = reaches_the [OF ready_run, folded ready_def]
  small_broker_run [OF ready_run, folded ready_def]


subsection \<open>Taking over a client id\<close>

definition takeover :: "event list" where
  "takeover = join_a @ [EAccept 0, got 1 (Connect (connect_as ''a'')), EOutbound 5 True 0, EOutbound 6 True 0,
     EResume 7 1]"


subsection \<open>Acknowledgements of clients\<close>

definition delivered :: "event list" where
  "delivered = two_clients @ [got 0 (Publish (says ''t'' QosAtLeastOnce False [1])), ETake 0, EDeliver 0,
     EFinish 0, EOutbound 5 True 1, EOutbound 6 True 1, EOutbound 7 True 1]"

definition back_again :: "event list" where
  "back_again = [got 1 Disconnect, EOutbound 8 True 1, ECleanup 1, EAccept 9,
     got 2 (Connect ((connect_as ''b'')\<lparr>CleanSession := False\<rparr>)), EOutbound 10 True 2]"



end
